(* ===== verification/Prelude.thy ===== *)
theory Prelude
  imports Main "HOL-Library.Word" "HOL-Library.Monad_Syntax" "HOL-Library.Multiset"
    "HOL-Library.Char_ord" "HOL-Library.List_Lexorder"
begin

text \<open>
  What every theory of the development shares: the machine integers of the Rust code, the
  convention for panics, the theorem collections the component theories add to, and
  lemmas on lists and words that are used by more than one component.
\<close>

unbundle bit_operations_syntax

section \<open>Machine integers\<close>

type_synonym u8 = "8 word"
type_synonym u16 = "16 word"
type_synonym u32 = "32 word"
type_synonym u64 = "64 word"

text \<open>
  Plain \<open>+\<close> on words wraps, as Rust's \<open>+\<close> does in the release profile that the README
  installs; theorems that need an exact sum say so with a bound.  The saturating
  subtraction of the standard library is written out.
\<close>

definition saturating_sub :: "'a::len word \<Rightarrow> 'a word \<Rightarrow> 'a word" where
  "saturating_sub a b = (if b \<le> a then a - b else 0)"

section \<open>Panics\<close>

text \<open>
  A computation that can panic has a result of type \<open>'a may_panic\<close>: \<^term>\<open>None\<close> is the
  panic.  Rust's checked indexing and slicing are the usual sources of one.
\<close>

type_synonym 'a may_panic = "'a option"

definition idx :: "'a list \<Rightarrow> nat \<Rightarrow> 'a may_panic" where
  "idx xs i = (if i < length xs then Some (xs ! i) else None)"

definition slice :: "'a list \<Rightarrow> nat \<Rightarrow> nat \<Rightarrow> 'a list may_panic" where
  "slice xs a b = (if a \<le> b \<and> b \<le> length xs then Some (take (b - a) (drop a xs)) else None)"

section \<open>Collections\<close>

named_theorems outcome_simps \<open>equations that evaluate a fallible step on known input\<close>
named_theorems inv_intros \<open>rules that establish or preserve a component invariant\<close>
named_theorems frame_simps \<open>what an operation leaves unchanged\<close>

section \<open>Words\<close>

lemma unat_saturating_sub: "unat (saturating_sub a b) = unat a - unat b"
  by (simp add: saturating_sub_def unat_sub word_le_nat_alt)

lemma saturating_sub_self [simp]: "saturating_sub a a = 0"
  by (simp add: saturating_sub_def)

lemma saturating_sub_zero [simp]: "saturating_sub a 0 = a"
  by (simp add: saturating_sub_def)

lemma add_saturating_sub: "b \<le> a \<Longrightarrow> b + saturating_sub a b = a"
  by (simp add: saturating_sub_def)

lemma unat_add_no_wrap:
  "unat a + unat b < 2 ^ LENGTH('a) \<Longrightarrow> unat (a + b :: 'a::len word) = unat a + unat b"
  by (rule unat_add_lem [THEN iffD1])

lemma unat_succ: "w \<noteq> - 1 \<Longrightarrow> unat (w + 1) = Suc (unat w)"
  using unatSuc [of w] by (simp add: add.commute eq_neg_iff_add_eq_0)

lemma word_less_succ:
  fixes x y :: "'a::len word"
  assumes "y \<noteq> - 1" "x < y"
  shows "x < y + 1"
  using assms inc_less_eq_triv_imp [of y] by (meson not_le order_less_trans)

lemma word_less_self_succ: "y \<noteq> - 1 \<Longrightarrow> y < (y + 1 :: 'a::len word)"
  using inc_less_eq_triv_imp [of y] by (meson not_le)

section \<open>Lists\<close>

lemma idx_Some [outcome_simps]: "i < length xs \<Longrightarrow> idx xs i = Some (xs ! i)"
  by (simp add: idx_def)

lemma slice_Some [outcome_simps]:
  "a \<le> b \<Longrightarrow> b \<le> length xs \<Longrightarrow> slice xs a b = Some (take (b - a) (drop a xs))"
  by (simp add: slice_def)

lemma filter_id_iff: "filter P xs = xs \<longleftrightarrow> (\<forall>x \<in> set xs. P x)"
  by (induction xs) (auto, metis impossible_Cons length_filter_le)

lemma filter_none: "(\<And>x. x \<in> set xs \<Longrightarrow> \<not> P x) \<Longrightarrow> filter P xs = []"
  by (simp add: filter_empty_conv)

lemma distinct_map_filter_snoc:
  "distinct (map f xs) \<Longrightarrow> f y \<notin> f ` set xs \<Longrightarrow> distinct (map f (filter P xs @ [y]))"
  by (induction xs) auto

end
