(* ===== verification/RustStr.thy ===== *)
theory RustStr
  imports Prelude
begin

text \<open>
  The part of Rust's \<open>str\<close> and integer parsing that the program uses.  A \<open>&str\<close> is the list
  of its UTF-8 bytes (HOL's \<^typ>\<open>char\<close> is a byte), so lengths are byte lengths and equality
  is byte equality, as in Rust.  \<open>split_whitespace\<close> and \<open>trim\<close> know every Unicode white
  space character by its UTF-8 encoding.  The second half proves the round trips between
  printing and parsing numbers, and between joining and splitting lines and tokens.
\<close>

section \<open>Definitions\<close>

subsection \<open>Splitting\<close>

fun split_on :: "char \<Rightarrow> string \<Rightarrow> string list" where
  "split_on c [] = [[]]"
| "split_on c (x # xs) =
     (if x = c then [] # split_on c xs
      else (case split_on c xs of [] \<Rightarrow> [[x]] | y # ys \<Rightarrow> (x # y) # ys))"

fun split_once :: "char \<Rightarrow> string \<Rightarrow> (string \<times> string) option" where
  "split_once c [] = None"
| "split_once c (x # xs) =
     (if x = c then Some ([], xs)
      else map_option (\<lambda>(a, b). (x # a, b)) (split_once c xs))"

definition NL :: char where "NL = CHR 0x0A"

definition strip_cr :: "string \<Rightarrow> string" where
  "strip_cr l = (if l \<noteq> [] \<and> last l = CHR 0x0D then butlast l else l)"

text \<open>\<open>str::lines\<close>: the terminator is a newline or CR newline; a last line without a
  newline is kept as it is, an empty one after the last newline is not a line.\<close>

definition lines :: "string \<Rightarrow> string list" where
  "lines s = (let ps = split_on NL s in
     map strip_cr (butlast ps) @ (if last ps = [] then [] else [last ps]))"

fun join :: "string \<Rightarrow> string list \<Rightarrow> string" where
  "join sep [] = []"
| "join sep [x] = x"
| "join sep (x # y # ys) = x @ sep @ join sep (y # ys)"

definition strip_prefix :: "string \<Rightarrow> string \<Rightarrow> string option" where
  "strip_prefix p s = (if take (length p) s = p then Some (drop (length p) s) else None)"

definition starts_with :: "string \<Rightarrow> string \<Rightarrow> bool" where
  "starts_with p s \<longleftrightarrow> take (length p) s = p"

definition strip_suffix_char :: "char \<Rightarrow> string \<Rightarrow> string option" where
  "strip_suffix_char c s = (if s \<noteq> [] \<and> last s = c then Some (butlast s) else None)"

definition ends_with_char :: "char \<Rightarrow> string \<Rightarrow> bool" where
  "ends_with_char c s \<longleftrightarrow> s \<noteq> [] \<and> last s = c"

subsection \<open>White space\<close>

definition ascii_ws :: "char \<Rightarrow> bool" where
  "ascii_ws c \<longleftrightarrow> (9 \<le> (of_char c :: nat) \<and> (of_char c :: nat) \<le> 13) \<or> (of_char c :: nat) = 32"

text \<open>How many bytes the white space character at the front takes; 0 when there is none.
  The multi-byte ones are U+0085, U+00A0, U+1680, U+2000 to U+200A, U+2028, U+2029,
  U+202F, U+205F and U+3000.\<close>

fun ws_len :: "string \<Rightarrow> nat" where
  "ws_len [] = 0"
| "ws_len (a # s) =
     (if ascii_ws a then 1
      else (case s of
        [] \<Rightarrow> 0
      | b # t \<Rightarrow>
          if a = CHR 0xC2 \<and> (b = CHR 0x85 \<or> b = CHR 0xA0) then 2
          else (case t of
            [] \<Rightarrow> 0
          | c # _ \<Rightarrow>
              if a = CHR 0xE1 \<and> b = CHR 0x9A \<and> c = CHR 0x80 then 3
              else if a = CHR 0xE2 \<and> b = CHR 0x80 \<and>
                ((128 \<le> (of_char c :: nat) \<and> (of_char c :: nat) \<le> 138) \<or>
                 c = CHR 0xA8 \<or> c = CHR 0xA9 \<or> c = CHR 0xAF) then 3
              else if a = CHR 0xE2 \<and> b = CHR 0x81 \<and> c = CHR 0x9F then 3
              else if a = CHR 0xE3 \<and> b = CHR 0x80 \<and> c = CHR 0x80 then 3
              else 0)))"

text \<open>\<open>str::split_whitespace\<close>: the first argument counts the bytes of a white space
  character still to be skipped, the second is the token read so far, reversed.\<close>

fun split_ws_from :: "nat \<Rightarrow> string \<Rightarrow> string \<Rightarrow> string list" where
  "split_ws_from k cur [] = (if cur = [] then [] else [rev cur])"
| "split_ws_from (Suc k) cur (c # cs) = split_ws_from k cur cs"
| "split_ws_from 0 cur (c # cs) =
     (case ws_len (c # cs) of
        0 \<Rightarrow> split_ws_from 0 (c # cur) cs
      | Suc k \<Rightarrow> (if cur = [] then [] else [rev cur]) @ split_ws_from k [] cs)"

definition split_whitespace :: "string \<Rightarrow> string list" where
  "split_whitespace s = split_ws_from 0 [] s"

text \<open>\<open>str::trim\<close>, by dropping the white space characters at the front, and at the back of
  what is left (the last position from which only white space follows).\<close>

function trim_start :: "string \<Rightarrow> string" where
  "trim_start s = (if ws_len s = 0 then s else trim_start (drop (ws_len s) s))"
  by pat_completeness auto
termination
  by (relation "measure length") (auto, metis diff_less length_greater_0_conv ws_len.simps(1) neq0_conv)

declare trim_start.simps [simp del]

fun trim_end_from :: "nat \<Rightarrow> string \<Rightarrow> string" where
  "trim_end_from k [] = []"
| "trim_end_from (Suc k) (c # cs) = c # trim_end_from k cs"
| "trim_end_from 0 (c # cs) =
     (if trim_start (c # cs) = [] then [] else c # trim_end_from (ws_len (c # cs) - 1) cs)"

definition trim_end :: "string \<Rightarrow> string" where
  "trim_end s = trim_end_from 0 s"

definition trim :: "string \<Rightarrow> string" where
  "trim s = trim_end (trim_start s)"

subsection \<open>Numbers\<close>

definition to_digit :: "nat \<Rightarrow> char \<Rightarrow> nat option" where
  "to_digit r c =
     (let n = (of_char c :: nat);
          d = (if 48 \<le> n \<and> n \<le> 57 then n - 48
               else if 97 \<le> n \<and> n \<le> 122 then n - 87
               else if 65 \<le> n \<and> n \<le> 90 then n - 55
               else 36)
      in if d < r then Some d else None)"

fun digits_val :: "nat \<Rightarrow> nat \<Rightarrow> string \<Rightarrow> nat option" where
  "digits_val r acc [] = Some acc"
| "digits_val r acc (c # cs) =
     (case to_digit r c of None \<Rightarrow> None | Some d \<Rightarrow> digits_val r (acc * r + d) cs)"

text \<open>\<open>from_str_radix\<close> of an unsigned type whose values are below \<open>limit\<close>: an optional
  plus sign, at least one digit, no overflow.\<close>

definition from_str_radix :: "nat \<Rightarrow> nat \<Rightarrow> string \<Rightarrow> nat option" where
  "from_str_radix limit r s =
     (let t = (case s of [] \<Rightarrow> [] | c # cs \<Rightarrow> if c = CHR ''+'' then cs else s)
      in if t = [] then None
         else (case digits_val r 0 t of
             None \<Rightarrow> None
           | Some v \<Rightarrow> if v < limit then Some v else None))"

definition parse_uint :: "string \<Rightarrow> 'a::len word option" where
  "parse_uint s = map_option of_nat (from_str_radix (2 ^ LENGTH('a)) 10 s)"

definition parse_hex :: "string \<Rightarrow> 'a::len word option" where
  "parse_hex s = map_option of_nat (from_str_radix (2 ^ LENGTH('a)) 16 s)"

definition digit_char :: "nat \<Rightarrow> char" where
  "digit_char d = (if d < 10 then char_of (48 + d) else char_of (87 + d))"

fun show_radix :: "nat \<Rightarrow> nat \<Rightarrow> string" where
  "show_radix r n =
     (if r < 2 \<or> n < r then [digit_char n]
      else show_radix r (n div r) @ [digit_char (n mod r)])"

declare show_radix.simps [simp del]

definition show_nat :: "nat \<Rightarrow> string" where
  "show_nat n = show_radix 10 n"

definition show_uint :: "'a::len word \<Rightarrow> string" where
  "show_uint w = show_nat (unat w)"

definition show_hex :: "'a::len word \<Rightarrow> string" where
  "show_hex w = show_radix 16 (unat w)"

section \<open>Lemmas\<close>

subsection \<open>Digits\<close>

lemma of_char_digit_char: "d < 36 \<Longrightarrow> (of_char (digit_char d) :: nat) = (if d < 10 then 48 + d else 87 + d)"
  by (simp add: digit_char_def of_char_of)

lemma digit_char_literals [outcome_simps]:
    "digit_char 0 = CHR ''0''" "digit_char 1 = CHR ''1''" "digit_char 2 = CHR ''2''"
    "digit_char 3 = CHR ''3''" "digit_char 4 = CHR ''4''" "digit_char 5 = CHR ''5''"
    "digit_char 6 = CHR ''6''" "digit_char 7 = CHR ''7''" "digit_char 8 = CHR ''8''"
    "digit_char 9 = CHR ''9''" "digit_char 10 = CHR ''a''" "digit_char 11 = CHR ''b''"
    "digit_char 12 = CHR ''c''" "digit_char 13 = CHR ''d''" "digit_char 14 = CHR ''e''"
    "digit_char 15 = CHR ''f''"
  by (simp_all add: digit_char_def char_of_eq_iff take_bit_eq_mod)

lemma to_digit_digit_char: "d < r \<Longrightarrow> r \<le> 36 \<Longrightarrow> to_digit r (digit_char d) = Some d"
  by (simp add: to_digit_def of_char_digit_char Let_def)

lemma digits_val_snoc:
  "digits_val r acc (xs @ [c]) =
     (case digits_val r acc xs of None \<Rightarrow> None | Some v \<Rightarrow>
       (case to_digit r c of None \<Rightarrow> None | Some d \<Rightarrow> Some (v * r + d)))"
  by (induction xs arbitrary: acc) (auto split: option.splits)

lemma digits_val_show_radix:
  assumes "2 \<le> r" "r \<le> 36"
  shows "digits_val r 0 (show_radix r n) = Some n"
  using assms
proof (induction r n rule: show_radix.induct)
  case (1 r n)
  show ?case
  proof (cases "n < r")
    case True
    with 1 show ?thesis by (subst show_radix.simps) (simp add: to_digit_digit_char)
  next
    case False
    with 1 show ?thesis
      by (subst show_radix.simps)
        (simp add: digits_val_snoc to_digit_digit_char div_mult_mod_eq)
  qed
qed

lemma set_show_radix:
  assumes "2 \<le> r"
  shows "set (show_radix r n) \<subseteq> digit_char ` {..<r}"
  using assms
proof (induction r n rule: show_radix.induct)
  case (1 r n)
  then show ?case by (subst show_radix.simps) auto
qed

lemma show_radix_nonempty [simp]: "show_radix r n \<noteq> []"
  by (subst show_radix.simps) simp

lemma show_radix_not_plus: "2 \<le> r \<Longrightarrow> r \<le> 36 \<Longrightarrow> CHR ''+'' \<notin> set (show_radix r n)"
proof
  assume r: "2 \<le> r" "r \<le> 36" and "CHR ''+'' \<in> set (show_radix r n)"
  then obtain d where d: "d < r" "CHR ''+'' = digit_char d"
    using set_show_radix by blast
  then have "(of_char CHR ''+'' :: nat) = (if d < 10 then 48 + d else 87 + d)"
    using of_char_digit_char [of d] r by simp
  then show False by (simp split: if_splits)
qed

lemma from_str_radix_show:
  assumes "2 \<le> r" "r \<le> 36" "n < limit"
  shows "from_str_radix limit r (show_radix r n) = Some n"
proof -
  obtain c cs where s: "show_radix r n = c # cs"
    by (meson neq_Nil_conv show_radix_nonempty)
  have "c \<noteq> CHR ''+''"
    using show_radix_not_plus [of r n] assms s by auto
  then show ?thesis
    using digits_val_show_radix [of r n] assms s by (simp add: from_str_radix_def)
qed

lemma parse_uint_show [outcome_simps]: "parse_uint (show_uint w) = Some w"
  by (simp add: parse_uint_def show_uint_def show_nat_def from_str_radix_show)

lemma parse_hex_show [outcome_simps]: "parse_hex (show_hex w) = Some w"
  by (simp add: parse_hex_def show_hex_def from_str_radix_show)

lemma show_nat_inject [simp]: "show_nat m = show_nat n \<longleftrightarrow> m = n"
proof
  assume "show_nat m = show_nat n"
  then have "digits_val 10 0 (show_radix 10 m) = digits_val 10 0 (show_radix 10 n)"
    by (simp add: show_nat_def)
  then show "m = n" by (simp add: digits_val_show_radix)
qed simp

lemma show_uint_inject [simp]:
  fixes v w :: "'a::len word"
  shows "show_uint v = show_uint w \<longleftrightarrow> v = w"
  by (simp add: show_uint_def word_unat_eq_iff)

lemma show_nat_nonempty [simp]: "show_nat n \<noteq> []" "show_uint w \<noteq> []" "show_hex w \<noteq> []"
  by (simp_all add: show_nat_def show_uint_def show_hex_def)

text \<open>Which characters a printed number has.\<close>

definition is_dec :: "char \<Rightarrow> bool" where
  "is_dec c \<longleftrightarrow> 48 \<le> (of_char c :: nat) \<and> (of_char c :: nat) \<le> 57"

definition is_hex :: "char \<Rightarrow> bool" where
  "is_hex c \<longleftrightarrow> is_dec c \<or> (97 \<le> (of_char c :: nat) \<and> (of_char c :: nat) \<le> 102)"

lemma show_nat_dec: "c \<in> set (show_nat n) \<Longrightarrow> is_dec c"
proof -
  assume "c \<in> set (show_nat n)"
  then obtain d where d: "d < 10" "c = digit_char d"
    using set_show_radix [of 10 n] by (auto simp: show_nat_def)
  then show ?thesis using of_char_digit_char [of d] by (simp add: is_dec_def)
qed

lemma show_uint_dec: "c \<in> set (show_uint w) \<Longrightarrow> is_dec c"
  by (simp add: show_uint_def show_nat_dec)

lemma show_hex_hex: "c \<in> set (show_hex w) \<Longrightarrow> is_hex c"
proof -
  assume "c \<in> set (show_hex w)"
  then obtain d where d: "d < 16" "c = digit_char d"
    using set_show_radix [of 16 "unat w"] by (auto simp: show_hex_def)
  then show ?thesis using of_char_digit_char [of d] by (auto simp: is_hex_def is_dec_def split: if_splits)
qed

subsection \<open>Splitting and joining\<close>

lemma split_on_nonempty [simp]: "split_on c s \<noteq> []"
  by (induction s) (auto split: list.splits)

lemma split_on_no_sep: "c \<notin> set s \<Longrightarrow> split_on c s = [s]"
  by (induction s) auto

lemma split_on_append_sep: "c \<notin> set a \<Longrightarrow> split_on c (a @ c # s) = a # split_on c s"
  by (induction a) auto

lemma split_on_pieces: "p \<in> set (split_on c s) \<Longrightarrow> c \<notin> set p"
  by (induction s arbitrary: p) (fastforce split: list.splits if_splits)+

lemma split_on_join:
  "xs \<noteq> [] \<Longrightarrow> (\<And>x. x \<in> set xs \<Longrightarrow> c \<notin> set x) \<Longrightarrow> split_on c (join [c] xs) = xs"
  by (induction "[c]" xs rule: join.induct) (auto simp: split_on_no_sep split_on_append_sep)

lemma join_split_on: "join [c] (split_on c s) = s"
proof (induction s)
  case (Cons x s)
  show ?case
  proof (cases "split_on c s")
    case (Cons y ys)
    with Cons.IH show ?thesis by (cases ys) auto
  qed simp
qed simp

lemma split_on_append: "split_on c (a @ c # b) = split_on c a @ split_on c b"
proof (induction a)
  case (Cons x a)
  then show ?case by (cases "split_on c a") auto
qed simp

lemma join_snoc: "xs \<noteq> [] \<Longrightarrow> join [c] (xs @ [y]) = join [c] xs @ c # y"
  by (induction "[c]" xs rule: join.induct) auto

lemma last_split_on: "c \<notin> set b \<Longrightarrow> last (split_on c (a @ c # b)) = b"
  by (simp add: split_on_append split_on_no_sep)

lemma split_once_Some [outcome_simps]: "c \<notin> set a \<Longrightarrow> split_once c (a @ c # b) = Some (a, b)"
  by (induction a) auto

lemma split_once_None: "split_once c s = None \<longleftrightarrow> c \<notin> set s"
  by (induction s) auto

lemma split_once_eq:
  "split_once c s = Some (a, b) \<Longrightarrow> s = a @ c # b \<and> c \<notin> set a"
  by (induction s arbitrary: a) (auto split: if_splits)

lemma append_sep_inject:
  fixes c :: char
  assumes "a @ c # b = a' @ c # b'" "c \<notin> set a" "c \<notin> set a'"
  shows "a = a' \<and> b = b'"
proof -
  have "split_once c (a @ c # b) = split_once c (a' @ c # b')"
    by (simp only: assms(1))
  then show ?thesis by (simp add: split_once_Some assms(2,3))
qed

lemma append_last_sep_inject:
  fixes c :: char
  assumes eq: "a @ c # b = a' @ c # b'" and nb: "c \<notin> set b" "c \<notin> set b'"
  shows "a = a' \<and> b = b'"
proof -
  from eq have "rev (a @ c # b) = rev (a' @ c # b')" by simp
  then have "rev b @ c # rev a = rev b' @ c # rev a'" by simp
  then have "rev b = rev b' \<and> rev a = rev a'"
    using nb by (intro append_sep_inject) auto
  then show ?thesis by simp
qed

lemma lines_Nil [simp]: "lines [] = []"
  by (simp add: lines_def)

lemma lines_line:
  assumes "NL \<notin> set l" "l = [] \<or> last l \<noteq> CHR 0x0D"
  shows "lines (l @ NL # s) = l # lines s"
  using assms by (auto simp: lines_def Let_def split_on_append_sep strip_cr_def)

lemma lines_concat:
  assumes "\<And>l. l \<in> set ls \<Longrightarrow> NL \<notin> set l \<and> (l = [] \<or> last l \<noteq> CHR 0x0D)"
  shows "lines (concat (map (\<lambda>l. l @ [NL]) ls)) = ls"
  using assms by (induction ls) (auto simp: lines_line)

subsection \<open>Tokens\<close>

text \<open>A printable ASCII character that is not white space; the tokens of the kernel's
  tables are made of these.\<close>

definition printable :: "char \<Rightarrow> bool" where
  "printable c \<longleftrightarrow> 33 \<le> (of_char c :: nat) \<and> (of_char c :: nat) < 127"

definition token :: "string \<Rightarrow> bool" where
  "token t \<longleftrightarrow> t \<noteq> [] \<and> (\<forall>c \<in> set t. printable c)"

lemma printable_not [simp]:
  "printable c \<Longrightarrow> \<not> ascii_ws c" "\<not> printable CHR 0xC2" "\<not> printable CHR 0xE1"
  "\<not> printable CHR 0xE2" "\<not> printable CHR 0xE3"
  by (auto simp: printable_def ascii_ws_def)

lemma ws_len_printable: "printable c \<Longrightarrow> ws_len (c # s) = 0"
proof -
  assume c: "printable c"
  then have "c \<noteq> CHR 0xC2" "c \<noteq> CHR 0xE1" "c \<noteq> CHR 0xE2" "c \<noteq> CHR 0xE3"
    by (metis printable_not)+
  with c show ?thesis by (simp split: list.split)
qed

lemma ws_len_space [simp]: "ws_len (CHR '' '' # s) = 1"
  by (simp add: ascii_ws_def)

declare ws_len.simps(2) [simp del]

lemma split_ws_token:
  "(\<And>c. c \<in> set t \<Longrightarrow> printable c) \<Longrightarrow> split_ws_from 0 cur (t @ s) = split_ws_from 0 (rev t @ cur) s"
  by (induction t arbitrary: cur) (auto simp: ws_len_printable)

lemma split_whitespace_Nil [simp]: "split_whitespace [] = []"
  by (simp add: split_whitespace_def)

lemma split_whitespace_space [simp]: "split_whitespace (CHR '' '' # s) = split_whitespace s"
  by (simp add: split_whitespace_def)

lemma split_whitespace_token:
  assumes "token t"
  shows "split_whitespace (t @ CHR '' '' # s) = t # split_whitespace s"
  using assms by (auto simp: split_whitespace_def token_def split_ws_token)

lemma split_whitespace_last:
  assumes "token t"
  shows "split_whitespace t = [t]"
  using assms split_ws_token [of t "[]" "[]"] by (auto simp: split_whitespace_def token_def)

lemma split_whitespace_join:
  "(\<And>t. t \<in> set ts \<Longrightarrow> token t) \<Longrightarrow> split_whitespace (join '' '' ts) = ts"
  by (induction "'' ''" ts rule: join.induct)
    (auto simp: split_whitespace_last split_whitespace_token)

lemma is_dec_printable: "is_dec c \<Longrightarrow> printable c"
  by (simp add: is_dec_def printable_def)

lemma is_hex_printable: "is_hex c \<Longrightarrow> printable c"
  by (auto simp: is_hex_def is_dec_def printable_def)

lemma token_show_uint [simp]: "token (show_uint w)" "token (show_nat n)"
  by (auto simp: token_def dest: show_uint_dec show_nat_dec intro: is_dec_printable)

lemma token_append: "token a \<Longrightarrow> (\<And>c. c \<in> set b \<Longrightarrow> printable c) \<Longrightarrow> token (a @ b)"
  by (auto simp: token_def)

lemma not_dec [simp]: "\<not> is_dec CHR ''.''" "\<not> is_dec CHR '':''" "\<not> is_dec CHR ''-''"
    "\<not> is_dec CHR ''=''" "\<not> is_hex CHR ''.''" "\<not> is_hex CHR '':''" "\<not> is_hex CHR ''-''"
    "\<not> is_hex CHR ''=''"
  by (simp_all add: is_dec_def is_hex_def)

lemma sep_notin_show [simp]:
  "\<not> is_dec c \<Longrightarrow> c \<notin> set (show_uint w)" "\<not> is_dec c \<Longrightarrow> c \<notin> set (show_nat n)"
  "\<not> is_hex c \<Longrightarrow> c \<notin> set (show_hex v)"
  by (auto dest: show_uint_dec show_nat_dec show_hex_hex)

end
