(* ===== verification/RustPath.thy ===== *)
theory RustPath
  imports RustStr
begin

text \<open>
  Rust's \<open>Path\<close> and \<open>PathBuf\<close> on Unix, as far as the program uses them.  A path is the
  string of its bytes (valid UTF-8, so that \<open>display\<close> is the identity), but equality and
  hashing of paths go through \<open>components\<close>: repeated separators, inner \<open>.\<close> components and a
  trailing separator make no difference.  Rule matching, flow matching and the log
  throttle all compare executables this way.
\<close>

type_synonym path = string

datatype Component = RootDir | CurDir | ParentDir | Normal string

definition SLASH :: char where "SLASH = CHR ''/''"

definition segments :: "path \<Rightarrow> string list" where
  "segments p = split_on SLASH p"

definition component_of :: "string \<Rightarrow> Component" where
  "component_of s = (if s = ''..'' then ParentDir else Normal s)"

definition is_absolute :: "path \<Rightarrow> bool" where
  "is_absolute p \<longleftrightarrow> p \<noteq> [] \<and> hd p = SLASH"

definition components :: "path \<Rightarrow> Component list" where
  "components p =
     (if is_absolute p then [RootDir]
      else if hd (segments p) = ''.'' then [CurDir] else [])
     @ map component_of (filter (\<lambda>s. s \<noteq> [] \<and> s \<noteq> ''.'') (segments p))"

definition path_eq :: "path \<Rightarrow> path \<Rightarrow> bool" where
  "path_eq p q \<longleftrightarrow> components p = components q"

definition display :: "path \<Rightarrow> string" where
  "display p = p"

definition file_name :: "path \<Rightarrow> string option" where
  "file_name p = (case rev (components p) of Normal s # _ \<Rightarrow> Some s | _ \<Rightarrow> None)"

text \<open>\<open>Path::join\<close> (that is \<open>PathBuf::push\<close>).\<close>

definition path_join :: "path \<Rightarrow> path \<Rightarrow> path" where
  "path_join base p =
     (if is_absolute p then p
      else if base = [] \<or> last base = SLASH then base @ p
      else base @ SLASH # p)"

text \<open>\<open>file_stem\<close>: the file name up to its last dot, unless that dot is the first character.\<close>

definition file_stem_of :: "string \<Rightarrow> string" where
  "file_stem_of name =
     (let parts = split_on CHR ''.'' name; before = join ''.'' (butlast parts) in
      if name = ''..'' \<or> length parts \<le> 1 \<or> before = [] then name else before)"

text \<open>\<open>Path::with_extension\<close>: everything after the file stem is replaced.\<close>

definition with_extension :: "string \<Rightarrow> path \<Rightarrow> path" where
  "with_extension ext p =
     (case file_name p of
        None \<Rightarrow> p
      | Some name \<Rightarrow>
          join [SLASH] (butlast (rev (dropWhile (\<lambda>s. s = [] \<or> s = ''.'') (rev (segments p))))
            @ [file_stem_of name @ ''.'' @ ext]))"

text \<open>Whether \<open>Path::parent\<close> is \<open>Some\<close>.\<close>

definition has_parent :: "path \<Rightarrow> bool" where
  "has_parent p \<longleftrightarrow> components p \<noteq> [] \<and> components p \<noteq> [RootDir]"

section \<open>Lemmas\<close>

lemma path_eq_refl [simp]: "path_eq p p"
  by (simp add: path_eq_def)

lemma path_eq_sym: "path_eq p q \<longleftrightarrow> path_eq q p"
  by (auto simp: path_eq_def)

lemma path_eq_trans: "path_eq p q \<Longrightarrow> path_eq q r \<Longrightarrow> path_eq p r"
  by (simp add: path_eq_def)

lemma path_eq_cong: "path_eq p q \<Longrightarrow> path_eq p r \<longleftrightarrow> path_eq q r"
  by (simp add: path_eq_def)

lemma path_eq_examples:
  "path_eq ''/usr/bin/curl'' ''/usr//bin/./curl/''"
  "\<not> path_eq ''/usr/bin/curl'' ''/usr/bin/curl2''"
  by (simp_all add: path_eq_def components_def segments_def is_absolute_def SLASH_def component_of_def)

lemma with_extension_example:
  "with_extension ''json.tmp'' ''/etc/travelmode/rules.json'' = ''/etc/travelmode/rules.json.tmp''"
  by (simp add: with_extension_def file_name_def file_stem_of_def components_def segments_def
      is_absolute_def SLASH_def component_of_def Let_def)

section \<open>Replacing the extension\<close>

text \<open>The new name always differs from the old one, so a file written beside the original
  before a rename never is the original.\<close>

lemma file_stem_extension_neq: "file_stem_of name @ CHR ''.'' # ''json.tmp'' \<noteq> name"
proof
  assume eq: "file_stem_of name @ CHR ''.'' # ''json.tmp'' = name"
  define parts where "parts = split_on CHR ''.'' name"
  show False
  proof (cases "file_stem_of name = name")
    case True
    with eq show False by (metis append_self_conv list.distinct(1))
  next
    case False
    then have stem: "file_stem_of name = join ''.'' (butlast parts)" and "length parts > 1"
      by (auto simp: file_stem_of_def parts_def Let_def split: if_splits)
    then have "last parts = last (split_on CHR ''.'' (join ''.'' (butlast parts) @ CHR ''.'' # ''json.tmp''))"
      using eq by (simp add: parts_def)
    then have "last parts = ''tmp''"
      by (simp add: split_on_append)
    moreover have "join ''.'' parts = join ''.'' (butlast parts) @ CHR ''.'' # last parts"
    proof -
      have "parts = butlast parts @ [last parts]" "butlast parts \<noteq> []"
        using \<open>length parts > 1\<close> by (cases parts; auto)+
      then show ?thesis by (metis join_snoc)
    qed
    ultimately have "join ''.'' (butlast parts) @ ''.json.tmp'' = join ''.'' (butlast parts) @ ''.tmp''"
      using eq stem by (simp add: parts_def join_split_on)
    then show False by simp
  qed
qed

lemma segments_file_name:
  assumes "file_name p = Some name"
  obtains front trailing where "segments p = front @ [name] @ trailing"
    "rev (dropWhile (\<lambda>s. s = [] \<or> s = ''.'') (rev (segments p))) = front @ [name]"
proof -
  let ?P = "\<lambda>s :: string. s = [] \<or> s = ''.''"
  let ?ss = "segments p"
  let ?body = "filter (\<lambda>s. s \<noteq> [] \<and> s \<noteq> ''.'') ?ss"
  have nn: "?body \<noteq> []"
    using assms by (auto simp: file_name_def components_def split: if_splits)
  then obtain ys y where y: "?body = ys @ [y]" by (cases ?body rule: rev_cases) auto
  have "file_name p = (case component_of y of Normal s \<Rightarrow> Some s | _ \<Rightarrow> None)"
    by (simp add: file_name_def components_def y)
  then have "name = y"
    using assms by (simp add: component_of_def split: if_splits)
  then have "name = last ?body" by (simp add: y)
  let ?d = "dropWhile ?P (rev ?ss)"
  have "?d \<noteq> []"
    using nn by (auto simp: dropWhile_eq_Nil_conv filter_empty_conv)
  then obtain x d where d: "?d = x # d" by (cases ?d) auto
  then have "\<not> ?P x" using hd_dropWhile [of ?P "rev ?ss"] by simp
  obtain t where ss: "?ss = rev d @ [x] @ t" and t: "\<forall>s \<in> set t. ?P s"
  proof
    have "rev ?ss = takeWhile ?P (rev ?ss) @ x # d"
      using takeWhile_dropWhile_id [of ?P "rev ?ss"] by (simp only: d)
    then have "rev (rev ?ss) = rev (takeWhile ?P (rev ?ss) @ x # d)" by (rule arg_cong)
    then show "?ss = rev d @ [x] @ rev (takeWhile ?P (rev ?ss))" by simp
  qed (auto dest: set_takeWhileD)
  have "filter (\<lambda>s. s \<noteq> [] \<and> s \<noteq> ''.'') t = []"
    using t by (auto simp: filter_empty_conv)
  with \<open>\<not> ?P x\<close> have "last ?body = x" by (simp add: ss)
  with ss d \<open>name = last ?body\<close> show thesis
    by (intro that [of "rev d" t]) simp_all
qed

lemma slash_notin_segment: "s \<in> set (segments p) \<Longrightarrow> SLASH \<notin> set s"
  by (simp add: segments_def split_on_pieces)

lemma set_file_stem: "set (file_stem_of name) \<subseteq> set name"
proof (cases "file_stem_of name = name")
  case False
  define parts where "parts = split_on CHR ''.'' name"
  from False have stem: "file_stem_of name = join ''.'' (butlast parts)" and l: "length parts > 1"
    by (auto simp: file_stem_of_def parts_def Let_def split: if_splits)
  have "parts = butlast parts @ [last parts]" "butlast parts \<noteq> []"
    using l by (cases parts; auto)+
  then have "join ''.'' parts = join ''.'' (butlast parts) @ CHR ''.'' # last parts"
    by (metis join_snoc)
  then have "name = file_stem_of name @ CHR ''.'' # last parts"
    by (simp add: stem parts_def join_split_on)
  then show ?thesis by (metis Un_upper1 set_append)
qed simp

lemma with_extension_neq:
  assumes "file_name p = Some name"
  shows "with_extension ''json.tmp'' p \<noteq> p"
proof
  assume eq: "with_extension ''json.tmp'' p = p"
  from assms obtain front trailing where seg: "segments p = front @ [name] @ trailing"
    and "rev (dropWhile (\<lambda>s. s = [] \<or> s = ''.'') (rev (segments p))) = front @ [name]"
    by (rule segments_file_name)
  then have p: "with_extension ''json.tmp'' p =
      join [SLASH] (front @ [file_stem_of name @ CHR ''.'' # ''json.tmp''])"
    by (simp add: with_extension_def assms)
  have "split_on SLASH (join [SLASH] (front @ [file_stem_of name @ CHR ''.'' # ''json.tmp''])) =
      front @ [file_stem_of name @ CHR ''.'' # ''json.tmp'']"
  proof (rule split_on_join)
    fix x
    assume "x \<in> set (front @ [file_stem_of name @ CHR ''.'' # ''json.tmp''])"
    moreover have "SLASH \<notin> set (file_stem_of name)"
      using set_file_stem [of name] slash_notin_segment [of name p] seg by auto
    moreover have "SLASH \<notin> set (CHR ''.'' # ''json.tmp'')" by (simp add: SLASH_def)
    ultimately show "SLASH \<notin> set x"
      using slash_notin_segment [of x p] seg by auto
  qed simp
  then have "segments p = front @ [file_stem_of name @ CHR ''.'' # ''json.tmp'']"
    using eq p by (simp add: segments_def)
  with seg file_stem_extension_neq [of name] show False by simp
qed

end
