(* ===== verification/RustMap.thy ===== *)
theory RustMap
  imports Prelude "HOL-Library.AList"
begin

text \<open>
  The two dictionaries of the program.  A \<open>HashMap\<close> is an association list with distinct
  keys: its order is the iteration order, which Rust leaves unspecified, so a function that
  builds a map and then iterates over it takes the iteration order as an argument.  A
  \<open>BTreeMap\<close> keeps its keys sorted.  Both provide the interface \<open>rust_map\<close>, and what the
  components prove about their maps is proved once there.
\<close>

section \<open>The interface\<close>

locale rust_map =
  fixes empty :: "'m"
    and insert :: "'k \<Rightarrow> 'v \<Rightarrow> 'm \<Rightarrow> 'm"
    and remove :: "'k \<Rightarrow> 'm \<Rightarrow> 'm"
    and get :: "'m \<Rightarrow> 'k \<Rightarrow> 'v option"
    and entries :: "'m \<Rightarrow> ('k \<times> 'v) list"
    and invar :: "'m \<Rightarrow> bool"
  assumes invar_empty: "invar empty"
    and invar_insert: "invar m \<Longrightarrow> invar (insert k v m)"
    and invar_remove: "invar m \<Longrightarrow> invar (remove k m)"
    and get_empty: "get empty = (\<lambda>_. None)"
    and get_insert: "invar m \<Longrightarrow> get (insert k v m) = (get m)(k \<mapsto> v)"
    and get_remove: "invar m \<Longrightarrow> get (remove k m) = (get m)(k := None)"
    and get_entries: "invar m \<Longrightarrow> map_of (entries m) = get m"
    and distinct_entries: "invar m \<Longrightarrow> distinct (map fst (entries m))"

lemma map_of_eq_imp_mset_eq:
  assumes "distinct (map fst xs)" "distinct (map fst ys)" "map_of xs = map_of ys"
  shows "mset xs = mset ys"
proof -
  have "set xs = set ys"
    using assms by (metis map_of_inject_set)
  then show ?thesis
    using assms(1,2) by (simp add: distinct_map set_eq_iff_mset_eq_distinct)
qed

context rust_map
begin

lemma in_entries_iff: "invar m \<Longrightarrow> (k, v) \<in> set (entries m) \<longleftrightarrow> get m k = Some v"
  by (metis distinct_entries get_entries map_of_eq_Some_iff)

lemma dom_entries: "invar m \<Longrightarrow> fst ` set (entries m) = dom (get m)"
  by (metis dom_map_of_conv_image_fst get_entries)

lemma length_entries: "invar m \<Longrightarrow> length (entries m) = card (dom (get m))"
  by (metis distinct_card distinct_entries dom_entries length_map set_map)

text \<open>Inserting a new key adds one entry; overwriting replaces one.  Any commutative sum
  over the entries therefore changes by exactly that entry.\<close>

lemma mset_insert_new:
  assumes "invar m" "get m k = None"
  shows "mset (entries (insert k v m)) = add_mset (k, v) (mset (entries m))"
proof -
  have "mset (entries (insert k v m)) = mset ((k, v) # entries m)"
  proof (rule map_of_eq_imp_mset_eq)
    show "distinct (map fst ((k, v) # entries m))"
      using assms by (auto simp: distinct_entries in_entries_iff)
    show "map_of (entries (insert k v m)) = map_of ((k, v) # entries m)"
      using assms by (simp add: get_entries get_insert invar_insert)
  qed (use assms in \<open>simp add: distinct_entries invar_insert\<close>)
  then show ?thesis by simp
qed

lemma mset_remove:
  assumes "invar m" "get m k = Some v"
  shows "mset (entries m) = add_mset (k, v) (mset (entries (remove k m)))"
proof -
  have "mset (entries m) = mset ((k, v) # entries (remove k m))"
  proof (rule map_of_eq_imp_mset_eq)
    show "distinct (map fst ((k, v) # entries (remove k m)))"
      using assms by (auto simp: distinct_entries in_entries_iff invar_remove get_remove)
    show "map_of (entries m) = map_of ((k, v) # entries (remove k m))"
      using assms by (auto simp: get_entries get_remove invar_remove)
  qed (use assms in \<open>simp add: distinct_entries\<close>)
  then show ?thesis by simp
qed

lemma mset_overwrite:
  assumes "invar m" "get m k = Some v"
  shows "add_mset (k, v) (mset (entries (insert k w m))) = add_mset (k, w) (mset (entries m))"
proof -
  have "mset (entries (insert k w m)) = add_mset (k, w) (mset (entries (remove k (insert k w m))))"
    using assms by (intro mset_remove) (simp_all add: invar_insert get_insert)
  moreover have "mset (entries (remove k (insert k w m))) = mset (entries (remove k m))"
    using assms
    by (intro map_of_eq_imp_mset_eq)
      (simp_all add: distinct_entries get_entries invar_insert invar_remove get_insert get_remove)
  ultimately show ?thesis
    using mset_remove [OF assms] by simp
qed

lemma length_insert:
  assumes "invar m"
  shows "length (entries (insert k v m)) =
    (if get m k = None then Suc (length (entries m)) else length (entries m))"
proof (cases "get m k")
  case None
  with mset_insert_new [OF assms None, of v] show ?thesis
    by (metis size_add_mset size_mset)
next
  case (Some w)
  with mset_overwrite [OF assms Some, of v] show ?thesis
    by (metis size_add_mset size_mset nat.inject option.distinct(1))
qed

text \<open>Removing a list of keys one by one, as the loops over closed flows do.\<close>

lemma fold_remove:
  assumes "invar m"
  shows "invar (fold remove ks m) \<and>
    get (fold remove ks m) = (\<lambda>k. if k \<in> set ks then None else get m k)"
  using assms
proof (induction ks arbitrary: m)
  case (Cons k ks)
  then show ?case by (simp add: invar_remove get_remove fun_eq_iff)
qed simp

text \<open>Inserting a list of entries with distinct keys into a map that has none of them.\<close>

lemma fold_insert:
  assumes "invar m"
  shows "invar (fold (\<lambda>(k, v). insert k v) kvs m) \<and>
    get (fold (\<lambda>(k, v). insert k v) kvs m) = get m ++ map_of (rev kvs)"
  using assms
proof (induction kvs arbitrary: m)
  case (Cons kv kvs)
  then show ?case
    by (cases kv) (simp add: invar_insert get_insert map_add_assoc [symmetric] map_add_def
        fun_eq_iff split: option.splits)
qed simp

end

text \<open>A map whose entries come out in key order.\<close>

locale ordered_map =
  rust_map empty insert remove get entries invar
  for empty :: "'m"
    and insert :: "'k::linorder \<Rightarrow> 'v \<Rightarrow> 'm \<Rightarrow> 'm"
    and remove :: "'k \<Rightarrow> 'm \<Rightarrow> 'm"
    and get :: "'m \<Rightarrow> 'k \<Rightarrow> 'v option"
    and entries :: "'m \<Rightarrow> ('k \<times> 'v) list"
    and invar :: "'m \<Rightarrow> bool" +
  assumes sorted_entries: "invar m \<Longrightarrow> sorted (map fst (entries m))"
begin

text \<open>The entries of an ordered map are determined by its content: two maps with the same
  content are rendered in the same order.\<close>

lemma entries_unique:
  assumes "invar m" "invar m'" "get m = get m'"
  shows "entries m = entries m'"
proof (rule map_sorted_distinct_set_unique [of fst])
  show "inj_on fst (set (entries m) \<union> set (entries m'))"
    using assms by (auto simp: inj_on_def in_entries_iff)
  show "set (entries m) = set (entries m')"
    using assms by (auto simp: in_entries_iff)
qed (use assms in \<open>simp_all add: sorted_entries distinct_entries\<close>)

end

section \<open>HashMap\<close>

type_synonym ('k, 'v) hashmap = "('k \<times> 'v) list"

abbreviation hm_wf :: "('k, 'v) hashmap \<Rightarrow> bool" where
  "hm_wf m \<equiv> distinct (map fst m)"

definition contains_key :: "'k \<Rightarrow> ('k, 'v) hashmap \<Rightarrow> bool" where
  "contains_key k m \<longleftrightarrow> map_of m k \<noteq> None"

lemma contains_key_iff: "contains_key k m \<longleftrightarrow> k \<in> fst ` set m"
  by (simp add: contains_key_def dom_map_of_conv_image_fst [symmetric] domIff)

lemma map_of_delete: "map_of (AList.delete k m) = (map_of m)(k := None)"
  by (rule AList.delete_conv')

interpretation hm: rust_map "[]" AList.update AList.delete map_of "\<lambda>m. m" hm_wf
  by unfold_locales
    (auto simp: AList.distinct_update AList.distinct_delete AList.update_conv' AList.delete_conv')

section \<open>BTreeMap\<close>

type_synonym ('k, 'v) btreemap = "('k \<times> 'v) list"

fun bt_insert :: "'k::linorder \<Rightarrow> 'v \<Rightarrow> ('k, 'v) btreemap \<Rightarrow> ('k, 'v) btreemap" where
  "bt_insert k v [] = [(k, v)]"
| "bt_insert k v ((a, b) # m) =
     (if k < a then (k, v) # (a, b) # m
      else if k = a then (k, v) # m
      else (a, b) # bt_insert k v m)"

definition bt_wf :: "('k::linorder, 'v) btreemap \<Rightarrow> bool" where
  "bt_wf m \<longleftrightarrow> sorted (map fst m) \<and> distinct (map fst m)"

lemma set_bt_insert: "fst ` set (bt_insert k v m) = insert k (fst ` set m)"
  by (induction k v m rule: bt_insert.induct) auto

lemma bt_wf_insert: "bt_wf m \<Longrightarrow> bt_wf (bt_insert k v m)"
proof (induction k v m rule: bt_insert.induct)
  case (2 k v a b m)
  have "\<forall>x \<in> fst ` set (bt_insert k v m). a \<le> x" "a \<notin> fst ` set (bt_insert k v m)"
    if "\<not> k < a" "k \<noteq> a"
    using 2 that by (auto simp: set_bt_insert bt_wf_def)
  with 2 show ?case
    by (auto simp: bt_wf_def image_iff)
qed (simp add: bt_wf_def)

lemma map_of_bt_insert: "bt_wf m \<Longrightarrow> map_of (bt_insert k v m) = (map_of m)(k \<mapsto> v)"
  by (induction k v m rule: bt_insert.induct) (auto simp: bt_wf_def fun_eq_iff)

lemma bt_wf_delete: "bt_wf m \<Longrightarrow> bt_wf (AList.delete k m)"
  by (auto simp: bt_wf_def AList.delete_eq intro: sorted_filter distinct_map_filter
      simp flip: filter_map)

interpretation bt: ordered_map "[]" bt_insert AList.delete map_of "\<lambda>m. m" bt_wf
  by unfold_locales
    (auto simp: bt_wf_insert bt_wf_delete map_of_bt_insert AList.delete_conv', auto simp: bt_wf_def)

end
