(* ===== verification/NetAddr.thy ===== *)
theory NetAddr
  imports RustStr
begin

text \<open>
  \<open>std::net::IpAddr\<close>: the two address families, their \<open>Display\<close> and their \<open>FromStr\<close>.  The
  parser follows the one of the standard library: every reader either consumes a prefix or
  leaves the input alone.  The program prints addresses into flow keys and command lines
  and parses them from conntrack and \<open>resolv.conf\<close>; the lemmas show that parsing what was
  printed gives the address back, so printing is injective.
\<close>

section \<open>Addresses\<close>

datatype Ipv4Addr = Ipv4Addr u8 u8 u8 u8

datatype Ipv6Addr = Ipv6Addr u16 u16 u16 u16 u16 u16 u16 u16

datatype IpAddr = V4 Ipv4Addr | V6 Ipv6Addr

text \<open>\<open>u16::from_be_bytes\<close> and the two bytes of a \<open>u16\<close>.\<close>

definition u16_be :: "u8 \<Rightarrow> u8 \<Rightarrow> u16" where
  "u16_be a b = of_nat (unat a * 256 + unat b)"

definition hi8 :: "u16 \<Rightarrow> u8" where "hi8 w = of_nat (unat w div 256)"
definition lo8 :: "u16 \<Rightarrow> u8" where "lo8 w = of_nat (unat w mod 256)"

fun ipv6_segments :: "Ipv6Addr \<Rightarrow> u16 list" where
  "ipv6_segments (Ipv6Addr a b c d e f g h) = [a, b, c, d, e, f, g, h]"

fun ipv6_of_segments :: "u16 list \<Rightarrow> Ipv6Addr" where
  "ipv6_of_segments [a, b, c, d, e, f, g, h] = Ipv6Addr a b c d e f g h"
| "ipv6_of_segments _ = Ipv6Addr 0 0 0 0 0 0 0 0"

section \<open>Display\<close>

fun show_ipv4 :: "Ipv4Addr \<Rightarrow> string" where
  "show_ipv4 (Ipv4Addr a b c d) =
     show_uint a @ ''.'' @ show_uint b @ ''.'' @ show_uint c @ ''.'' @ show_uint d"

text \<open>The longest run of zero segments, the first one of several: start and length.  The
  arguments are the index of the next segment, the current run and the longest so far.\<close>

fun zero_span :: "nat \<Rightarrow> nat \<times> nat \<Rightarrow> nat \<times> nat \<Rightarrow> u16 list \<Rightarrow> nat \<times> nat" where
  "zero_span i cur longest [] = longest"
| "zero_span i (cs, cl) longest (s # ss) =
     (if s = 0 then
        (let start = (if cl = 0 then i else cs);
             cur = (start, Suc cl);
             longest' = (if Suc cl > snd longest then cur else longest)
         in zero_span (Suc i) cur longest' ss)
      else zero_span (Suc i) (0, 0) longest ss)"

definition fmt_tail :: "u16 list \<Rightarrow> string" where
  "fmt_tail gs = concat (map (\<lambda>g. CHR '':'' # show_hex g) gs)"

fun fmt_subslice :: "u16 list \<Rightarrow> string" where
  "fmt_subslice [] = []"
| "fmt_subslice (g # gs) = show_hex g @ fmt_tail gs"

fun ipv4_mapped :: "Ipv6Addr \<Rightarrow> Ipv4Addr option" where
  "ipv4_mapped (Ipv6Addr a b c d e f g h) =
     (if a = 0 \<and> b = 0 \<and> c = 0 \<and> d = 0 \<and> e = 0 \<and> f = 0xffff
      then Some (Ipv4Addr (hi8 g) (lo8 g) (hi8 h) (lo8 h)) else None)"

definition show_ipv6 :: "Ipv6Addr \<Rightarrow> string" where
  "show_ipv6 a =
     (case ipv4_mapped a of
        Some v4 \<Rightarrow> ''::ffff:'' @ show_ipv4 v4
      | None \<Rightarrow>
          (let ss = ipv6_segments a; (start, len) = zero_span 0 (0, 0) (0, 0) ss in
           if len > 1
           then fmt_subslice (take start ss) @ ''::'' @ fmt_subslice (drop (start + len) ss)
           else fmt_subslice ss))"

fun show_ip :: "IpAddr \<Rightarrow> string" where
  "show_ip (V4 a) = show_ipv4 a"
| "show_ip (V6 a) = show_ipv6 a"

section \<open>FromStr\<close>

fun read_digits :: "nat \<Rightarrow> nat \<Rightarrow> nat \<Rightarrow> nat \<Rightarrow> nat \<Rightarrow> string \<Rightarrow> (nat \<times> nat \<times> string) option" where
  "read_digits r maxd limit acc n [] = Some (acc, n, [])"
| "read_digits r maxd limit acc n (c # cs) =
     (case to_digit r c of
        None \<Rightarrow> Some (acc, n, c # cs)
      | Some d \<Rightarrow>
          if acc * r + d \<ge> limit then None
          else if Suc n > maxd then None
          else read_digits r maxd limit (acc * r + d) (Suc n) cs)"

definition read_number :: "nat \<Rightarrow> nat \<Rightarrow> bool \<Rightarrow> string \<Rightarrow> ('a::len word \<times> string) option" where
  "read_number r maxd allow_zero_prefix s =
     (case read_digits r maxd (2 ^ LENGTH('a)) 0 0 s of
        None \<Rightarrow> None
      | Some (v, n, rest) \<Rightarrow>
          if n = 0 then None
          else if \<not> allow_zero_prefix \<and> s \<noteq> [] \<and> hd s = CHR ''0'' \<and> n > 1 then None
          else Some (of_nat v, rest))"

definition read_separator :: "char \<Rightarrow> nat \<Rightarrow> (string \<Rightarrow> ('a \<times> string) option) \<Rightarrow> string \<Rightarrow> ('a \<times> string) option" where
  "read_separator c i inner s =
     (if i > 0 then (case s of [] \<Rightarrow> None | x # xs \<Rightarrow> if x = c then inner xs else None)
      else inner s)"

definition read_ipv4 :: "string \<Rightarrow> (Ipv4Addr \<times> string) option" where
  "read_ipv4 s = do {
     (a, s) \<leftarrow> read_separator CHR ''.'' 0 (read_number 10 3 False) s;
     (b, s) \<leftarrow> read_separator CHR ''.'' 1 (read_number 10 3 False) s;
     (c, s) \<leftarrow> read_separator CHR ''.'' 2 (read_number 10 3 False) s;
     (d, s) \<leftarrow> read_separator CHR ''.'' 3 (read_number 10 3 False) s;
     Some (Ipv4Addr a b c d, s) }"

fun octet_groups :: "Ipv4Addr \<Rightarrow> u16 list" where
  "octet_groups (Ipv4Addr a b c d) = [u16_be a b, u16_be c d]"

text \<open>\<open>read_groups\<close>: the groups read, whether they end in an IPv4 address, and the rest.
  The first argument is the index of the next group, the second how many may follow.\<close>

fun read_groups :: "nat \<Rightarrow> nat \<Rightarrow> string \<Rightarrow> u16 list \<times> bool \<times> string" where
  "read_groups i 0 s = ([], False, s)"
| "read_groups i (Suc k) s =
     (case (if k > 0 then read_separator CHR '':'' i read_ipv4 s else None) of
        Some (v4, rest) \<Rightarrow> (octet_groups v4, True, rest)
      | None \<Rightarrow>
          (case read_separator CHR '':'' i (read_number 16 4 True) s of
             None \<Rightarrow> ([], False, s)
           | Some (g, rest) \<Rightarrow>
               (let (gs, v4, rest') = read_groups (Suc i) k rest in (g # gs, v4, rest'))))"

definition read_ipv6 :: "string \<Rightarrow> (Ipv6Addr \<times> string) option" where
  "read_ipv6 s =
     (let (hs, v4, r) = read_groups 0 8 s in
      if length hs = 8 then Some (ipv6_of_segments hs, r)
      else if v4 then None
      else (case strip_prefix ''::'' r of
          None \<Rightarrow> None
        | Some r' \<Rightarrow>
            (let (ts, _, r'') = read_groups 0 (8 - (length hs + 1)) r' in
             Some (ipv6_of_segments (hs @ replicate (8 - length hs - length ts) 0 @ ts), r''))))"

definition read_ip :: "string \<Rightarrow> (IpAddr \<times> string) option" where
  "read_ip s =
     (case read_ipv4 s of
        Some (a, r) \<Rightarrow> Some (V4 a, r)
      | None \<Rightarrow> map_option (\<lambda>(a, r). (V6 a, r)) (read_ipv6 s))"

definition parse_ip :: "string \<Rightarrow> IpAddr option" where
  "parse_ip s = (case read_ip s of Some (a, []) \<Rightarrow> Some a | _ \<Rightarrow> None)"

section \<open>Reading what was printed\<close>

lemma digits_val_ge: "digits_val r acc ds = Some v \<Longrightarrow> 1 \<le> r \<Longrightarrow> acc \<le> v"
proof (induction ds arbitrary: acc)
  case (Cons c ds)
  then obtain d where "digits_val r (acc * r + d) ds = Some v"
    by (auto split: option.splits)
  with Cons have "acc * r + d \<le> v" by blast
  moreover have "acc \<le> acc * r" using Cons.prems by simp
  ultimately show ?case by linarith
qed simp

definition stops :: "nat \<Rightarrow> string \<Rightarrow> bool" where
  "stops r s \<longleftrightarrow> (case s of [] \<Rightarrow> True | c # _ \<Rightarrow> to_digit r c = None)"

lemma read_digits_append:
  assumes "digits_val r acc ds = Some v" "1 \<le> r" "v < limit" "n + length ds \<le> maxd" "stops r rest"
  shows "read_digits r maxd limit acc n (ds @ rest) = Some (v, n + length ds, rest)"
  using assms
proof (induction ds arbitrary: acc n)
  case Nil
  then show ?case by (cases rest) (auto simp: stops_def)
next
  case (Cons c ds)
  then obtain d where d: "to_digit r c = Some d" "digits_val r (acc * r + d) ds = Some v"
    by (auto split: option.splits)
  with Cons have "acc * r + d < limit"
    using digits_val_ge order_le_less_trans by blast
  with Cons d show ?case by simp
qed

lemma length_show_radix: "2 \<le> r \<Longrightarrow> n < r ^ Suc k \<Longrightarrow> length (show_radix r n) \<le> Suc k"
proof (induction k arbitrary: n)
  case 0
  then show ?case by (subst show_radix.simps) simp
next
  case (Suc k)
  show ?case
  proof (cases "n < r")
    case False
    have "n div r < r ^ Suc k"
      using Suc.prems by (simp add: div_less_iff_less_mult mult.commute)
    then have "length (show_radix r (n div r)) \<le> Suc k"
      using Suc by blast
    with False Suc.prems show ?thesis by (subst show_radix.simps) simp
  qed (subst show_radix.simps, simp)
qed

lemma hd_show_radix:
  assumes "2 \<le> r" "r \<le> 36" "0 < n"
  shows "hd (show_radix r n) \<noteq> CHR ''0''"
  using assms
proof (induction r n rule: show_radix.induct)
  case (1 r n)
  show ?case
  proof (cases "n < r")
    case True
    have "(of_char (digit_char n) :: nat) \<noteq> of_char CHR ''0''"
      using True 1 by (simp add: of_char_digit_char)
    then have "digit_char n \<noteq> CHR ''0''" by metis
    with True show ?thesis by (subst show_radix.simps) simp
  next
    case False
    with 1 have "hd (show_radix r (n div r)) \<noteq> CHR ''0''"
      by (simp add: div_greater_zero_iff)
    with False 1 show ?thesis by (subst show_radix.simps) simp
  qed
qed

lemma read_number_show:
  fixes w :: "'a::len word"
  assumes r: "2 \<le> r" "r \<le> 36" and rest: "stops r rest" and len: "2 ^ LENGTH('a) \<le> r ^ Suc k"
  shows "read_number r (Suc k) z (show_radix r (unat w) @ rest) = Some (w, rest)"
proof -
  let ?ds = "show_radix r (unat w)"
  have lt: "unat w < 2 ^ LENGTH('a)" by simp
  have l: "length ?ds \<le> Suc k"
    using len lt r by (intro length_show_radix) linarith+
  have "read_digits r (Suc k) (2 ^ LENGTH('a)) 0 0 (?ds @ rest) = Some (unat w, length ?ds, rest)"
    using read_digits_append [OF digits_val_show_radix, of r "unat w"] r l lt rest by simp
  moreover have "\<not> (hd (?ds @ rest) = CHR ''0'' \<and> length ?ds > 1)"
  proof (cases "unat w = 0")
    case True
    with r have "length ?ds = 1" by (subst show_radix.simps) simp
    then show ?thesis by simp
  next
    case False
    with hd_show_radix [of r "unat w"] r show ?thesis by simp
  qed
  ultimately show ?thesis by (auto simp: read_number_def)
qed

lemma stops_simps [simp]:
  "stops 10 (CHR ''.'' # s)" "stops 10 (CHR '':'' # s)" "stops 16 (CHR '':'' # s)" "stops r []"
  by (simp_all add: stops_def to_digit_def)

lemma read_octet: "stops 10 rest \<Longrightarrow> read_number 10 3 z (show_uint (w :: u8) @ rest) = Some (w, rest)"
  using read_number_show [of 10 rest 2 z w]
  by (simp add: show_uint_def show_nat_def numeral_3_eq_3)

lemma read_group: "stops 16 rest \<Longrightarrow> read_number 16 4 z (show_hex (w :: u16) @ rest) = Some (w, rest)"
  using read_number_show [of 16 rest 3 z w] by (simp add: show_hex_def)

lemma read_ipv4_show:
  assumes "stops 10 rest"
  shows "read_ipv4 (show_ipv4 a @ rest) = Some (a, rest)"
  using assms by (cases a) (simp add: read_ipv4_def read_separator_def read_octet)

subsection \<open>Groups are not dotted quads\<close>

text \<open>What the reader of an IPv4 address consumes before the first dot is decimal digits, so
  it fails on a hexadecimal group that a colon or the end of the input follows.\<close>

definition colon_or_end :: "string \<Rightarrow> bool" where
  "colon_or_end s \<longleftrightarrow> s = [] \<or> hd s = CHR '':''"

lemma fmt_tail_Nil [simp]: "fmt_tail [] = []"
  by (simp add: fmt_tail_def)

lemma colon_or_end_simps [simp]:
  "colon_or_end []" "colon_or_end (CHR '':'' # s)" "colon_or_end (fmt_tail gs)"
  "colon_or_end s \<Longrightarrow> colon_or_end (fmt_tail gs @ s)"
  by (cases gs; simp add: colon_or_end_def fmt_tail_def)+

lemma colon_or_end_stops: "colon_or_end s \<Longrightarrow> stops 16 s" "colon_or_end s \<Longrightarrow> stops 10 s"
  by (cases s; simp add: colon_or_end_def)+

lemma to_digit10_is_dec: "to_digit 10 c = Some d \<Longrightarrow> is_dec c"
  by (auto simp: to_digit_def is_dec_def Let_def split: if_splits)

lemma read_digits_prefix:
  "read_digits 10 maxd limit acc n s = Some (v, m, r) \<Longrightarrow> \<exists>ds. s = ds @ r \<and> (\<forall>c \<in> set ds. is_dec c)"
proof (induction s arbitrary: acc n)
  case (Cons c s)
  show ?case
  proof (cases "to_digit 10 c")
    case (Some d)
    with Cons.prems have "read_digits 10 maxd limit (acc * 10 + d) (Suc n) s = Some (v, m, r)"
      by (simp split: if_splits)
    then obtain ds where "s = ds @ r" "\<forall>c \<in> set ds. is_dec c"
      using Cons.IH by blast
    with Some show ?thesis
      by (intro exI [of _ "c # ds"]) (simp add: to_digit10_is_dec)
  qed (use Cons.prems in \<open>auto intro: exI [of _ "[]"]\<close>)
qed simp

lemma read_number_prefix:
  "read_number 10 maxd z s = Some (w, r) \<Longrightarrow> \<exists>ds. s = ds @ r \<and> (\<forall>c \<in> set ds. is_dec c)"
  by (auto simp: read_number_def split: option.splits if_splits dest: read_digits_prefix)

lemma dropWhile_hex_append:
  "(\<forall>c \<in> set ds. is_hex c) \<Longrightarrow> \<not> is_hex x \<Longrightarrow> dropWhile is_hex (ds @ x # s) = x # s"
  by (induction ds) auto

lemma read_ipv4_group:
  assumes "\<forall>c \<in> set h. is_hex c" "colon_or_end rest"
  shows "read_ipv4 (h @ rest) = None"
proof -
  have nodot: "x \<noteq> CHR ''.''"
    if "read_number 10 3 False (h @ rest) = Some (w :: u8, x # r)" for w x r
  proof
    assume x: "x = CHR ''.''"
    from read_number_prefix [OF that] x obtain ds
      where ds: "h @ rest = ds @ CHR ''.'' # r" "\<forall>c \<in> set ds. is_dec c"
      by blast
    then have dot: "dropWhile is_hex (h @ rest) = CHR ''.'' # r"
      by (auto simp: is_hex_def intro: dropWhile_hex_append)
    show False
    proof (cases rest)
      case Nil
      with assms(1) dot show False by (simp add: dropWhile_eq_Nil_conv [THEN iffD2])
    next
      case (Cons y t)
      with assms have "dropWhile is_hex (h @ rest) = CHR '':'' # t"
        by (simp add: colon_or_end_def dropWhile_hex_append)
      with dot show False by simp
    qed
  qed
  show ?thesis
  proof (cases "read_number 10 3 False (h @ rest) :: (u8 \<times> string) option")
    case (Some wr)
    then obtain w r where wr: "read_number 10 3 False (h @ rest) = Some (w :: u8, r)"
      by (cases wr) simp
    with nodot show ?thesis
      by (cases r) (auto simp: read_ipv4_def read_separator_def)
  qed (simp add: read_ipv4_def read_separator_def)
qed

lemma read_ipv4_colon [simp]: "read_ipv4 (CHR '':'' # s) = None" "read_ipv4 [] = None"
  by (simp_all add: read_ipv4_def read_separator_def read_number_def to_digit_def)

lemma read_group_colon [simp]:
  "read_number 16 maxd z (CHR '':'' # s) = None" "read_number 16 maxd z [] = None"
  by (simp_all add: read_number_def to_digit_def)

lemma show_hex_all: "\<forall>c \<in> set (show_hex w). is_hex c"
  by (blast intro: show_hex_hex)

subsection \<open>Lists of groups\<close>

text \<open>Where a list of groups may end: at the end of the input, or before a double colon.\<close>

definition groups_end :: "string \<Rightarrow> bool" where
  "groups_end s \<longleftrightarrow> s = [] \<or> (\<exists>t. s = CHR '':'' # CHR '':'' # t)"

lemma groups_end_colon: "groups_end s \<Longrightarrow> colon_or_end s"
  by (auto simp: groups_end_def)

lemma read_groups_end: "groups_end s \<Longrightarrow> read_groups i k s = ([], False, s)"
  by (cases k) (auto simp: groups_end_def read_separator_def split: option.splits)

lemma read_groups_tail:
  assumes "groups_end rest" "length gs \<le> k" "0 < i"
  shows "read_groups i k (fmt_tail gs @ rest) = (gs, False, rest)"
  using assms
proof (induction gs arbitrary: i k)
  case Nil
  then show ?case by (simp add: fmt_tail_def read_groups_end)
next
  case (Cons g gs)
  then obtain k' where k: "k = Suc k'" by (cases k) auto
  have s: "fmt_tail (g # gs) @ rest = CHR '':'' # show_hex g @ fmt_tail gs @ rest"
    by (simp add: fmt_tail_def)
  have e: "colon_or_end (fmt_tail gs @ rest)"
    using Cons.prems(1) by (simp add: groups_end_colon)
  show ?case
    using Cons e by (auto simp: s k read_separator_def read_ipv4_group show_hex_all
        read_group colon_or_end_stops)
qed

lemma read_groups_subslice:
  assumes "groups_end rest" "length gs \<le> k"
  shows "read_groups 0 k (fmt_subslice gs @ rest) = (gs, False, rest)"
proof (cases gs)
  case Nil
  with assms show ?thesis by (simp add: read_groups_end)
next
  case (Cons g gs')
  with assms obtain k' where k: "k = Suc k'" by (cases k) auto
  have "colon_or_end (fmt_tail gs' @ rest)"
    using assms(1) by (simp add: groups_end_colon)
  then show ?thesis
    using assms by (auto simp: Cons k read_separator_def read_ipv4_group show_hex_all
        read_group colon_or_end_stops read_groups_tail)
qed

subsection \<open>The compressed run\<close>

lemma zero_span_correct:
  assumes "zero_span (length done) (cs, cl) (ls, ll) rest = (start, len)"
    and "cl = 0 \<or> (cs + cl = length done \<and> (\<forall>j. cs \<le> j \<and> j < cs + cl \<longrightarrow> done ! j = 0))"
    and "ls + ll \<le> length done" "\<forall>j. ls \<le> j \<and> j < ls + ll \<longrightarrow> done ! j = 0"
  shows "start + len \<le> length (done @ rest) \<and>
    (\<forall>j. start \<le> j \<and> j < start + len \<longrightarrow> (done @ rest) ! j = 0)"
  using assms
proof (induction rest arbitrary: "done" cs cl ls ll)
  case Nil
  then show ?case by auto
next
  case (Cons s rest)
  define start' where "start' = (if cl = 0 then length done else cs)"
  let ?done = "done @ [s]"
  show ?case
  proof (cases "s = 0")
    case False
    have "start + len \<le> length (?done @ rest) \<and>
      (\<forall>j. start \<le> j \<and> j < start + len \<longrightarrow> (?done @ rest) ! j = 0)"
      using Cons.prems False by (intro Cons.IH [of ?done 0 0 ls ll]) (auto simp: nth_append)
    then show ?thesis by simp
  next
    case True
    have run: "start' + Suc cl = length ?done \<and>
        (\<forall>j. start' \<le> j \<and> j < start' + Suc cl \<longrightarrow> ?done ! j = 0)"
      using Cons.prems(2) True by (auto simp: start'_def nth_append less_Suc_eq)
    let ?l = "if Suc cl > ll then (start', Suc cl) else (ls, ll)"
    have "start + len \<le> length (?done @ rest) \<and>
      (\<forall>j. start \<le> j \<and> j < start + len \<longrightarrow> (?done @ rest) ! j = 0)"
    proof (rule Cons.IH [of ?done start' "Suc cl" "fst ?l" "snd ?l"])
      show "zero_span (length ?done) (start', Suc cl) (fst ?l, snd ?l) rest = (start, len)"
        using Cons.prems(1) True by (auto simp: start'_def Let_def split: if_splits)
    qed (use run Cons.prems in \<open>auto simp: nth_append\<close>)
    then show ?thesis by simp
  qed
qed

lemma zero_span_split:
  assumes "zero_span 0 (0, 0) (0, 0) ss = (start, len)"
  shows "start + len \<le> length ss \<and>
    ss = take start ss @ replicate len 0 @ drop (start + len) ss"
proof -
  have *: "start + len \<le> length ss" "\<forall>j. start \<le> j \<and> j < start + len \<longrightarrow> ss ! j = 0"
    using zero_span_correct [of "[]" 0 0 0 0 ss start len] assms by auto
  have "take len (drop start ss) = replicate len 0"
    using * by (intro nth_equalityI) auto
  then have "ss = take start ss @ replicate len 0 @ drop len (drop start ss)"
    by (metis append_take_drop_id)
  with * show ?thesis by (simp add: add.commute)
qed

subsection \<open>Round trip\<close>

lemma ipv6_of_segments_segments [simp]: "ipv6_of_segments (ipv6_segments a) = a"
  by (cases a) simp

lemma length_ipv6_segments [simp]: "length (ipv6_segments a) = 8"
  by (cases a) simp

lemma u16_be_hi_lo [simp]: "u16_be (hi8 w) (lo8 w) = w"
proof -
  have "unat w < 2 ^ LENGTH(16)" by (rule unsigned_less)
  then have "unat w div 256 < 256" by (simp add: div_less_iff_less_mult)
  then show ?thesis
    by (simp add: u16_be_def hi8_def lo8_def unat_of_nat take_bit_eq_mod)
qed

lemma strip_prefix_colons [simp]: "strip_prefix ''::'' (CHR '':'' # CHR '':'' # s) = Some s"
  by (simp add: strip_prefix_def)

lemma read_ipv6_mapped:
  assumes "ipv4_mapped a = Some v4"
  shows "read_ipv6 (''::ffff:'' @ show_ipv4 v4) = Some (a, [])"
proof -
  have "read_groups 0 8 (CHR '':'' # CHR '':'' # s) = ([], False, CHR '':'' # CHR '':'' # s)" for s
    by (intro read_groups_end) (simp add: groups_end_def)
  moreover have hex: "show_hex (0xffff :: u16) = ''ffff''"
    by (simp add: show_hex_def show_radix.simps digit_char_literals)
  have "read_groups 0 7 (''ffff:'' @ show_ipv4 v4) = (0xffff # octet_groups v4, True, [])"
  proof -
    have g: "read_number 16 4 True (''ffff'' @ CHR '':'' # show_ipv4 v4) =
        Some (0xffff :: u16, CHR '':'' # show_ipv4 v4)"
      using read_group [where w = "0xffff" and z = True and rest = "CHR '':'' # show_ipv4 v4"]
      by (simp add: hex)
    have q: "read_ipv4 (''ffff'' @ CHR '':'' # show_ipv4 v4) = None"
      using read_ipv4_group [OF show_hex_all [of "0xffff :: u16"], of "CHR '':'' # show_ipv4 v4"]
      by (simp add: hex)
    have t: "read_groups 1 6 (CHR '':'' # show_ipv4 v4) = (octet_groups v4, True, [])"
      using read_ipv4_show [of "[]" v4] by (simp add: eval_nat_numeral read_separator_def)
    from g q t show ?thesis
      by (simp add: eval_nat_numeral read_separator_def)
  qed
  ultimately show ?thesis
    using assms by (cases a) (auto simp: read_ipv6_def numeral_eq_Suc split: if_splits)
qed

lemma read_ipv6_show: "read_ipv6 (show_ipv6 a) = Some (a, [])"
proof (cases "ipv4_mapped a")
  case (Some v4)
  then show ?thesis using read_ipv6_mapped [OF Some] by (simp add: show_ipv6_def)
next
  case None
  let ?ss = "ipv6_segments a"
  obtain start len where z: "zero_span 0 (0, 0) (0, 0) ?ss = (start, len)"
    by (meson surj_pair)
  note split = zero_span_split [OF z]
  show ?thesis
  proof (cases "len > 1")
    case False
    have "read_groups 0 8 (fmt_subslice ?ss @ []) = (?ss, False, [])"
      by (rule read_groups_subslice) (simp_all add: groups_end_def)
    with None z False show ?thesis
      by (simp add: show_ipv6_def read_ipv6_def)
  next
    case True
    let ?h = "take start ?ss" and ?t = "drop (start + len) ?ss"
    have len: "length ?h = start" "length ?t = 8 - (start + len)" "start + len \<le> 8"
      using split by auto
    have h: "read_groups 0 8 (fmt_subslice ?h @ ''::'' @ fmt_subslice ?t) =
        (?h, False, ''::'' @ fmt_subslice ?t)"
      using len by (intro read_groups_subslice) (simp_all add: groups_end_def)
    have t: "read_groups 0 (8 - Suc start) (fmt_subslice ?t @ []) = (?t, False, [])"
      using len True by (intro read_groups_subslice) (simp_all add: groups_end_def)
    have "8 - start - length ?t = len" using len by simp
    moreover have "show_ipv6 a = fmt_subslice ?h @ ''::'' @ fmt_subslice ?t"
      using None z True by (simp add: show_ipv6_def Let_def)
    moreover have "?h @ replicate len 0 @ ?t = ?ss" using split by simp
    moreover have "start \<noteq> 8" using len True by simp
    ultimately show ?thesis
      using h t len by (simp add: read_ipv6_def)
  qed
qed

lemma read_ipv4_show_ipv6: "read_ipv4 (show_ipv6 a) = None"
proof (cases "ipv4_mapped a")
  case (Some v4)
  then show ?thesis by (simp add: show_ipv6_def)
next
  case None
  have sub: "read_ipv4 (fmt_subslice gs @ rest) = None" if "colon_or_end rest" for gs rest
  proof (cases gs)
    case Nil
    with that show ?thesis by (cases rest) (auto simp: colon_or_end_def)
  next
    case (Cons g gs')
    with that show ?thesis
      using read_ipv4_group [OF show_hex_all [of g], of "fmt_tail gs' @ rest"] by simp
  qed
  from None sub [of "[]"] sub [of "''::'' @ _"] show ?thesis
    by (auto simp: show_ipv6_def Let_def split: prod.splits)
qed

lemma parse_ip_show [outcome_simps]: "parse_ip (show_ip a) = Some a"
proof (cases a)
  case (V4 a4)
  then show ?thesis using read_ipv4_show [of "[]" a4] by (simp add: parse_ip_def read_ip_def)
next
  case (V6 a6)
  then show ?thesis
    by (simp add: parse_ip_def read_ip_def read_ipv4_show_ipv6 read_ipv6_show)
qed

lemma show_ip_inject: "show_ip a = show_ip b \<Longrightarrow> a = b"
  by (metis option.inject parse_ip_show)

text \<open>The characters of a printed address: it is one token, without \<open>-\<close> and \<open>=\<close>.\<close>

lemma set_show_ipv4: "c \<in> set (show_ipv4 a) \<Longrightarrow> is_dec c \<or> c = CHR ''.''"
  by (cases a) (auto dest: show_uint_dec)

lemma set_fmt_subslice: "c \<in> set (fmt_subslice gs) \<Longrightarrow> is_hex c \<or> c = CHR '':''"
  by (cases gs) (auto simp: fmt_tail_def split: if_splits dest: show_hex_hex)

lemma set_show_ip: "c \<in> set (show_ip a) \<Longrightarrow> is_hex c \<or> c = CHR '':'' \<or> c = CHR ''.''"
proof (cases a)
  case (V6 b)
  assume "c \<in> set (show_ip a)"
  with V6 show ?thesis
    by (auto simp: show_ipv6_def Let_def is_hex_def is_dec_def split: option.splits prod.splits if_splits
        dest!: set_show_ipv4 set_fmt_subslice)
qed (auto simp: is_hex_def dest: set_show_ipv4)

lemma show_ip_nonempty [simp]: "show_ip a \<noteq> []"
proof
  assume "show_ip a = []"
  then have "parse_ip [] = Some a" by (metis parse_ip_show)
  then show False
    by (simp add: parse_ip_def read_ip_def read_ipv6_def read_groups_end groups_end_def strip_prefix_def)
qed

lemma show_ip_notin [simp]: "CHR ''-'' \<notin> set (show_ip a)" "CHR ''='' \<notin> set (show_ip a)"
  by (auto dest: set_show_ip)

lemma token_show_ip [simp]: "token (show_ip a)"
  using set_show_ip [of _ a] by (fastforce simp: token_def is_hex_printable printable_def is_hex_def is_dec_def)

end
