(* ===== verification/CoreTypes.thy ===== *)
theory CoreTypes
  imports RustPath NetAddr
begin

text \<open>
  The shared domain types (\<open>crates/core/src/types.rs\<close>) and the messages of the protocol
  (\<open>crates/core/src/ipc.rs\<close>).  A struct is a record whose fields carry a short prefix; a
  \<open>usize\<close> count is a \<^typ>\<open>nat\<close>.  A \<open>DateTime<Utc>\<close> is its number of nanoseconds since the
  epoch, since the program only compares timestamps and stores them.
\<close>

type_synonym time = int

record ProcessInfo =
  pi_pid :: u32
  pi_name :: string
  pi_exe :: "path option"
  pi_user :: "string option"
  pi_ppid :: u32

datatype Protocol = Tcp | Udp | OtherProto

record ConnectionInfo =
  c_key :: string
  c_protocol :: Protocol
  c_local_addr :: IpAddr
  c_local_port :: u16
  c_remote_addr :: IpAddr
  c_remote_port :: u16
  c_bytes_sent :: u64
  c_bytes_recv :: u64
  c_pid :: "u32 option"
  c_process_name :: "string option"
  c_exe :: "path option"
  c_started :: time
  c_last_seen :: time

record AppUsage =
  au_name :: string
  au_exe :: "path option"
  au_bytes_sent :: u64
  au_bytes_recv :: u64
  au_connections :: u32
  au_blocked :: bool

datatype InterfaceKind = Ethernet | Wifi | Vpn | Loopback | OtherKind

record InterfaceInfo =
  if_name :: string
  if_kind :: InterfaceKind
  if_mac :: "string option"
  if_addrs :: "IpAddr list"
  if_is_up :: bool

record NetworkInfo =
  ni_interfaces :: "InterfaceInfo list"
  ni_gateway :: "IpAddr option"
  ni_dns_servers :: "IpAddr list"
  ni_ssid :: "string option"
  ni_metered :: "bool option"
  ni_primary_interface :: "string option"

datatype RuleAction = Allow | Block

record Rule =
  r_id :: u64
  r_name :: string
  r_exe_path :: path
  r_action :: RuleAction
  r_persistent :: bool
  r_expires_at :: "time option"
  r_profile :: string
  r_updated_at :: time

record RuleInput =
  i_name :: string
  i_exe_path :: path
  i_action :: RuleAction
  i_persistent :: bool
  i_ttl_secs :: "u64 option"

record Status =
  s_version :: string
  s_uptime_secs :: u64
  s_paused :: bool
  s_filtering_active :: bool
  s_rules_count :: nat
  s_tracked_connections :: nat
  s_tracked_processes :: nat

datatype Event =
    ConnectionOpened ConnectionInfo
  | ConnectionUpdated ConnectionInfo
  | ConnectionClosed string
  | ProcessStarted ProcessInfo
  | ProcessExited u32
  | RuleAdded Rule
  | RuleRemoved u64
  | PausedChanged bool
  | NetworkChanged NetworkInfo

datatype Request =
    Ping
  | GetStatus
  | GetNetwork
  | GetProcesses
  | GetConnections
  | GetTop
  | ListRules
  | AddRule RuleInput
  | RemoveRule u64
  | SetPaused bool
  | Subscribe

datatype Response =
    Pong
  | RStatus Status
  | RNetwork NetworkInfo
  | RProcesses "ProcessInfo list"
  | RConnections "ConnectionInfo list"
  | RTop "AppUsage list"
  | RRules "Rule list"
  | ROk
  | RError string
  | REvent Event


end
