(* ===== verification/Machines.thy ===== *)
theory Machines
  imports Prelude
begin

text \<open>
  What the stateful components have in common, as interfaces: a step function with an
  invariant it keeps, possibly only as long as a budget of steps lasts (an id counter that
  must not wrap), and a step function that also publishes events from which an observer can
  follow the state.  \<open>ok\<close> is what is assumed of a step's input (the order in which a hash
  map was iterated is a permutation of its entries).  The lemmas about whole runs are proved here once; the components
  interpret the locales with their own steps.
\<close>

section \<open>Runs and invariants\<close>

locale budgeted_machine =
  fixes step :: "'i \<Rightarrow> 's \<Rightarrow> 's"
    and ok :: "'i \<Rightarrow> bool"
    and inv :: "nat \<Rightarrow> 's \<Rightarrow> bool"
  assumes inv_step: "inv (Suc n) s \<Longrightarrow> ok i \<Longrightarrow> inv n (step i s)"
begin

lemma inv_run: "inv (n + length xs) s \<Longrightarrow> list_all ok xs \<Longrightarrow> inv n (fold step xs s)"
  by (induction xs arbitrary: s) (simp_all add: inv_step)

end

locale machine =
  fixes step :: "'i \<Rightarrow> 's \<Rightarrow> 's"
    and ok :: "'i \<Rightarrow> bool"
    and inv :: "'s \<Rightarrow> bool"
  assumes step_inv: "inv s \<Longrightarrow> ok i \<Longrightarrow> inv (step i s)"
begin

lemma run_inv: "inv s \<Longrightarrow> list_all ok xs \<Longrightarrow> inv (fold step xs s)"
  by (induction xs arbitrary: s) (simp_all add: step_inv)

end

sublocale machine \<subseteq> budgeted_machine step ok "\<lambda>_. inv"
  by unfold_locales (rule step_inv)

section \<open>Published events\<close>

text \<open>\<open>emit\<close> is what a step publishes, \<open>view\<close> the part of the state the events are about,
  and \<open>apply\<close> how an observer folds one event into its copy of the view.\<close>

locale publisher = machine step ok inv
  for step :: "'i \<Rightarrow> 's \<Rightarrow> 's" and ok :: "'i \<Rightarrow> bool" and inv :: "'s \<Rightarrow> bool" +
  fixes emit :: "'i \<Rightarrow> 's \<Rightarrow> 'e list"
    and view :: "'s \<Rightarrow> 'v"
    and observe :: "'e \<Rightarrow> 'v \<Rightarrow> 'v"
  assumes view_step: "inv s \<Longrightarrow> ok i \<Longrightarrow> view (step i s) = fold observe (emit i s) (view s)"
begin

primrec emits :: "'i list \<Rightarrow> 's \<Rightarrow> 'e list" where
  "emits [] s = []"
| "emits (x # xs) s = emit x s @ emits xs (step x s)"

text \<open>An observer that starts from a snapshot and folds every event in order is up to date.\<close>

lemma view_run: "inv s \<Longrightarrow> list_all ok xs \<Longrightarrow> view (fold step xs s) = fold observe (emits xs s) (view s)"
  by (induction xs arbitrary: s) (simp_all add: view_step step_inv)

lemma emits_append: "emits (xs @ ys) s = emits xs s @ emits ys (fold step xs s)"
  by (induction xs arbitrary: s) simp_all

end

end
