(* ===== verification/Config.thy ===== *)
theory Config
  imports CoreTypes
begin

text \<open>
  The daemon's configuration (\<open>crates/daemon/src/config.rs\<close>).  The TOML parser is the
  parameter \<open>toml_parse\<close>: a document is its top-level table, or an error.  What the
  \<open>serde\<close> attributes of the struct ask for is written out: unknown keys are rejected,
  missing ones get their default, and a value has to have the field's type.
\<close>

section \<open>Definitions\<close>

record Config =
  cf_socket_path :: path
  cf_rules_file :: path
  cf_log_level :: string
  cf_fail_open :: bool
  cf_conntrack_poll_secs :: u64
  cf_process_poll_secs :: u64
  cf_queue_num :: u16

definition config_default :: Config where
  "config_default = \<lparr>
     cf_socket_path = ''/run/travelmode/daemon.sock'',
     cf_rules_file = ''/etc/travelmode/rules.json'',
     cf_log_level = ''info'',
     cf_fail_open = True,
     cf_conntrack_poll_secs = 1,
     cf_process_poll_secs = 2,
     cf_queue_num = 0\<rparr>"

datatype toml_value = TStr string | TInt int | TBool bool | TOther

type_synonym toml_table = "(string \<times> toml_value) list"

fun as_str :: "toml_value \<Rightarrow> string option" where
  "as_str (TStr s) = Some s"
| "as_str _ = None"

fun as_bool :: "toml_value \<Rightarrow> bool option" where
  "as_bool (TBool b) = Some b"
| "as_bool _ = None"

fun as_uint :: "toml_value \<Rightarrow> 'a::len word option" where
  "as_uint (TInt i) = (if 0 \<le> i \<and> i < 2 ^ LENGTH('a) then Some (of_int i) else None)"
| "as_uint _ = None"

text \<open>A field with a default: the default when the key is missing, an error on a bad value.\<close>

definition toml_field :: "(toml_value \<Rightarrow> 'a option) \<Rightarrow> 'a \<Rightarrow> string \<Rightarrow> toml_table \<Rightarrow> 'a option" where
  "toml_field conv dflt key tbl = (case map_of tbl key of None \<Rightarrow> Some dflt | Some v \<Rightarrow> conv v)"

definition config_keys :: "string list" where
  "config_keys = [''socket_path'', ''rules_file'', ''log_level'', ''fail_open'',
     ''conntrack_poll_secs'', ''process_poll_secs'', ''queue_num'']"

definition config_from_table :: "toml_table \<Rightarrow> Config option" where
  "config_from_table tbl =
     (if \<not> list_all (\<lambda>(k, v). k \<in> set config_keys) tbl then None
      else do {
        socket_path \<leftarrow> toml_field as_str (cf_socket_path config_default) ''socket_path'' tbl;
        rules_file \<leftarrow> toml_field as_str (cf_rules_file config_default) ''rules_file'' tbl;
        log_level \<leftarrow> toml_field as_str (cf_log_level config_default) ''log_level'' tbl;
        fail_open \<leftarrow> toml_field as_bool (cf_fail_open config_default) ''fail_open'' tbl;
        conntrack_poll \<leftarrow> toml_field as_uint (cf_conntrack_poll_secs config_default) ''conntrack_poll_secs'' tbl;
        process_poll \<leftarrow> toml_field as_uint (cf_process_poll_secs config_default) ''process_poll_secs'' tbl;
        queue_num \<leftarrow> toml_field as_uint (cf_queue_num config_default) ''queue_num'' tbl;
        Some \<lparr>cf_socket_path = socket_path, cf_rules_file = rules_file, cf_log_level = log_level,
          cf_fail_open = fail_open, cf_conntrack_poll_secs = conntrack_poll,
          cf_process_poll_secs = process_poll, cf_queue_num = queue_num\<rparr>
      })"

text \<open>A file is its content, or the reason it cannot be read; \<open>exists\<close> follows from it.\<close>

datatype file_error = Missing | Unreadable

definition load_from :: "(string \<Rightarrow> toml_table option) \<Rightarrow> (path \<Rightarrow> file_error + string) \<Rightarrow> path \<Rightarrow> Config" where
  "load_from toml_parse fs p =
     (case fs p of
        Inr s \<Rightarrow>
          (case Option.bind (toml_parse s) config_from_table of
             Some cfg \<Rightarrow> cfg
           | None \<Rightarrow> config_default)
      | Inl Missing \<Rightarrow> config_default
      | Inl Unreadable \<Rightarrow> config_default)"

fun load_candidates :: "(string \<Rightarrow> toml_table option) \<Rightarrow> (path \<Rightarrow> file_error + string) \<Rightarrow> path list \<Rightarrow> Config" where
  "load_candidates toml_parse fs [] = config_default"
| "load_candidates toml_parse fs (c # cs) =
     (if fs c \<noteq> Inl Missing then load_from toml_parse fs c else load_candidates toml_parse fs cs)"

definition load_default_location :: "(string \<Rightarrow> toml_table option) \<Rightarrow> (path \<Rightarrow> file_error + string) \<Rightarrow> Config" where
  "load_default_location toml_parse fs = load_candidates toml_parse fs [''/etc/travelmode/config.toml'']"

definition load_config :: "(string \<Rightarrow> toml_table option) \<Rightarrow> (path \<Rightarrow> file_error + string) \<Rightarrow> path option \<Rightarrow> Config" where
  "load_config toml_parse fs p =
     (case p of None \<Rightarrow> load_default_location toml_parse fs | Some p \<Rightarrow> load_from toml_parse fs p)"

section \<open>Lemmas\<close>

text \<open>What a key is set to, read off the table.\<close>

lemma config_from_table_field:
  assumes "config_from_table tbl = Some cfg"
  shows "toml_field as_str (cf_socket_path config_default) ''socket_path'' tbl = Some (cf_socket_path cfg)"
    and "toml_field as_str (cf_rules_file config_default) ''rules_file'' tbl = Some (cf_rules_file cfg)"
    and "toml_field as_str (cf_log_level config_default) ''log_level'' tbl = Some (cf_log_level cfg)"
    and "toml_field as_bool (cf_fail_open config_default) ''fail_open'' tbl = Some (cf_fail_open cfg)"
    and "toml_field as_uint (cf_conntrack_poll_secs config_default) ''conntrack_poll_secs'' tbl =
      Some (cf_conntrack_poll_secs cfg)"
    and "toml_field as_uint (cf_process_poll_secs config_default) ''process_poll_secs'' tbl =
      Some (cf_process_poll_secs cfg)"
    and "toml_field as_uint (cf_queue_num config_default) ''queue_num'' tbl = Some (cf_queue_num cfg)"
  using assms unfolding config_from_table_def
  by (simp_all split: if_splits bind_splits) auto

lemma config_unknown_key:
  "(k, v) \<in> set tbl \<Longrightarrow> k \<notin> set config_keys \<Longrightarrow> config_from_table tbl = None"
  by (auto simp: config_from_table_def list_all_iff)

lemma load_config_fallback:
  assumes "\<And>q s. fs q = Inr s \<Longrightarrow> Option.bind (toml_parse s) config_from_table = None"
  shows "load_config toml_parse fs p = config_default"
  using assms
  by (auto simp: load_config_def load_default_location_def load_from_def
      split: option.split sum.split file_error.split)

end
