(* ===== verification/Rules.thy ===== *)
theory Rules
  imports CoreTypes Machines
begin

text \<open>
  The rule store (\<open>crates/daemon/src/rules.rs\<close>): the list of rules with its id counter, and
  its JSON file.  \<open>Inner\<close> is the state behind the store's mutex; an operation that runs
  under the lock is a function on it.  Code outside the repository is passed in:
  \<open>chrono\<close>'s \<open>Duration::seconds\<close> and \<open>checked_add_signed\<close> as a record, \<open>serde_json\<close>'s
  \<open>to_string_pretty\<close> and \<open>from_str\<close> as functions.  The file system is a map from paths to
  contents, and every system call's success is an input.
\<close>

section \<open>State\<close>

record Persisted =
  p_next_id :: u64
  p_rules :: "Rule list"

record Inner =
  in_next_id :: u64
  in_rules :: "Rule list"
  in_path :: path

record chrono =
  duration_seconds :: "int \<Rightarrow> int may_panic" \<comment> \<open>nanoseconds; panics out of bounds\<close>
  checked_add_signed :: "time \<Rightarrow> int \<Rightarrow> time option"

datatype read_error = NotFound | ReadFailed

datatype write_outcome = WriteOk | WriteFails "string option" \<comment> \<open>what it left in the file\<close>

record fs_outcome =
  fo_mkdir :: bool
  fo_write :: write_outcome
  fo_rename :: bool

type_synonym disk = "path \<Rightarrow> string option"

section \<open>Operations\<close>

definition is_expired :: "Rule \<Rightarrow> time \<Rightarrow> bool" where
  "is_expired r now = (case r_expires_at r of None \<Rightarrow> False | Some e \<Rightarrow> e \<le> now)"

definition max_id :: "Rule list \<Rightarrow> u64" where
  "max_id rs = foldr max (map r_id rs) 0"

definition load :: "(string \<Rightarrow> Persisted option) \<Rightarrow> time \<Rightarrow> path \<Rightarrow> read_error + string \<Rightarrow> Inner" where
  "load from_str now path res =
     (let persisted = (case res of
            Inr text \<Rightarrow> (case from_str text of Some p \<Rightarrow> Some p | None \<Rightarrow> None)
          | Inl NotFound \<Rightarrow> None
          | Inl ReadFailed \<Rightarrow> None);
          (next_id, rules) = (case persisted of
            Some p \<Rightarrow> (p_next_id p, p_rules p)
          | None \<Rightarrow> (1, []));
          rules = filter (\<lambda>r. \<not> is_expired r now) rules
      in \<lparr>in_next_id = max next_id (max_id rules + 1), in_rules = rules, in_path = path\<rparr>)"

definition list_rules :: "Inner \<Rightarrow> Rule list" where
  "list_rules st = in_rules st"

definition rule_count :: "Inner \<Rightarrow> nat" where
  "rule_count st = length (in_rules st)"

definition save_locked :: "(Persisted \<Rightarrow> string option) \<Rightarrow> fs_outcome \<Rightarrow> Inner \<Rightarrow> disk \<Rightarrow> disk" where
  "save_locked to_json fo st dk =
     (case to_json \<lparr>p_next_id = in_next_id st, p_rules = in_rules st\<rparr> of
        None \<Rightarrow> dk
      | Some text \<Rightarrow>
          if has_parent (in_path st) \<and> \<not> fo_mkdir fo then dk
          else (let tmp = with_extension ''json.tmp'' (in_path st) in
            case fo_write fo of
              WriteFails left \<Rightarrow> (case left of None \<Rightarrow> dk | Some s \<Rightarrow> dk(tmp \<mapsto> s))
            | WriteOk \<Rightarrow>
                (let dk = dk(tmp \<mapsto> text) in
                 if fo_rename fo then (dk(tmp := None))(in_path st \<mapsto> text) else dk)))"

text \<open>The expiry a rule gets: \<open>ttl as i64\<close> reads the unsigned seconds as two's complement.\<close>

definition expiry :: "chrono \<Rightarrow> time \<Rightarrow> u64 option \<Rightarrow> time option may_panic" where
  "expiry ch now ttl =
     (case ttl of
        None \<Rightarrow> Some None
      | Some t \<Rightarrow>
          (case duration_seconds ch (sint t) of
             None \<Rightarrow> None
           | Some d \<Rightarrow> Some (checked_add_signed ch now d)))"

definition same_target :: "Rule \<Rightarrow> Rule \<Rightarrow> bool" where
  "same_target r s \<longleftrightarrow> path_eq (r_exe_path r) (r_exe_path s) \<and> r_action r = r_action s"

definition add_locked :: "chrono \<Rightarrow> time \<Rightarrow> RuleInput \<Rightarrow> Inner \<Rightarrow> (Rule \<times> Inner) may_panic" where
  "add_locked ch now input st =
     (case expiry ch now (i_ttl_secs input) of
        None \<Rightarrow> None
      | Some expires \<Rightarrow>
          (let rule = \<lparr>r_id = in_next_id st, r_name = i_name input, r_exe_path = i_exe_path input,
                 r_action = i_action input, r_persistent = i_persistent input,
                 r_expires_at = expires, r_profile = ''default'', r_updated_at = now\<rparr>
           in Some (rule,
                st\<lparr>in_next_id := in_next_id st + 1,
                   in_rules := filter (\<lambda>r. \<not> same_target r rule) (in_rules st) @ [rule]\<rparr>)))"

fun position :: "('a \<Rightarrow> bool) \<Rightarrow> 'a list \<Rightarrow> nat option" where
  "position P [] = None"
| "position P (x # xs) = (if P x then Some 0 else map_option Suc (position P xs))"

definition remove_locked :: "u64 \<Rightarrow> Inner \<Rightarrow> Rule option \<times> Inner" where
  "remove_locked i st =
     (case position (\<lambda>r. r_id r = i) (in_rules st) of
        None \<Rightarrow> (None, st)
      | Some pos \<Rightarrow>
          (Some (in_rules st ! pos),
           st\<lparr>in_rules := take pos (in_rules st) @ drop (Suc pos) (in_rules st)\<rparr>))"

definition reap_locked :: "time \<Rightarrow> Inner \<Rightarrow> u64 list \<times> Inner" where
  "reap_locked now st =
     (map r_id (filter (\<lambda>r. is_expired r now) (in_rules st)),
      st\<lparr>in_rules := filter (\<lambda>r. \<not> is_expired r now) (in_rules st)\<rparr>)"

definition is_blocked :: "time \<Rightarrow> path \<Rightarrow> Inner \<Rightarrow> bool" where
  "is_blocked now exe st \<longleftrightarrow>
     list_ex (\<lambda>r. r_action r = Block \<and> path_eq (r_exe_path r) exe \<and> \<not> is_expired r now) (in_rules st)"

text \<open>The public operations, with the write to disk that each of them ends in.\<close>

definition add :: "chrono \<Rightarrow> (Persisted \<Rightarrow> string option) \<Rightarrow> fs_outcome \<Rightarrow> time \<Rightarrow> RuleInput
    \<Rightarrow> Inner \<times> disk \<Rightarrow> (Rule \<times> Inner \<times> disk) may_panic" where
  "add ch to_json fo now input = (\<lambda>(st, dk).
     case add_locked ch now input st of
       None \<Rightarrow> None
     | Some (rule, st) \<Rightarrow> Some (rule, st, save_locked to_json fo st dk))"

definition remove :: "(Persisted \<Rightarrow> string option) \<Rightarrow> fs_outcome \<Rightarrow> u64
    \<Rightarrow> Inner \<times> disk \<Rightarrow> Rule option \<times> Inner \<times> disk" where
  "remove to_json fo i = (\<lambda>(st, dk).
     case remove_locked i st of
       (None, st) \<Rightarrow> (None, st, dk)
     | (Some rule, st) \<Rightarrow> (Some rule, st, save_locked to_json fo st dk))"

definition reap_expired :: "(Persisted \<Rightarrow> string option) \<Rightarrow> fs_outcome \<Rightarrow> time
    \<Rightarrow> Inner \<times> disk \<Rightarrow> u64 list \<times> Inner \<times> disk" where
  "reap_expired to_json fo now = (\<lambda>(st, dk).
     let before = length (in_rules st);
         (removed, st) = reap_locked now st
     in (removed, st, if length (in_rules st) \<noteq> before then save_locked to_json fo st dk else dk))"

definition save :: "(Persisted \<Rightarrow> string option) \<Rightarrow> fs_outcome \<Rightarrow> Inner \<times> disk \<Rightarrow> disk" where
  "save to_json fo = (\<lambda>(st, dk). save_locked to_json fo st dk)"

section \<open>Specification\<close>

text \<open>What the store is for: at most one rule per executable (up to path equality) and
  action.  The index of the rules by that key is what the operations update.\<close>

type_synonym rule_key = "Component list \<times> RuleAction"

definition key_of :: "Rule \<Rightarrow> rule_key" where
  "key_of r = (components (r_exe_path r), r_action r)"

definition rule_index :: "Inner \<Rightarrow> rule_key \<Rightarrow> Rule option" where
  "rule_index st = map_of (map (\<lambda>r. (key_of r, r)) (in_rules st))"

text \<open>The store's invariant.  Ids are below the counter, so the next one is fresh.\<close>

definition store_wf :: "Inner \<Rightarrow> bool" where
  "store_wf st \<longleftrightarrow>
     distinct (map r_id (in_rules st)) \<and> distinct (map key_of (in_rules st)) \<and>
     (\<forall>r \<in> set (in_rules st). r_id r < in_next_id st)"

definition chrono_ok :: "chrono \<Rightarrow> bool" where
  "chrono_ok ch \<longleftrightarrow>
     (\<forall>s. \<bar>s\<bar> \<le> 9223372036854775 \<longrightarrow> duration_seconds ch s = Some (s * 1000000000)) \<and>
     (\<forall>s. \<bar>s\<bar> > 9223372036854775 \<longrightarrow> duration_seconds ch s = None) \<and>
     (\<forall>t d u. checked_add_signed ch t d = Some u \<longrightarrow> u = t + d)"

section \<open>Lemmas\<close>

subsection \<open>Keys and ids\<close>

lemma same_target_key: "same_target r s \<longleftrightarrow> key_of r = key_of s"
  by (auto simp: same_target_def key_of_def path_eq_def)

lemma key_of_update [simp]:
  "key_of \<lparr>r_id = i, r_name = n, r_exe_path = p, r_action = a, r_persistent = b, r_expires_at = e,
     r_profile = f, r_updated_at = u\<rparr> = (components p, a)"
  by (simp add: key_of_def)

lemma max_id_ge: "r \<in> set rs \<Longrightarrow> r_id r \<le> max_id rs"
  by (induction rs) (auto simp: max_id_def le_max_iff_disj)

lemma max_id_zero_or_mem: "max_id rs = 0 \<or> max_id rs \<in> r_id ` set rs"
  by (induction rs) (auto simp: max_id_def max_def)

lemma rule_index_Some:
  "store_wf st \<Longrightarrow> rule_index st k = Some r \<longleftrightarrow> r \<in> set (in_rules st) \<and> key_of r = k"
  unfolding rule_index_def store_wf_def
  by (subst map_of_eq_Some_iff) (auto simp: comp_def)

lemma rule_index_key: "rule_index st k = Some r \<Longrightarrow> r \<in> set (in_rules st) \<and> key_of r = k"
  by (auto simp: rule_index_def dest: map_of_SomeD)

lemma rule_index_filter:
  "distinct (map key_of rs) \<Longrightarrow> map_of (map (\<lambda>r. (key_of r, r)) (filter P rs)) k =
    (case map_of (map (\<lambda>r. (key_of r, r)) rs) k of Some r \<Rightarrow> if P r then Some r else None | None \<Rightarrow> None)"
proof (induction rs)
  case (Cons r rs)
  have "map_of (map (\<lambda>r. (key_of r, r)) rs) (key_of r) = None"
    using Cons.prems by (force simp: map_of_eq_None_iff)
  with Cons show ?case by auto
qed simp

lemma map_of_rules_None:
  "k \<notin> key_of ` set rs \<Longrightarrow> map_of (map (\<lambda>r. (key_of r, r)) rs) k = None"
  by (force simp: map_of_eq_None_iff)

subsection \<open>Adding\<close>

lemma add_locked_Some:
  "add_locked ch now input st = Some (rule, st') \<longleftrightarrow>
     (\<exists>e. expiry ch now (i_ttl_secs input) = Some e \<and>
       rule = \<lparr>r_id = in_next_id st, r_name = i_name input, r_exe_path = i_exe_path input,
         r_action = i_action input, r_persistent = i_persistent input, r_expires_at = e,
         r_profile = ''default'', r_updated_at = now\<rparr> \<and>
       st' = st\<lparr>in_next_id := in_next_id st + 1,
         in_rules := filter (\<lambda>r. key_of r \<noteq> key_of rule) (in_rules st) @ [rule]\<rparr>)"
  by (auto simp: add_locked_def Let_def same_target_key split: option.splits)

lemma add_locked_index:
  assumes "add_locked ch now input st = Some (rule, st')" "store_wf st"
  shows "rule_index st' = (rule_index st)(key_of rule \<mapsto> rule)"
proof
  fix k
  have d: "distinct (map key_of (in_rules st))" using assms(2) by (simp add: store_wf_def)
  have r: "in_rules st' = filter (\<lambda>r. key_of r \<noteq> key_of rule) (in_rules st) @ [rule]"
    using assms(1) by (auto simp: add_locked_Some)
  have "map_of (map (\<lambda>r. (key_of r, r)) (filter (\<lambda>r. key_of r \<noteq> key_of rule) (in_rules st))) k =
      (if k = key_of rule then None else rule_index st k)"
  proof (cases "rule_index st k")
    case None
    then show ?thesis by (simp add: rule_index_filter [OF d] rule_index_def)
  next
    case (Some q)
    then have "key_of q = k" by (simp add: rule_index_key)
    with Some show ?thesis by (simp add: rule_index_filter [OF d] rule_index_def)
  qed
  then show "rule_index st' k = ((rule_index st)(key_of rule \<mapsto> rule)) k"
    unfolding rule_index_def [of st'] r map_append map_of_append map_add_def
    by (simp split: option.split)
qed

lemma add_locked_wf [inv_intros]:
  assumes "add_locked ch now input st = Some (rule, st')" "store_wf st" "in_next_id st \<noteq> - 1"
  shows "store_wf st'"
proof -
  have st': "in_rules st' = filter (\<lambda>r. key_of r \<noteq> key_of rule) (in_rules st) @ [rule]"
      "in_next_id st' = in_next_id st + 1" "r_id rule = in_next_id st"
    using assms(1) by (auto simp: add_locked_Some)
  have "r_id rule \<notin> r_id ` set (in_rules st)"
    using assms(2) st' by (auto simp: store_wf_def)
  then have "distinct (map r_id (in_rules st'))"
    using assms(2) by (simp add: st' store_wf_def distinct_map_filter_snoc del: map_append)
  moreover have "distinct (map key_of (in_rules st'))"
    using assms(2) by (auto simp: st' store_wf_def distinct_map_filter)
  moreover have "\<forall>r \<in> set (in_rules st'). r_id r < in_next_id st'"
    using assms(2,3) by (auto simp: st' store_wf_def word_less_succ word_less_self_succ)
  ultimately show ?thesis by (simp add: store_wf_def)
qed

lemma add_locked_fresh:
  assumes "add_locked ch now input st = Some (rule, st')" "store_wf st"
  shows "r_id rule \<notin> r_id ` set (in_rules st)"
  using assms by (auto simp: add_locked_Some store_wf_def)

lemma add_locked_panic_iff:
  "add_locked ch now input st = None \<longleftrightarrow> expiry ch now (i_ttl_secs input) = None"
  by (auto simp: add_locked_def Let_def split: option.splits)

subsection \<open>Removing\<close>

lemma position_Some:
  "position P xs = Some i \<Longrightarrow> i < length xs \<and> P (xs ! i) \<and> (\<forall>j < i. \<not> P (xs ! j))"
  by (induction xs arbitrary: i) (auto split: if_splits simp: less_Suc_eq_0_disj)

lemma position_None: "position P xs = None \<longleftrightarrow> (\<forall>x \<in> set xs. \<not> P x)"
  by (induction xs) auto

lemma take_drop_eq_filter:
  assumes "distinct (map f xs)" "position (\<lambda>x. f x = y) xs = Some i"
  shows "take i xs @ drop (Suc i) xs = filter (\<lambda>x. f x \<noteq> y) xs"
  using assms
proof (induction xs arbitrary: i)
  case (Cons x xs)
  show ?case
  proof (cases "f x = y")
    case True
    with Cons.prems have "i = 0" "\<forall>z \<in> set xs. f z \<noteq> y" by (auto simp: image_iff)
    with True show ?thesis by (simp add: filter_id_iff)
  next
    case False
    with Cons.prems obtain j where "i = Suc j" "position (\<lambda>x. f x = y) xs = Some j"
      by (auto split: if_splits)
    with False Cons show ?thesis by simp
  qed
qed simp

lemma remove_locked_Some:
  assumes "remove_locked i st = (Some r, st')" "store_wf st"
  shows "r \<in> set (in_rules st) \<and> r_id r = i \<and>
    st' = st\<lparr>in_rules := filter (\<lambda>s. r_id s \<noteq> i) (in_rules st)\<rparr>"
proof -
  from assms(1) obtain pos where p: "position (\<lambda>r. r_id r = i) (in_rules st) = Some pos"
    and r: "r = in_rules st ! pos"
    and st': "st' = st\<lparr>in_rules := take pos (in_rules st) @ drop (Suc pos) (in_rules st)\<rparr>"
    by (auto simp: remove_locked_def split: option.splits)
  have "take pos (in_rules st) @ drop (Suc pos) (in_rules st) =
      filter (\<lambda>s. r_id s \<noteq> i) (in_rules st)"
    using assms(2) p by (intro take_drop_eq_filter) (auto simp: store_wf_def)
  with st' r position_Some [OF p] show ?thesis by simp
qed

lemma remove_locked_None:
  "remove_locked i st = (None, st') \<longleftrightarrow> st' = st \<and> i \<notin> r_id ` set (in_rules st)"
proof (cases "position (\<lambda>r. r_id r = i) (in_rules st)")
  case None
  moreover from None have "i \<notin> r_id ` set (in_rules st)"
    by (auto simp: position_None)
  ultimately show ?thesis by (auto simp: remove_locked_def)
next
  case (Some pos)
  have "in_rules st ! pos \<in> set (in_rules st) \<and> r_id (in_rules st ! pos) = i"
    using position_Some [OF Some] by simp
  with Some show ?thesis by (auto simp: remove_locked_def image_iff)
qed

lemma filter_rules_wf [inv_intros]:
  "store_wf st \<Longrightarrow> store_wf (st\<lparr>in_rules := filter P (in_rules st)\<rparr>)"
  by (auto simp: store_wf_def distinct_map_filter)

lemma remove_locked_wf [inv_intros]: "store_wf st \<Longrightarrow> store_wf (snd (remove_locked i st))"
proof (cases "remove_locked i st")
  case (Pair r st')
  moreover assume "store_wf st"
  ultimately show ?thesis
    using remove_locked_Some [of i st _ st'] remove_locked_None [of i st st']
    by (cases r) (auto intro: filter_rules_wf)
qed

lemma rule_index_filter_rules:
  assumes "store_wf st"
  shows "rule_index (st\<lparr>in_rules := filter P (in_rules st)\<rparr>) k =
    (case rule_index st k of Some r \<Rightarrow> if P r then Some r else None | None \<Rightarrow> None)"
  using assms rule_index_filter [of "in_rules st" P k] by (simp add: rule_index_def store_wf_def)

lemma remove_locked_index:
  assumes "remove_locked i st = (Some r, st')" "store_wf st"
  shows "rule_index st' = (rule_index st)(key_of r := None)"
proof
  fix k
  note r = remove_locked_Some [OF assms]
  have "inj_on r_id (set (in_rules st))"
    using assms(2) by (simp add: store_wf_def distinct_map)
  then have uniq: "q = r" if "q \<in> set (in_rules st)" "r_id q = i" for q
    using that r by (auto dest: inj_onD)
  have kr: "rule_index st (key_of r) = Some r" using r assms(2) by (simp add: rule_index_Some)
  have "rule_index st' k =
      (case rule_index st k of Some q \<Rightarrow> if r_id q \<noteq> i then Some q else None | None \<Rightarrow> None)"
    using r rule_index_filter_rules [OF assms(2)] by simp
  also have "\<dots> = ((rule_index st)(key_of r := None)) k"
  proof (cases "rule_index st k")
    case (Some q)
    then have q: "q \<in> set (in_rules st)" "key_of q = k" by (simp_all add: rule_index_key)
    show ?thesis
    proof (cases "q = r")
      case True
      with r q Some show ?thesis by simp
    next
      case False
      then have "r_id q \<noteq> i" "k \<noteq> key_of r" using uniq q kr Some by auto
      with Some show ?thesis by simp
    qed
  qed simp
  finally show "rule_index st' k = ((rule_index st)(key_of r := None)) k" .
qed

subsection \<open>Expiry and blocking\<close>

lemma reap_locked_wf [inv_intros]: "store_wf st \<Longrightarrow> store_wf (snd (reap_locked now st))"
  by (simp add: reap_locked_def filter_rules_wf)

lemma is_blocked_index:
  assumes "store_wf st"
  shows "is_blocked now exe st \<longleftrightarrow>
    (\<exists>r. rule_index st (components exe, Block) = Some r \<and> \<not> is_expired r now)"
  using assms by (auto simp: is_blocked_def list_ex_iff rule_index_Some key_of_def path_eq_def)

lemma is_blocked_path_eq: "path_eq p q \<Longrightarrow> is_blocked now p st = is_blocked now q st"
  by (simp add: is_blocked_def path_eq_def)

lemma is_expired_mono: "is_expired r t \<Longrightarrow> t \<le> t' \<Longrightarrow> is_expired r t'"
  by (auto simp: is_expired_def split: option.splits)

lemma is_blocked_antimono: "is_blocked t' p st \<Longrightarrow> t \<le> t' \<Longrightarrow> is_blocked t p st"
  by (auto simp: is_blocked_def list_ex_iff dest: is_expired_mono)

lemma reap_locked_blocked: "is_blocked now p (snd (reap_locked now st)) = is_blocked now p st"
  by (auto simp: is_blocked_def reap_locked_def list_ex_iff)

lemma reap_locked_blocked_later:
  assumes "now \<le> later"
  shows "is_blocked later p (snd (reap_locked now st)) = is_blocked later p st"
  using assms by (auto simp: is_blocked_def reap_locked_def list_ex_iff dest: is_expired_mono)

subsection \<open>Loading and saving\<close>

lemma load_rules: "in_rules (load d now p (Inr text)) =
    (case d text of Some pd \<Rightarrow> filter (\<lambda>r. \<not> is_expired r now) (p_rules pd) | None \<Rightarrow> [])"
  by (auto simp: load_def Let_def split: option.splits)

lemma load_empty:
  "load d now p (Inl e) = \<lparr>in_next_id = 1, in_rules = [], in_path = p\<rparr>"
  "d text = None \<Longrightarrow> load d now p (Inr text) = \<lparr>in_next_id = 1, in_rules = [], in_path = p\<rparr>"
  by (cases e; simp add: load_def max_id_def) (simp add: load_def max_id_def)

text \<open>Loading what a well-formed store wrote keeps its id counter: it is above every id.\<close>

lemma max_id_below:
  assumes "\<forall>r \<in> set rs. r_id r < n" "n \<noteq> 0"
  shows "max n (max_id rs + 1) = n"
proof -
  have "max_id rs < n"
    using max_id_zero_or_mem [of rs] assms by (auto simp: word_neq_0_conv)
  then have "max_id rs + 1 \<le> n" by (rule inc_le)
  then show ?thesis by simp
qed

lemma load_saved:
  assumes "store_wf st" "in_next_id st \<noteq> 0" "d text = Some \<lparr>p_next_id = in_next_id st, p_rules = in_rules st\<rparr>"
  shows "load d now (in_path st) (Inr text) = snd (reap_locked now st)"
  using assms max_id_below [of "filter (\<lambda>r. \<not> is_expired r now) (in_rules st)" "in_next_id st"]
  by (simp add: load_def reap_locked_def store_wf_def)

lemma load_wf:
  assumes "case d text of Some pd \<Rightarrow> distinct (map r_id (p_rules pd)) \<and> distinct (map key_of (p_rules pd)) \<and>
      (\<forall>r \<in> set (p_rules pd). r_id r \<noteq> - 1) | None \<Rightarrow> True"
  shows "store_wf (load d now p (Inr text))"
proof (cases "d text")
  case (Some pd)
  let ?rs = "filter (\<lambda>r. \<not> is_expired r now) (p_rules pd)"
  have "r_id r < max (p_next_id pd) (max_id ?rs + 1)" if r: "r \<in> set ?rs" for r
  proof -
    have "max_id ?rs \<noteq> - 1"
      using max_id_zero_or_mem [of ?rs] assms Some r by auto
    then have "max_id ?rs < max_id ?rs + 1" by (rule word_less_self_succ)
    then have "r_id r < max_id ?rs + 1" using max_id_ge [OF r] by (rule order_le_less_trans [rotated])
    then show ?thesis by (simp add: less_max_iff_disj)
  qed
  with assms Some show ?thesis
    by (simp add: load_def store_wf_def distinct_map_filter Let_def)
qed (simp add: load_empty store_wf_def)

subsection \<open>Runs of the store\<close>

datatype StoreOp = OpAdd time RuleInput | OpRemove u64 | OpReap time

fun store_step :: "chrono \<Rightarrow> StoreOp \<Rightarrow> Inner \<Rightarrow> Inner" where
  "store_step ch (OpAdd now input) st =
     (case add_locked ch now input st of None \<Rightarrow> st | Some (_, st') \<Rightarrow> st')"
| "store_step ch (OpRemove i) st = snd (remove_locked i st)"
| "store_step ch (OpReap now) st = snd (reap_locked now st)"

text \<open>The ids a run hands out, in order.\<close>

fun store_ids :: "chrono \<Rightarrow> StoreOp list \<Rightarrow> Inner \<Rightarrow> u64 list" where
  "store_ids ch [] st = []"
| "store_ids ch (x # xs) st =
     (case x of
        OpAdd now input \<Rightarrow>
          (case add_locked ch now input st of None \<Rightarrow> [] | Some (rule, _) \<Rightarrow> [r_id rule])
      | _ \<Rightarrow> []) @ store_ids ch xs (store_step ch x st)"

definition store_budget :: "nat \<Rightarrow> Inner \<Rightarrow> bool" where
  "store_budget n st \<longleftrightarrow> store_wf st \<and> unat (in_next_id st) + n < 2 ^ 64"

lemma unat_max_u64: "unat (- 1 :: u64) = 2 ^ 64 - 1"
  by (simp add: unsigned_minus_1_eq_mask mask_eq_exp_minus_1)

lemma sint_u64:
  "sint (t :: u64) = (if unat t < 2 ^ 63 then int (unat t) else int (unat t) - 2 ^ 64)"
proof -
  have u: "uint t < 2 ^ 64" using uint_lt2p [of t] by simp
  have n: "int (unat t) = uint t" by simp
  have m: "unat t < 2 ^ 63 \<longleftrightarrow> uint t < 2 ^ 63"
  proof -
    have "unat t < 2 ^ 63 \<longleftrightarrow> int (unat t) < int (2 ^ 63)" by (rule of_nat_less_iff [symmetric])
    then show ?thesis by (simp only: n of_nat_power of_nat_numeral)
  qed
  show ?thesis
  proof (cases "uint t < 2 ^ 63")
    case True
    then have "signed_take_bit 63 (uint t) = uint t"
      by (intro signed_take_bit_int_eq_self) (use uint_ge_0 [of t] in linarith, simp)
    then show ?thesis using True m by (simp add: sint_uint)
  next
    case False
    then have "uint t div 2 ^ 63 = 1" using u by (simp add: div_pos_geq)
    then have "bit (uint t) 63" by (simp add: bit_iff_odd)
    moreover have "take_bit 64 (uint t) = uint t"
      using u by (simp add: take_bit_int_eq_self_iff)
    ultimately show ?thesis
      using False m by (simp add: sint_uint signed_take_bit_eq_take_bit_minus)
  qed
qed

lemma expiry_ok:
  assumes "chrono_ok ch"
  shows "\<bar>sint t\<bar> \<le> 9223372036854775 \<Longrightarrow>
      expiry ch now (Some t) = Some (checked_add_signed ch now (sint t * 1000000000))"
    and "\<bar>sint t\<bar> > 9223372036854775 \<Longrightarrow> expiry ch now (Some t) = None"
    and "checked_add_signed ch now d = Some e \<Longrightarrow> e = now + d"
  using assms by (simp_all add: chrono_ok_def expiry_def)

lemma budget_not_max: "store_budget (Suc n) st \<Longrightarrow> in_next_id st \<noteq> - 1"
  by (auto simp: store_budget_def unat_max_u64)

lemma remove_locked_next_id [frame_simps]: "in_next_id (snd (remove_locked i st)) = in_next_id st"
  by (simp add: remove_locked_def split: option.split)

lemma reap_locked_next_id [frame_simps]: "in_next_id (snd (reap_locked now st)) = in_next_id st"
  by (simp add: reap_locked_def)

lemma store_step_next_id:
  assumes "store_budget (Suc n) st"
  shows "in_next_id st \<le> in_next_id (store_step ch x st) \<and>
    unat (in_next_id (store_step ch x st)) \<le> Suc (unat (in_next_id st))"
proof (cases x)
  case (OpAdd now input)
  have "in_next_id st \<noteq> - 1" using assms by (rule budget_not_max)
  with OpAdd show ?thesis
    by (auto simp: add_locked_Some unat_succ intro: less_imp_le [OF word_less_self_succ] split: option.split)
qed (auto simp: frame_simps)

lemma store_budget_step: "store_budget (Suc n) st \<Longrightarrow> store_budget n (store_step ch x st)"
proof -
  assume b: "store_budget (Suc n) st"
  then have "in_next_id st \<noteq> - 1" by (rule budget_not_max)
  with b have "store_wf (store_step ch x st)"
    by (cases x) (auto simp: store_budget_def inv_intros split: option.split)
  with store_step_next_id [OF b, of ch x] b show ?thesis
    by (auto simp: store_budget_def)
qed

interpretation store: budgeted_machine "store_step ch" "\<lambda>_. True" store_budget for ch
  by unfold_locales (rule store_budget_step)

lemma store_ids_lower:
  "store_budget (n + length xs) st \<Longrightarrow> i \<in> set (store_ids ch xs st) \<Longrightarrow> in_next_id st \<le> i"
proof (induction xs arbitrary: st)
  case (Cons x xs)
  have b: "store_budget (n + length xs) (store_step ch x st)"
    using Cons.prems(1) by (auto intro: store_budget_step)
  have le: "in_next_id st \<le> in_next_id (store_step ch x st)"
    using Cons.prems(1) store_step_next_id by auto
  from Cons.prems(2) show ?case
    using Cons.IH [OF b] le
    by (auto simp: add_locked_Some split: StoreOp.splits option.splits dest: order_trans)
qed simp

lemma store_ids_sorted: "store_budget (n + length xs) st \<Longrightarrow> sorted_wrt (<) (store_ids ch xs st)"
proof (induction xs arbitrary: st)
  case (Cons x xs)
  have b: "store_budget (n + length xs) (store_step ch x st)"
    using Cons.prems(1) by (auto intro: store_budget_step)
  have "in_next_id st \<noteq> - 1"
    using Cons.prems(1) budget_not_max [of "n + length xs"] by simp
  then have "in_next_id st < in_next_id st + 1" by (rule word_less_self_succ)
  then have "in_next_id st < i"
    if "i \<in> set (store_ids ch xs (store_step ch x st))"
      "in_next_id st + 1 \<le> in_next_id (store_step ch x st)" for i
    using store_ids_lower [OF b that(1)] that(2) by (meson order_less_le_trans)
  moreover have "r_id rule = in_next_id st \<and> in_next_id st' = in_next_id st + 1"
    if "add_locked ch now input st = Some (rule, st')" for now input rule st'
    using that by (auto simp: add_locked_Some)
  ultimately show ?case
    using Cons.IH [OF b] by (cases x) (auto split: option.splits)
qed simp

section \<open>Properties\<close>

text \<open>A concrete \<open>chrono\<close> and a small store for the witnesses.\<close>

definition demo_chrono :: chrono where
  "demo_chrono = \<lparr>
     duration_seconds = (\<lambda>s. if \<bar>s\<bar> \<le> 9223372036854775 then Some (s * 1000000000) else None),
     checked_add_signed = (\<lambda>t d. Some (t + d))\<rparr>"

definition demo_rule :: "u64 \<Rightarrow> path \<Rightarrow> RuleAction \<Rightarrow> time option \<Rightarrow> Rule" where
  "demo_rule i exe a e = \<lparr>r_id = i, r_name = ''app'', r_exe_path = exe, r_action = a,
     r_persistent = False, r_expires_at = e, r_profile = ''default'', r_updated_at = 0\<rparr>"

definition demo_input :: "path \<Rightarrow> RuleAction \<Rightarrow> u64 option \<Rightarrow> RuleInput" where
  "demo_input exe a ttl = \<lparr>i_name = ''app'', i_exe_path = exe, i_action = a,
     i_persistent = False, i_ttl_secs = ttl\<rparr>"

definition demo_store :: Inner where
  "demo_store = \<lparr>in_next_id = 3,
     in_rules = [demo_rule 1 ''/bin/a'' Block None, demo_rule 2 ''/bin/b'' Block (Some 50)],
     in_path = ''/etc/r.json''\<rparr>"

definition all_ok :: fs_outcome where
  "all_ok = \<lparr>fo_mkdir = True, fo_write = WriteOk, fo_rename = True\<rparr>"

lemma demo_chrono_ok: "chrono_ok demo_chrono"
  by (simp add: chrono_ok_def demo_chrono_def)

lemma demo_components [simp]:
  "components ''/bin/a'' = [RootDir, Normal ''bin'', Normal ''a'']"
  "components ''/bin/b'' = [RootDir, Normal ''bin'', Normal ''b'']"
  "components ''/bin//a'' = [RootDir, Normal ''bin'', Normal ''a'']"
  "components ''/etc/r.json'' = [RootDir, Normal ''etc'', Normal ''r.json'']"
  by (simp_all add: components_def segments_def is_absolute_def SLASH_def component_of_def)

lemma demo_store_wf [simp]: "store_wf demo_store"
  by (simp add: store_wf_def demo_store_def demo_rule_def key_of_def)

text \<open>C9: Adding a rule updates the index of rules at exactly the rule's executable (up to
  path equality) and action, whatever was there before; the rule gets a fresh id, the
  store stays well-formed, and the new state is what is written to disk.\<close>

theorem rules_add_refines:
  assumes "add ch to_json fo now input (st, dk) = Some (rule, st', dk')"
    and "store_wf st" and "in_next_id st \<noteq> - 1"
  shows "store_wf st' \<and>
    key_of rule = (components (i_exe_path input), i_action input) \<and>
    rule_index st' = (rule_index st)(key_of rule \<mapsto> rule) \<and>
    r_id rule \<notin> r_id ` set (in_rules st) \<and>
    dk' = save_locked to_json fo st' dk"
proof -
  have a: "add_locked ch now input st = Some (rule, st')" and "dk' = save_locked to_json fo st' dk"
    using assms(1) by (auto simp: add_def split: option.splits)
  then show ?thesis
    using assms(2,3) add_locked_wf [OF a] add_locked_index [OF a] add_locked_fresh [OF a]
    by (auto simp: add_locked_Some)
qed

theorem rules_add_refines_witness:
  "\<exists>rule st'. add demo_chrono (\<lambda>_. None) all_ok 7 (demo_input ''/bin//a'' Block None) (demo_store, Map.empty)
      = Some (rule, st', Map.empty) \<and> rule_index st' = (rule_index demo_store)(key_of rule \<mapsto> rule)"
proof -
  let ?i = "demo_input ''/bin//a'' Block None"
  obtain rule st' where a: "add demo_chrono (\<lambda>_. None) all_ok 7 ?i (demo_store, Map.empty) = Some (rule, st', Map.empty)"
    by (simp add: add_def add_locked_def expiry_def demo_input_def Let_def save_locked_def)
  have "in_next_id demo_store \<noteq> - 1" by (simp add: demo_store_def)
  from rules_add_refines [OF a demo_store_wf this] a show ?thesis by blast
qed

text \<open>What adding a rule does to blocking, at any later instant: an executable equal (as a
  path) to the rule's is blocked iff the rule blocks and has not expired, replacing an
  earlier block; an allow rule and every other executable leave the answer as it was.\<close>

theorem rules_add_blocking:
  assumes "add_locked ch now input st = Some (rule, st')" and "store_wf st"
  shows "is_blocked t p st' \<longleftrightarrow>
    (if i_action input = Block \<and> path_eq p (i_exe_path input) then \<not> is_expired rule t
     else is_blocked t p st)"
proof -
  have "store_wf st' \<or> in_next_id st = - 1"
    using add_locked_wf [OF assms] by blast
  have rs: "in_rules st' = filter (\<lambda>r. key_of r \<noteq> key_of rule) (in_rules st) @ [rule]"
    and k: "r_action rule = i_action input" "r_exe_path rule = i_exe_path input"
    using assms(1) by (auto simp: add_locked_Some)
  show ?thesis
    unfolding is_blocked_def rs list_ex_iff
    using k by (auto simp: key_of_def path_eq_def)
qed

theorem rules_add_blocking_witness:
  "\<exists>rule st'. add_locked demo_chrono 7 (demo_input ''/bin//a'' Block (Some 2)) demo_store = Some (rule, st') \<and>
     is_blocked 8 ''/bin/a'' st' \<and> \<not> is_blocked 2000000007 ''/bin/a'' st'"
proof -
  let ?i = "demo_input ''/bin//a'' Block (Some 2)"
  obtain rule st' where a: "add_locked demo_chrono 7 ?i demo_store = Some (rule, st')"
      and e: "r_expires_at rule = Some 2000000007"
    by (auto simp: add_locked_def expiry_def demo_input_def demo_chrono_def Let_def)
  note b = rules_add_blocking [OF a demo_store_wf, of _ "''/bin/a''"]
  have "is_blocked 8 ''/bin/a'' st'" "\<not> is_blocked 2000000007 ''/bin/a'' st'"
    using b [of 8] b [of 2000000007] e
    by (simp_all add: demo_input_def path_eq_def is_expired_def)
  with a show ?thesis by blast
qed

text \<open>C13: Removing by id takes exactly the rule with that id out of the index, keeps the store
  well-formed and writes it; an unknown id changes neither the store nor the disk.\<close>

theorem rules_remove_refines:
  assumes "remove to_json fo i (st, dk) = (res, st', dk')" and "store_wf st"
  shows "store_wf st' \<and>
    (case res of
       None \<Rightarrow> i \<notin> r_id ` set (in_rules st) \<and> st' = st \<and> dk' = dk
     | Some r \<Rightarrow> r_id r = i \<and> r \<in> set (in_rules st) \<and>
         rule_index st' = (rule_index st)(key_of r := None) \<and>
         i \<notin> r_id ` set (in_rules st') \<and> dk' = save_locked to_json fo st' dk)"
proof (cases "remove_locked i st")
  case (Pair r st1)
  show ?thesis
  proof (cases r)
    case None
    with Pair assms remove_locked_None [of i st st1] show ?thesis
      by (auto simp: remove_def)
  next
    case (Some q)
    with Pair have l: "remove_locked i st = (Some q, st1)" by simp
    with assms(1) have *: "res = Some q" "st' = st1" "dk' = save_locked to_json fo st1 dk"
      by (auto simp: remove_def)
    with remove_locked_Some [OF l assms(2)] remove_locked_index [OF l assms(2)]
      remove_locked_wf [OF assms(2), of i] l show ?thesis
      by auto
  qed
qed

theorem rules_remove_refines_witness:
  "\<exists>st'. remove (\<lambda>_. None) all_ok 2 (demo_store, Map.empty) =
      (Some (demo_rule 2 ''/bin/b'' Block (Some 50)), st', Map.empty) \<and>
    rule_index st' = (rule_index demo_store)(([RootDir, Normal ''bin'', Normal ''b''], Block) := None)"
proof -
  let ?r = "demo_rule 2 ''/bin/b'' Block (Some 50)"
  obtain st' where r: "remove (\<lambda>_. None) all_ok 2 (demo_store, Map.empty) = (Some ?r, st', Map.empty)"
    by (simp add: remove_def remove_locked_def demo_store_def demo_rule_def save_locked_def)
  have "key_of ?r = ([RootDir, Normal ''bin'', Normal ''b''], Block)"
    by (simp add: demo_rule_def)
  with rules_remove_refines [OF r demo_store_wf] r show ?thesis by auto
qed

text \<open>C14: The reaper returns exactly the ids of the rules that have expired, removes exactly
  those, writes to disk only when there were any, and changes no answer about blocking at
  its own or any later instant.\<close>

theorem reap_exact:
  assumes "reap_expired to_json fo now (st, dk) = (ids, st', dk')"
  shows "ids = map r_id (filter (\<lambda>r. is_expired r now) (in_rules st)) \<and>
    in_rules st' = filter (\<lambda>r. \<not> is_expired r now) (in_rules st) \<and>
    in_next_id st' = in_next_id st \<and>
    dk' = (if ids = [] then dk else save_locked to_json fo st' dk) \<and>
    (now \<le> later \<longrightarrow> is_blocked later p st' = is_blocked later p st)"
proof -
  have *: "(ids, st') = reap_locked now st"
    "dk' = (if length (in_rules st') \<noteq> length (in_rules st) then save_locked to_json fo st' dk else dk)"
    using assms by (auto simp: reap_expired_def Let_def split: prod.splits)
  have "length (in_rules st') = length (in_rules st) \<longleftrightarrow> ids = []"
    using *(1) sum_length_filter_compl [of "\<lambda>r. is_expired r now" "in_rules st"]
    by (auto simp: reap_locked_def)
  with * reap_locked_blocked_later [of now later p st] show ?thesis
    by (auto simp: reap_locked_def)
qed

theorem reap_exact_witness:
  "\<exists>st'. reap_expired (\<lambda>_. None) all_ok 50 (demo_store, Map.empty) = ([2], st', Map.empty) \<and>
     in_rules st' = [demo_rule 1 ''/bin/a'' Block None]"
proof -
  obtain st' where r: "reap_expired (\<lambda>_. None) all_ok 50 (demo_store, Map.empty) = ([2], st', Map.empty)"
    by (simp add: reap_expired_def reap_locked_def demo_store_def demo_rule_def is_expired_def
        save_locked_def Let_def)
  with reap_exact [OF r] show ?thesis
    by (simp add: demo_store_def demo_rule_def is_expired_def)
qed

text \<open>C16: Saving is atomic: whichever system call fails, the rules file holds its old content
  or all of the new one, and apart from it only the temporary file beside it, which is a
  different file, can change.\<close>

theorem save_atomic:
  assumes "file_name (in_path st) \<noteq> None"
    and "save_locked to_json fo st dk = dk'"
  shows "(dk' (in_path st) = dk (in_path st) \<or>
      dk' (in_path st) = to_json \<lparr>p_next_id = in_next_id st, p_rules = in_rules st\<rparr>) \<and>
    with_extension ''json.tmp'' (in_path st) \<noteq> in_path st \<and>
    (q \<noteq> in_path st \<longrightarrow> q \<noteq> with_extension ''json.tmp'' (in_path st) \<longrightarrow> dk' q = dk q)"
proof -
  have "with_extension ''json.tmp'' (in_path st) \<noteq> in_path st"
    using assms(1) with_extension_neq by auto
  with assms(2) show ?thesis
    by (auto simp: save_locked_def Let_def split: option.splits write_outcome.splits if_splits)
qed

theorem save_atomic_witness:
  "save_locked (\<lambda>_. Some ''new'') \<lparr>fo_mkdir = True, fo_write = WriteFails (Some ''ne''), fo_rename = True\<rparr>
     demo_store [''/etc/r.json'' \<mapsto> ''old''] ''/etc/r.json'' = Some ''old''"
proof -
  let ?fo = "\<lparr>fo_mkdir = True, fo_write = WriteFails (Some ''ne''), fo_rename = True\<rparr>"
  have f: "file_name (in_path demo_store) \<noteq> None"
    by (simp add: demo_store_def file_name_def)
  have "save_locked (\<lambda>_. Some ''new'') ?fo demo_store [''/etc/r.json'' \<mapsto> ''old''] \<noteq> Map.empty"
    by (simp add: save_locked_def Let_def demo_store_def split: option.split)
  have w: "with_extension ''json.tmp'' ''/etc/r.json'' = ''/etc/r.json.tmp''"
    by (simp add: with_extension_def file_name_def file_stem_of_def segments_def SLASH_def Let_def)
  from save_atomic [OF f refl, of "\<lambda>_. Some ''new''" ?fo "[''/etc/r.json'' \<mapsto> ''old'']"] show ?thesis
    by (auto simp: save_locked_def demo_store_def Let_def w)
qed


text \<open>Restarting the daemon: loading the file that a save wrote gives the store back
  with its id counter, less the rules that expired in between; a rule without an expiry
  survives whether it was declared persistent or not.\<close>

theorem rules_restart:
  assumes "store_wf st" and "in_next_id st \<noteq> 0"
    and "to_json \<lparr>p_next_id = in_next_id st, p_rules = in_rules st\<rparr> = Some text"
    and "from_json text = Some \<lparr>p_next_id = in_next_id st, p_rules = in_rules st\<rparr>"
    and "save to_json all_ok (st, dk) (in_path st) = Some text'"
  shows "load from_json now (in_path st) (Inr text') = snd (reap_locked now st) \<and>
    (\<forall>r \<in> set (in_rules st). r_expires_at r = None \<longrightarrow>
       r \<in> set (in_rules (load from_json now (in_path st) (Inr text'))))"
proof -
  have "text' = text"
    using assms(3,5) by (simp add: save_def save_locked_def all_ok_def Let_def)
  with load_saved [of st from_json "text" now] assms(1,2,4) show ?thesis
    by (auto simp: reap_locked_def is_expired_def)
qed

theorem rules_restart_witness:
  "\<exists>to_json from_json text. save to_json all_ok (demo_store, Map.empty) ''/etc/r.json'' = Some text \<and>
     in_rules (load from_json 50 ''/etc/r.json'' (Inr text)) = [demo_rule 1 ''/bin/a'' Block None]"
proof -
  let ?pd = "\<lparr>p_next_id = in_next_id demo_store, p_rules = in_rules demo_store\<rparr>"
  have p: "in_path demo_store = ''/etc/r.json''" by (simp add: demo_store_def)
  have w: "save (\<lambda>_. Some ''{}'') all_ok (demo_store, Map.empty) (in_path demo_store) = Some ''{}''"
    by (simp add: save_def save_locked_def all_ok_def Let_def)
  have n: "in_next_id demo_store \<noteq> 0" by (simp add: demo_store_def)
  have l: "load (\<lambda>_. Some ?pd) 50 (in_path demo_store) (Inr ''{}'') = snd (reap_locked 50 demo_store)"
    using rules_restart [OF demo_store_wf n, of "\<lambda>_. Some ''{}''" "''{}''" "\<lambda>_. Some ?pd" Map.empty "''{}''" 50] w
    by simp
  have "in_rules (snd (reap_locked 50 demo_store)) = [demo_rule 1 ''/bin/a'' Block None]"
    by (simp add: reap_locked_def demo_store_def demo_rule_def is_expired_def)
  then have "in_rules (load (\<lambda>_. Some ?pd) 50 ''/etc/r.json'' (Inr ''{}'')) = [demo_rule 1 ''/bin/a'' Block None]"
    by (simp only: l [unfolded p])
  with w [unfolded p] show ?thesis by (intro exI conjI)
qed

text \<open>What a requested lifetime becomes.  Up to the largest duration \<open>chrono\<close> can hold the
  rule expires that many seconds from now, or never when the date overflows; above it the
  request panics; and a lifetime of nearly \<open>2 ^ 64\<close> seconds is read as negative, so the
  rule has expired before it is stored.\<close>

theorem rules_ttl:
  assumes "chrono_ok ch"
  shows "(unat t \<le> 9223372036854775 \<longrightarrow>
      expiry ch now (Some t) = Some (checked_add_signed ch now (int (unat t) * 1000000000)) \<and>
      (\<forall>e. expiry ch now (Some t) = Some (Some e) \<longrightarrow> e = now + int (unat t) * 1000000000)) \<and>
    (9223372036854775 < unat t \<and> unat t < 2 ^ 64 - 9223372036854775 \<longrightarrow>
      expiry ch now (Some t) = None) \<and>
    (2 ^ 64 - 9223372036854775 \<le> unat t \<longrightarrow>
      (\<forall>e. expiry ch now (Some t) = Some (Some e) \<longrightarrow> e < now)) \<and>
    expiry ch now None = Some None"
proof -
  note c = expiry_ok [OF assms]
  have u: "unat t < 2 ^ 64" using unsigned_less [of t] by simp
  have "expiry ch now (Some t) = Some (checked_add_signed ch now (int (unat t) * 1000000000)) \<and>
      (\<forall>e. expiry ch now (Some t) = Some (Some e) \<longrightarrow> e = now + int (unat t) * 1000000000)"
    if "unat t \<le> 9223372036854775"
  proof -
    have s: "sint t = int (unat t)" "\<bar>int (unat t)\<bar> \<le> 9223372036854775"
      using that by (simp_all add: sint_u64 del: of_nat_unat)
    from c(1) [of t now] c(3) [of now "int (unat t) * 1000000000"] show ?thesis
      unfolding s(1) using s(2) by simp
  qed
  moreover have "expiry ch now (Some t) = None"
    if "9223372036854775 < unat t" "unat t < 2 ^ 64 - 9223372036854775"
    using that by (intro c(2)) (simp add: sint_u64 del: of_nat_unat)
  moreover have "e < now"
    if "2 ^ 64 - 9223372036854775 \<le> unat t" "expiry ch now (Some t) = Some (Some e)" for e
  proof -
    have s: "\<bar>sint t\<bar> \<le> 9223372036854775" "sint t < 0"
      using that(1) u by (simp_all add: sint_u64 del: of_nat_unat)
    with c(1) [of t now] that(2) have "checked_add_signed ch now (sint t * 1000000000) = Some e"
      by simp
    from c(3) [OF this] s(2) show ?thesis by linarith
  qed
  moreover have "expiry ch now None = Some None" by (simp add: expiry_def)
  ultimately show ?thesis by blast
qed

theorem rules_ttl_witness:
  "expiry demo_chrono 5 (Some 60) = Some (Some 60000000005) \<and>
   expiry demo_chrono 5 (Some 9223372036854776) = None \<and>
   (\<exists>e. expiry demo_chrono 5 (Some (- 1)) = Some (Some e) \<and> e < 5)"
proof -
  note t = rules_ttl [OF demo_chrono_ok, of _ 5]
  have "unat (60 :: u64) \<le> 9223372036854775" by simp
  then have "expiry demo_chrono 5 (Some 60) =
      Some (checked_add_signed demo_chrono 5 (int (unat (60 :: u64)) * 1000000000))"
    using conjunct1 [OF t] by blast
  then have a: "expiry demo_chrono 5 (Some 60) = Some (Some 60000000005)"
    by (simp add: demo_chrono_def)
  have "9223372036854775 < unat (9223372036854776 :: u64) \<and>
      unat (9223372036854776 :: u64) < 2 ^ 64 - 9223372036854775" by simp
  then have b: "expiry demo_chrono 5 (Some 9223372036854776) = None"
    using conjunct1 [OF conjunct2 [OF t]] by blast
  have e: "expiry demo_chrono 5 (Some (- 1)) = Some (Some (- 999999995))"
    by (simp add: expiry_def demo_chrono_def)
  with a b show ?thesis by simp
qed

text \<open>C15: Over any sequence of operations that the id counter has room for, the store stays
  well-formed (one rule per executable and action, distinct ids below the counter) and
  the ids handed out are strictly increasing, so no id is ever used twice.\<close>

theorem rules_run:
  assumes "store_budget (length ops) st"
  shows "store_wf (fold (store_step ch) ops st) \<and> sorted_wrt (<) (store_ids ch ops st) \<and>
    (\<forall>i \<in> set (store_ids ch ops st). i \<notin> r_id ` set (in_rules st))"
proof -
  have b: "store_budget (0 + length ops) st" using assms by simp
  from store.inv_run [OF this, of ch] have "store_wf (fold (store_step ch) ops st)"
    by (simp add: store_budget_def list_all_iff)
  moreover have "i \<notin> r_id ` set (in_rules st)" if "i \<in> set (store_ids ch ops st)" for i
    using store_ids_lower [OF b that] assms by (auto simp: store_budget_def store_wf_def)
  ultimately show ?thesis using store_ids_sorted [OF b] by blast
qed

theorem rules_run_witness:
  "store_ids demo_chrono [OpAdd 7 (demo_input ''/bin/a'' Block None), OpRemove 2, OpReap 60,
     OpAdd 9 (demo_input ''/bin/b'' Allow None)] demo_store = [3, 4] \<and>
   sorted_wrt (<) [3, 4 :: u64]"
proof -
  let ?ops = "[OpAdd 7 (demo_input ''/bin/a'' Block None), OpRemove 2, OpReap 60,
     OpAdd 9 (demo_input ''/bin/b'' Allow None)]"
  have b: "store_budget (length ?ops) demo_store"
    by (simp add: store_budget_def) (simp add: demo_store_def)
  have e: "store_ids demo_chrono ?ops demo_store = [3, 4]"
    by (simp add: add_locked_def expiry_def demo_input_def Let_def demo_store_def demo_rule_def
        same_target_def path_eq_def remove_locked_def reap_locked_def is_expired_def)
  from rules_run [OF b, of demo_chrono] show ?thesis unfolding e by blast
qed

end
