(* ===== verification/Attrib.thy ===== *)
theory Attrib
  imports CoreTypes RustMap Machines
begin

text \<open>
  Flow to process attribution (\<open>crates/daemon/src/attrib.rs\<close>).  The proc file system is an
  input, and since it changes while the code reads it, each of the three reads of a lookup
  has a snapshot of its own: the socket tables, the fd directory of the cached process, and
  the scan of all processes.  A directory is \<^term>\<open>None\<close> when it cannot be opened, and
  lists a link's target or \<^term>\<open>None\<close> when the link cannot be read or is not UTF-8.
\<close>

section \<open>Definitions\<close>

type_synonym fd_dir = "string option list option"

record proc_env =
  pe_net :: "string \<Rightarrow> string option"
  pe_fds :: "u32 \<Rightarrow> fd_dir"
  pe_procs :: "(string option \<times> fd_dir) list option"

record Attributor =
  at_inode_to_pid :: "(u64, u32) hashmap"

definition attributor_new :: Attributor where
  "attributor_new = \<lparr>at_inode_to_pid = []\<rparr>"

definition parse_proc_net_line :: "string \<Rightarrow> (u16 \<times> u16 \<times> u64) option" where
  "parse_proc_net_line line =
     (let fields = split_whitespace line in
      if length fields < 10 \<or> \<not> ends_with_char CHR '':'' (fields ! 0) then None
      else do {
        local_port \<leftarrow> parse_hex (last (split_on CHR '':'' (fields ! 1)));
        remote_port \<leftarrow> parse_hex (last (split_on CHR '':'' (fields ! 2)));
        inode \<leftarrow> parse_uint (fields ! 9);
        if inode = 0 then None else Some (local_port, remote_port, inode)
      })"

definition socket_files :: "Protocol \<Rightarrow> string list" where
  "socket_files proto =
     (case proto of
        Tcp \<Rightarrow> [''/proc/net/tcp'', ''/proc/net/tcp6'']
      | Udp \<Rightarrow> [''/proc/net/udp'', ''/proc/net/udp6'']
      | OtherProto \<Rightarrow> [])"

fun find_in_lines :: "u16 \<Rightarrow> string list \<Rightarrow> u64 option" where
  "find_in_lines local_port [] = None"
| "find_in_lines local_port (l # ls) =
     (case parse_proc_net_line l of
        Some (port, _, inode) \<Rightarrow> if port = local_port then Some inode else find_in_lines local_port ls
      | None \<Rightarrow> find_in_lines local_port ls)"

fun find_in_files :: "(string \<Rightarrow> string option) \<Rightarrow> u16 \<Rightarrow> string list \<Rightarrow> u64 option" where
  "find_in_files net local_port [] = None"
| "find_in_files net local_port (f # fs) =
     (case net f of
        None \<Rightarrow> find_in_files net local_port fs
      | Some s \<Rightarrow>
          (case find_in_lines local_port (lines s) of
             Some inode \<Rightarrow> Some inode
           | None \<Rightarrow> find_in_files net local_port fs))"

definition find_socket_inode :: "(string \<Rightarrow> string option) \<Rightarrow> Protocol \<Rightarrow> u16 \<Rightarrow> u64 option" where
  "find_socket_inode net proto local_port = find_in_files net local_port (socket_files proto)"

definition socket_inode_of :: "string \<Rightarrow> u64 option" where
  "socket_inode_of target = do {
     rest \<leftarrow> strip_prefix ''socket:['' target;
     inner \<leftarrow> strip_suffix_char CHR '']'' rest;
     parse_uint inner
   }"

text \<open>The loop bodies of \<open>collect_pid_sockets\<close> and \<open>scan_proc_fds\<close>.\<close>

definition fd_step :: "u32 \<Rightarrow> string option \<Rightarrow> (u64, u32) hashmap \<Rightarrow> (u64, u32) hashmap" where
  "fd_step pid target m = (case target of
      None \<Rightarrow> m
    | Some s \<Rightarrow> (case socket_inode_of s of None \<Rightarrow> m | Some inode \<Rightarrow> AList.update inode pid m))"

definition collect_pid_sockets :: "u32 \<Rightarrow> fd_dir \<Rightarrow> (u64, u32) hashmap \<Rightarrow> (u64, u32) hashmap" where
  "collect_pid_sockets pid fds m =
     (case fds of None \<Rightarrow> m | Some targets \<Rightarrow> fold (fd_step pid) targets m)"

definition scan_step :: "string option \<times> fd_dir \<Rightarrow> (u64, u32) hashmap \<Rightarrow> (u64, u32) hashmap" where
  "scan_step e m = (case e of (name, fds) \<Rightarrow> (case name of
      None \<Rightarrow> m
    | Some s \<Rightarrow> (case parse_uint s of None \<Rightarrow> m | Some pid \<Rightarrow> collect_pid_sockets pid fds m)))"

definition scan_proc_fds :: "(string option \<times> fd_dir) list option \<Rightarrow> (u64, u32) hashmap" where
  "scan_proc_fds entries = (case entries of None \<Rightarrow> [] | Some es \<Rightarrow> fold scan_step es [])"

definition refresh :: "proc_env \<Rightarrow> Attributor \<Rightarrow> Attributor" where
  "refresh env at = at\<lparr>at_inode_to_pid := scan_proc_fds (pe_procs env)\<rparr>"

definition pid_owns_inode :: "proc_env \<Rightarrow> u32 \<Rightarrow> u64 \<Rightarrow> bool" where
  "pid_owns_inode env pid inode =
     (case pe_fds env pid of
        None \<Rightarrow> False
      | Some fds \<Rightarrow>
          list_ex (\<lambda>t. case t of Some s \<Rightarrow> socket_inode_of s = Some inode | None \<Rightarrow> False) fds)"

definition lookup :: "proc_env \<Rightarrow> Protocol \<Rightarrow> u16 \<Rightarrow> Attributor \<Rightarrow> u32 option \<times> Attributor" where
  "lookup env proto local_port at =
     (case find_socket_inode (pe_net env) proto local_port of
        None \<Rightarrow> (None, at)
      | Some inode \<Rightarrow>
          (case map_of (at_inode_to_pid at) inode of
             Some pid \<Rightarrow>
               if pid_owns_inode env pid inode then (Some pid, at)
               else (let at = refresh env at in (map_of (at_inode_to_pid at) inode, at))
           | None \<Rightarrow> (let at = refresh env at in (map_of (at_inode_to_pid at) inode, at))))"

section \<open>Specification\<close>

text \<open>A directory holds a socket; a process was seen holding it in the scan.\<close>

definition holds :: "fd_dir \<Rightarrow> u64 \<Rightarrow> bool" where
  "holds fds inode \<longleftrightarrow> (\<exists>ts s. fds = Some ts \<and> Some s \<in> set ts \<and> socket_inode_of s = Some inode)"

definition seen_holding :: "(string option \<times> fd_dir) list option \<Rightarrow> u64 \<Rightarrow> u32 \<Rightarrow> bool" where
  "seen_holding entries inode pid \<longleftrightarrow>
     (\<exists>es name fds. entries = Some es \<and> (Some name, fds) \<in> set es \<and>
        parse_uint name = Some pid \<and> holds fds inode)"

section \<open>Lemmas\<close>

lemma pid_owns_inode_holds: "pid_owns_inode env pid inode \<longleftrightarrow> holds (pe_fds env pid) inode"
proof -
  have "(case t of Some s \<Rightarrow> socket_inode_of s = Some inode | None \<Rightarrow> False) \<longleftrightarrow>
      (\<exists>s. t = Some s \<and> socket_inode_of s = Some inode)" for t
    by (cases t) auto
  then show ?thesis
    by (auto simp: pid_owns_inode_def holds_def list_ex_iff split: option.split)
qed

subsection \<open>The socket tables\<close>

lemma find_in_lines_Some:
  "find_in_lines p ls = Some inode \<Longrightarrow> \<exists>l \<in> set ls. \<exists>rp. parse_proc_net_line l = Some (p, rp, inode)"
  by (induction p ls rule: find_in_lines.induct) (fastforce split: option.splits if_splits)+

lemma find_in_lines_None:
  "find_in_lines p ls = None \<Longrightarrow> l \<in> set ls \<Longrightarrow> parse_proc_net_line l \<noteq> Some (p, rp, inode)"
proof (induction ls)
  case (Cons k ls)
  then show ?case by (cases "parse_proc_net_line k") (auto split: if_splits)
qed simp

lemma find_in_files_Some:
  "find_in_files net p fs = Some inode \<Longrightarrow>
     \<exists>f \<in> set fs. \<exists>s. net f = Some s \<and> (\<exists>l \<in> set (lines s). \<exists>rp. parse_proc_net_line l = Some (p, rp, inode))"
  by (induction net p fs rule: find_in_files.induct)
    (fastforce split: option.splits dest: find_in_lines_Some)+

lemma find_in_files_None:
  "find_in_files net p fs = None \<Longrightarrow> f \<in> set fs \<Longrightarrow> net f = Some s \<Longrightarrow> l \<in> set (lines s) \<Longrightarrow>
     parse_proc_net_line l \<noteq> Some (p, rp, inode)"
  by (induction net p fs rule: find_in_files.induct)
    (auto split: option.splits dest: find_in_lines_None)

subsection \<open>The scan\<close>

lemma fd_step_get:
  "map_of (fd_step pid target m) inode =
     (if \<exists>s. target = Some s \<and> socket_inode_of s = Some inode then Some pid else map_of m inode)"
  by (auto simp: fd_step_def update_conv' split: option.split)

lemma fold_fd_step_get:
  "map_of (fold (fd_step pid) ts m) inode =
     (if holds (Some ts) inode then Some pid else map_of m inode)"
proof (induction ts arbitrary: m)
  case (Cons t ts)
  show ?case unfolding fold_simps o_apply Cons.IH fd_step_get
    by (auto simp: holds_def)
qed (simp add: holds_def)

lemma collect_pid_sockets_get:
  "map_of (collect_pid_sockets pid fds m) inode = (if holds fds inode then Some pid else map_of m inode)"
  by (cases fds) (simp_all add: collect_pid_sockets_def fold_fd_step_get holds_def)

lemma scan_step_get:
  "map_of (scan_step e m) inode =
     (case e of (name, fds) \<Rightarrow>
       (case name of None \<Rightarrow> map_of m inode
        | Some s \<Rightarrow> (case parse_uint s of None \<Rightarrow> map_of m inode
          | Some pid \<Rightarrow> if holds fds inode then Some pid else map_of m inode)))"
  by (auto simp: scan_step_def collect_pid_sockets_get split: option.split prod.split)

lemma seen_holding_simps [simp]:
  "\<not> seen_holding None inode pid" "\<not> seen_holding (Some []) inode pid"
  by (simp_all add: seen_holding_def)

lemma seen_holding_Cons:
  "seen_holding (Some (e # es)) inode pid \<longleftrightarrow>
     (\<exists>name fds. e = (Some name, fds) \<and> parse_uint name = Some pid \<and> holds fds inode) \<or>
     seen_holding (Some es) inode pid"
  by (auto simp: seen_holding_def)

lemma scan_fold_sound:
  "map_of (fold scan_step es m) inode = Some pid \<Longrightarrow>
     seen_holding (Some es) inode pid \<or> map_of m inode = Some pid"
proof (induction es arbitrary: m)
  case (Cons e es)
  from Cons.prems Cons.IH [of "scan_step e m"]
  show ?case by (auto simp: seen_holding_Cons scan_step_get split: prod.splits option.splits if_splits)
qed simp

lemma scan_fold_complete:
  "seen_holding (Some es) inode pid \<or> map_of m inode \<noteq> None \<Longrightarrow>
     map_of (fold scan_step es m) inode \<noteq> None"
proof (induction es arbitrary: m)
  case (Cons e es)
  have "seen_holding (Some es) inode pid \<or> map_of (scan_step e m) inode \<noteq> None"
    using Cons.prems by (auto simp: seen_holding_Cons scan_step_get split: prod.splits option.splits)
  from Cons.IH [OF this] show ?case by simp
qed simp

lemma scan_sound: "map_of (scan_proc_fds entries) inode = Some pid \<Longrightarrow> seen_holding entries inode pid"
  using scan_fold_sound [of _ "[]" inode pid]
  by (auto simp: scan_proc_fds_def split: option.splits)

lemma scan_complete: "seen_holding entries inode pid \<Longrightarrow> map_of (scan_proc_fds entries) inode \<noteq> None"
proof (cases entries)
  case (Some es)
  assume "seen_holding entries inode pid"
  with Some scan_fold_complete [of es inode pid "[]"] show ?thesis
    by (simp add: scan_proc_fds_def)
qed simp

lemma fd_step_wf: "hm_wf m \<Longrightarrow> hm_wf (fold (fd_step pid) ts m)"
  by (induction ts arbitrary: m) (auto simp: fd_step_def distinct_update split: option.split)

lemma scan_step_wf: "hm_wf m \<Longrightarrow> hm_wf (fold scan_step es m)"
  by (induction es arbitrary: m)
    (auto simp: scan_step_def collect_pid_sockets_def fd_step_wf split: option.split)

lemma scan_wf: "hm_wf (scan_proc_fds entries)"
  by (simp add: scan_proc_fds_def scan_step_wf split: option.split)

text \<open>The cache keeps distinct keys whatever is looked up.\<close>

definition attrib_wf :: "Attributor \<Rightarrow> bool" where
  "attrib_wf at \<longleftrightarrow> hm_wf (at_inode_to_pid at)"

definition attrib_step :: "proc_env \<times> Protocol \<times> u16 \<Rightarrow> Attributor \<Rightarrow> Attributor" where
  "attrib_step q at = (case q of (env, proto, port) \<Rightarrow> snd (lookup env proto port at))"

interpretation attributor: machine attrib_step "\<lambda>_. True" attrib_wf
  by unfold_locales
    (auto simp: attrib_step_def lookup_def attrib_wf_def refresh_def scan_wf Let_def
      split: option.split)

lemma lookup_wf [inv_intros]: "attrib_wf at \<Longrightarrow> attrib_wf (snd (lookup env proto port at))"
  using attributor.step_inv [of at "(env, proto, port)"] by (simp add: attrib_step_def)

section \<open>Kernel output\<close>

text \<open>A row of \<open>/proc/net/tcp\<close> as the kernel prints it: addresses and ports in upper-case hex,
  ports with four digits.\<close>

definition upper_digit :: "nat \<Rightarrow> char" where
  "upper_digit d = (if d < 10 then char_of (48 + d) else char_of (55 + d))"

definition hex4 :: "u16 \<Rightarrow> string" where
  "hex4 w = (let n = unat w in
     map upper_digit [n div 4096, n div 256 mod 16, n div 16 mod 16, n mod 16])"

definition proc_net_row :: "nat \<Rightarrow> string \<Rightarrow> u16 \<Rightarrow> string \<Rightarrow> u16 \<Rightarrow> string list \<Rightarrow> u64 \<Rightarrow> string list \<Rightarrow> string" where
  "proc_net_row sl laddr lport raddr rport middle inode tail =
     '' '' @ join '' '' ((show_nat sl @ '':'') # (laddr @ '':'' @ hex4 lport) # (raddr @ '':'' @ hex4 rport) #
       middle @ show_uint inode # tail)"

lemma to_digit_upper: "d < 16 \<Longrightarrow> to_digit 16 (upper_digit d) = Some d"
  by (simp add: to_digit_def upper_digit_def Let_def of_char_of take_bit_eq_mod)

lemma upper_digit_not_plus: "d < 16 \<Longrightarrow> upper_digit d \<noteq> CHR ''+''"
proof
  assume "d < 16" "upper_digit d = CHR ''+''"
  then have "to_digit 16 (CHR ''+'') = Some d" using to_digit_upper by metis
  then show False by (simp add: to_digit_def split: if_splits)
qed

lemma parse_hex4: "parse_hex (hex4 w) = Some w"
proof -
  define n where "n = unat w"
  have n: "n < 65536" using unsigned_less [of w] by (simp add: n_def)
  define a b where "a = n div 16" and "b = a div 16"
  have d: "n div 256 = b" "n div 4096 = b div 16"
    by (simp_all add: a_def b_def flip: div_mult2_eq)
  have "b div 16 < 16" using n by (simp flip: d(2))
  then have "digits_val 16 0 (hex4 w) = Some (((b div 16 * 16 + b mod 16) * 16 + a mod 16) * 16 + n mod 16)"
    by (simp add: hex4_def Let_def to_digit_upper flip: n_def a_def) (simp add: d to_digit_upper)
  also have "b div 16 * 16 + b mod 16 = b" by simp
  also have "b * 16 + a mod 16 = a" by (simp add: b_def)
  also have "a * 16 + n mod 16 = n" by (simp add: a_def)
  finally have v: "digits_val 16 0 (hex4 w) = Some n" .
  have "hd (hex4 w) \<noteq> CHR ''+''" "hex4 w \<noteq> []"
    using n by (simp_all add: hex4_def Let_def upper_digit_not_plus flip: n_def)
  then have "(case hex4 w of [] \<Rightarrow> [] | c # cs \<Rightarrow> if c = CHR ''+'' then cs else hex4 w) = hex4 w"
    by (cases "hex4 w") auto
  with v n \<open>hex4 w \<noteq> []\<close> show ?thesis
    by (simp add: parse_hex_def from_str_radix_def Let_def n_def)
qed

lemma upper_digit_printable: "d < 16 \<Longrightarrow> printable (upper_digit d) \<and> upper_digit d \<noteq> CHR '':''"
  by (auto simp: printable_def upper_digit_def of_char_of take_bit_eq_mod char_of_eq_iff)

lemma hex4_chars: "c \<in> set (hex4 w) \<Longrightarrow> printable c \<and> c \<noteq> CHR '':''"
proof -
  have "unat w div 4096 < 16" using unsigned_less [of w] by (simp add: div_less_iff_less_mult)
  then show "c \<in> set (hex4 w) \<Longrightarrow> printable c \<and> c \<noteq> CHR '':''"
    by (auto simp: hex4_def Let_def upper_digit_printable)
qed

lemma split_whitespace_row:
  assumes "token laddr" "token raddr" "\<forall>t \<in> set (middle @ tail). token t"
  shows "split_whitespace (proc_net_row sl laddr lport raddr rport middle inode tail) =
    (show_nat sl @ '':'') # (laddr @ '':'' @ hex4 lport) # (raddr @ '':'' @ hex4 rport) #
      middle @ show_uint inode # tail" (is "_ = ?ts")
proof -
  have c: "printable CHR '':''" by (simp add: printable_def)
  have "token (show_nat sl @ '':'')" "token (laddr @ '':'' @ hex4 lport)" "token (raddr @ '':'' @ hex4 rport)"
    using assms c by (auto intro!: token_append dest: hex4_chars)
  with assms(3) have "split_whitespace (join '' '' ?ts) = ?ts"
    by (intro split_whitespace_join) auto
  then show ?thesis
    unfolding proc_net_row_def append_Cons append_Nil split_whitespace_space .
qed

lemma parse_proc_net_row:
  assumes "token laddr" "token raddr" "length middle = 6" "\<forall>t \<in> set (middle @ tail). token t"
  shows "parse_proc_net_line (proc_net_row sl laddr lport raddr rport middle inode tail) =
      (if inode = 0 then None else Some (lport, rport, inode))"
proof -
  have "CHR '':'' \<notin> set (hex4 w)" for w using hex4_chars by blast
  then have "last (split_on CHR '':'' (a @ '':'' @ hex4 w)) = hex4 w" for a w
    by (simp add: last_split_on)
  moreover have "((show_nat sl @ '':'') # (laddr @ '':'' @ hex4 lport) # (raddr @ '':'' @ hex4 rport) #
      middle @ show_uint inode # tail) ! 9 = show_uint inode"
    using assms(3) by (simp add: nth_Cons' nth_append)
  ultimately show ?thesis
    using assms(3) split_whitespace_row [OF assms(1,2,4)]
    by (simp add: parse_proc_net_line_def Let_def ends_with_char_def parse_hex4 parse_uint_show)
qed

lemma find_socket_inode_Some:
  assumes "find_socket_inode net proto p = Some inode"
  shows "\<exists>f \<in> set (socket_files proto). \<exists>s. net f = Some s \<and>
    (\<exists>l \<in> set (lines s). \<exists>rp. parse_proc_net_line l = Some (p, rp, inode))"
  using assms find_in_files_Some by (simp add: find_socket_inode_def)

section \<open>Properties\<close>

text \<open>A small proc file system for the witnesses: one TCP socket on port 80, held by 42.\<close>

definition demo_row :: string where
  "demo_row = proc_net_row 0 ''0100007F'' 80 ''00000000'' 0
     [''0A'', ''00000000:00000000'', ''00:00000000'', ''00000000'', ''1000'', ''0''] 777 [''1'']"

definition demo_env :: proc_env where
  "demo_env = \<lparr>
     pe_net = (\<lambda>f. if f = ''/proc/net/tcp'' then Some ''''
       else if f = ''/proc/net/tcp6'' then Some demo_row else None),
     pe_fds = (\<lambda>pid. None),
     pe_procs = Some [(Some ''self'', None), (Some ''42'', Some [None, Some ''/dev/null'', Some ''socket:[777]''])]\<rparr>"

lemma demo_find_inode: "find_socket_inode (pe_net demo_env) Tcp 80 = Some 777"
proof -
  have row: "parse_proc_net_line demo_row = Some (80, 0, 777)"
    unfolding demo_row_def by (subst parse_proc_net_row) (auto simp: token_def printable_def)
  have "lines demo_row = [demo_row]" unfolding demo_row_def by code_simp
  moreover have "lines '''' = []" by code_simp
  ultimately show ?thesis
    using row by (simp add: find_socket_inode_def socket_files_def demo_env_def)
qed

text \<open>What the kernel prints is what is read: a socket row gives its two ports and its
  inode, whatever the addresses and the other columns are (a row without an inode, as
  for a socket in TIME_WAIT, is skipped), and a socket link gives its inode.\<close>

theorem proc_net_row_read:
  assumes "token laddr" and "token raddr" and "length middle = 6"
    and "\<forall>t \<in> set (middle @ tail). token t"
  shows "parse_proc_net_line (proc_net_row sl laddr lport raddr rport middle inode tail) =
      (if inode = 0 then None else Some (lport, rport, inode)) \<and>
    socket_inode_of (''socket:['' @ show_uint inode @ '']'') = Some inode"
  using parse_proc_net_row [OF assms]
  by (simp add: socket_inode_of_def strip_prefix_def strip_suffix_char_def parse_uint_show)

theorem proc_net_row_read_witness:
  "parse_proc_net_line demo_row = Some (80, 0, 777) \<and>
   socket_inode_of ''socket:[777]'' = Some 777"
proof -
  have "show_uint (777 :: u64) = ''777''"
    by code_simp
  moreover have "parse_proc_net_line demo_row = Some (80, 0, 777) \<and>
      socket_inode_of (''socket:['' @ show_uint (777 :: u64) @ '']'') = Some 777"
    unfolding demo_row_def
    using proc_net_row_read [of "''0100007F''" "''00000000''"
        "[''0A'', ''00000000:00000000'', ''00:00000000'', ''00000000'', ''1000'', ''0'']" "[''1'']" 0 80 0 777]
    by (simp add: token_def printable_def)
  ultimately show ?thesis by simp
qed

text \<open>C21: A lookup never returns a stale process: the one it returns holds the socket's inode
  now (a cached process is checked) or was seen holding it in the scan just made, and the
  inode is that of a row of the protocol's tables with the local port.  If some process
  holds the inode in the scan, a process is found.\<close>

theorem lookup_sound_complete:
  assumes "lookup env proto port at = (res, at')"
  shows "(case res of
      None \<Rightarrow> (\<forall>inode pid. find_socket_inode (pe_net env) proto port = Some inode \<longrightarrow>
        \<not> seen_holding (pe_procs env) inode pid)
    | Some pid \<Rightarrow> (\<exists>inode.
        (\<exists>f \<in> set (socket_files proto). \<exists>s. pe_net env f = Some s \<and>
          (\<exists>l \<in> set (lines s). \<exists>rp. parse_proc_net_line l = Some (port, rp, inode))) \<and>
        (holds (pe_fds env pid) inode \<or> seen_holding (pe_procs env) inode pid)))"
proof (cases "find_socket_inode (pe_net env) proto port")
  case None
  with assms show ?thesis by (auto simp: lookup_def)
next
  case (Some inode)
  have r: "holds (pe_fds env pid) inode \<or> seen_holding (pe_procs env) inode pid" if "res = Some pid" for pid
    using assms Some that
    by (auto simp: lookup_def refresh_def Let_def pid_owns_inode_holds
        split: option.splits if_splits dest: scan_sound)
  have n: "\<not> seen_holding (pe_procs env) inode pid" if "res = None" for pid
    using assms Some that scan_complete [of "pe_procs env" inode pid]
    by (auto simp: lookup_def refresh_def Let_def split: option.splits if_splits)
  show ?thesis
  proof (cases res)
    case None
    with n Some show ?thesis by simp
  next
    case (Some pid)
    note f = find_socket_inode_Some [OF \<open>find_socket_inode (pe_net env) proto port = Some inode\<close>]
    show ?thesis unfolding Some option.case by (intro exI [of _ inode] conjI f r Some)
  qed
qed

theorem lookup_sound_complete_witness:
  "\<exists>at'. lookup demo_env Tcp 80 \<lparr>at_inode_to_pid = [(777, 9)]\<rparr> = (Some 42, at') \<and>
     (\<exists>inode. holds (pe_fds demo_env 42) inode \<or> seen_holding (pe_procs demo_env) inode 42)"
proof -
  have "find_socket_inode (pe_net demo_env) Tcp 80 = Some 777" by (rule demo_find_inode)
  moreover have "map_of (scan_proc_fds (pe_procs demo_env)) 777 = Some 42"
  proof -
    have "parse_uint ''42'' = Some (42 :: u32)"
    proof -
      have "show_uint (42 :: u32) = ''42''" by code_simp
      then show ?thesis by (metis parse_uint_show)
    qed
    moreover have "parse_uint ''777'' = Some (777 :: u64)"
    proof -
      have "show_uint (777 :: u64) = ''777''" by code_simp
      then show ?thesis by (metis parse_uint_show)
    qed
    then have "socket_inode_of ''socket:[777]'' = Some 777"
      by (simp add: socket_inode_of_def strip_prefix_def strip_suffix_char_def)
    moreover have "socket_inode_of ''/dev/null'' = None"
      by (simp add: socket_inode_of_def strip_prefix_def)
    moreover have "parse_uint ''self'' = (None :: u32 option)"
      by (simp add: parse_uint_def from_str_radix_def Let_def to_digit_def)
    ultimately show ?thesis
      by (simp add: demo_env_def scan_proc_fds_def scan_step_def collect_pid_sockets_def fd_step_def)
  qed
  moreover have "\<not> pid_owns_inode demo_env 9 777"
    by (simp add: pid_owns_inode_def demo_env_def)
  ultimately have l: "lookup demo_env Tcp 80 \<lparr>at_inode_to_pid = [(777, 9)]\<rparr> =
      (Some 42, refresh demo_env \<lparr>at_inode_to_pid = [(777, 9)]\<rparr>)"
    by (simp add: lookup_def refresh_def Let_def)
  from lookup_sound_complete [OF l] l show ?thesis by auto
qed

end
