(* ===== verification/Procs.thy ===== *)
theory Procs
  imports CoreTypes RustMap Machines
begin

text \<open>
  The process scanner (\<open>crates/daemon/src/procs.rs\<close>).  What the \<open>procfs\<close> crate reports of a
  process is an input: a handle with the result of each call the code makes on it.  The
  scan builds a hash map and then iterates over it and over the previous one, so the two
  iteration orders are inputs too.
\<close>

section \<open>Definitions\<close>

text \<open>\<open>i32\<close> values are 32-bit words: \<open>as u32\<close> keeps the bits.\<close>

record stat =
  st_pid :: u32
  st_comm :: string
  st_ppid :: u32

record proc_handle =
  pr_fd :: "bool option list option" \<comment> \<open>per fd: unreadable, or whether it is a socket\<close>
  pr_stat :: "stat option"
  pr_uid :: "u32 option"
  pr_exe :: "path option"

record UserCache =
  uc_map :: "(u32, string) hashmap"

definition user_cache_new :: UserCache where
  "user_cache_new = \<lparr>uc_map = []\<rparr>"

text \<open>A line with fewer than three fields or without a number in the third one ends the whole
  search, as the \<open>?\<close> operators do.\<close>

fun find_user_in_lines :: "string list \<Rightarrow> u32 \<Rightarrow> string option" where
  "find_user_in_lines [] uid = None"
| "find_user_in_lines (line # ls) uid =
     (case split_on CHR '':'' line of
        name # _ # third # _ \<Rightarrow>
          (case parse_uint third of
             None \<Rightarrow> None
           | Some line_uid \<Rightarrow> if line_uid = uid then Some name else find_user_in_lines ls uid)
      | _ \<Rightarrow> None)"

definition find_user_in_passwd :: "string \<Rightarrow> u32 \<Rightarrow> string option" where
  "find_user_in_passwd s uid = find_user_in_lines (lines s) uid"

definition lookup_uid :: "string option \<Rightarrow> u32 \<Rightarrow> string option" where
  "lookup_uid passwd uid = (case passwd of None \<Rightarrow> None | Some s \<Rightarrow> find_user_in_passwd s uid)"

definition user_name :: "string option \<Rightarrow> u32 \<Rightarrow> UserCache \<Rightarrow> string \<times> UserCache" where
  "user_name passwd uid users =
     (case map_of (uc_map users) uid of
        Some name \<Rightarrow> (name, users)
      | None \<Rightarrow>
          (let name = (case lookup_uid passwd uid of Some n \<Rightarrow> n | None \<Rightarrow> show_uint uid)
           in (name, users\<lparr>uc_map := AList.update uid name (uc_map users)\<rparr>)))"

definition has_socket :: "proc_handle \<Rightarrow> bool" where
  "has_socket p = (case pr_fd p of None \<Rightarrow> False | Some fds \<Rightarrow> list_ex (\<lambda>fd. fd = Some True) fds)"

definition inspect_process :: "string option \<Rightarrow> proc_handle \<Rightarrow> UserCache \<Rightarrow> ProcessInfo option \<times> UserCache" where
  "inspect_process passwd p users =
     (if \<not> has_socket p then (None, users)
      else (case pr_stat p of
          None \<Rightarrow> (None, users)
        | Some st \<Rightarrow>
            (let (user, users) = (case pr_uid p of
                None \<Rightarrow> (None, users)
              | Some u \<Rightarrow> (let (n, users) = user_name passwd u users in (Some n, users)))
             in (Some \<lparr>pi_pid = st_pid st, pi_name = st_comm st, pi_exe = pr_exe p,
                   pi_user = user, pi_ppid = st_ppid st\<rparr>, users))))"

definition lookup_process :: "(u32 \<Rightarrow> proc_handle option) \<Rightarrow> u32 \<Rightarrow> ProcessInfo option" where
  "lookup_process process_new pid = do {
     p \<leftarrow> process_new pid;
     st \<leftarrow> pr_stat p;
     Some \<lparr>pi_pid = pid, pi_name = st_comm st, pi_exe = pr_exe p, pi_user = None, pi_ppid = st_ppid st\<rparr>
   }"

type_synonym processes = "(u32, ProcessInfo) hashmap"

text \<open>The loop that builds the new map; a handle that could not be opened is \<^term>\<open>None\<close>.\<close>

fun collect_current :: "string option \<Rightarrow> proc_handle option list \<Rightarrow> UserCache \<Rightarrow> processes
    \<Rightarrow> processes \<times> UserCache" where
  "collect_current passwd [] users current = (current, users)"
| "collect_current passwd (None # ps) users current = collect_current passwd ps users current"
| "collect_current passwd (Some p # ps) users current =
     (case inspect_process passwd p users of
        (None, users) \<Rightarrow> collect_current passwd ps users current
      | (Some info, users) \<Rightarrow> collect_current passwd ps users (AList.update (pi_pid info) info current))"

record scan_input =
  si_all :: "proc_handle option list option" \<comment> \<open>\<open>all_processes()\<close>\<close>
  si_passwd :: "string option"
  si_order :: "processes \<Rightarrow> processes" \<comment> \<open>iteration order of the new map\<close>
  si_old_order :: "u32 list \<Rightarrow> u32 list" \<comment> \<open>iteration order of the old map's keys\<close>

definition scan_once :: "scan_input \<Rightarrow> processes \<times> UserCache \<Rightarrow> Event list \<times> processes \<times> UserCache" where
  "scan_once i = (\<lambda>(shared, users).
     case si_all i of
       None \<Rightarrow> ([], shared, users)
     | Some ps \<Rightarrow>
         (let (current, users) = collect_current (si_passwd i) ps users [];
              started = map (\<lambda>(pid, info). ProcessStarted info)
                (filter (\<lambda>(pid, info). \<not> contains_key pid shared) (si_order i current));
              exited = map ProcessExited
                (filter (\<lambda>pid. \<not> contains_key pid current) (si_old_order i (map fst shared)))
          in (started @ exited, current, users)))"

section \<open>Lemmas\<close>

definition orders_ok :: "scan_input \<Rightarrow> bool" where
  "orders_ok i \<longleftrightarrow> (\<forall>m. mset (si_order i m) = mset m) \<and> (\<forall>ks. mset (si_old_order i ks) = mset ks)"

lemma orders_set: "orders_ok i \<Longrightarrow> set (si_order i m) = set m"
    "orders_ok i \<Longrightarrow> set (si_old_order i ks) = set ks"
  by (metis orders_ok_def mset_eq_setD)+

text \<open>Every entry is stored under the pid it describes, each pid once.\<close>

definition processes_wf :: "processes \<Rightarrow> bool" where
  "processes_wf m \<longleftrightarrow> hm_wf m \<and> (\<forall>(pid, info) \<in> set m. pi_pid info = pid)"

lemma processes_wf_update: "processes_wf m \<Longrightarrow> processes_wf (AList.update (pi_pid info) info m)"
proof -
  assume m: "processes_wf m"
  then have wf: "hm_wf m" "hm_wf (AList.update (pi_pid info) info m)"
    by (simp_all add: processes_wf_def distinct_update)
  have "pi_pid b = a" if "(a, b) \<in> set (AList.update (pi_pid info) info m)" for a b
  proof -
    have "map_of (AList.update (pi_pid info) info m) a = Some b"
      using that wf(2) by simp
    then have "a = pi_pid info \<and> b = info \<or> map_of m a = Some b"
      by (auto simp: update_conv' split: if_splits)
    with m wf(1) show ?thesis by (auto simp: processes_wf_def)
  qed
  with wf(2) show ?thesis by (auto simp: processes_wf_def)
qed

lemma collect_current_wf:
  "processes_wf m \<Longrightarrow> processes_wf (fst (collect_current passwd ps users m))"
  by (induction passwd ps users m rule: collect_current.induct)
    (auto simp: processes_wf_update split: prod.splits option.splits)

lemma inspect_process_Some:
  "inspect_process passwd p users = (Some info, users') \<Longrightarrow>
     has_socket p \<and> (\<exists>st. pr_stat p = Some st \<and> pi_pid info = st_pid st \<and> pi_name info = st_comm st \<and>
       pi_ppid info = st_ppid st) \<and> pi_exe info = pr_exe p"
  by (auto simp: inspect_process_def split: if_splits option.splits prod.splits)

lemma inspect_process_None:
  "inspect_process passwd p users = (None, users') \<longleftrightarrow>
     users' = users \<and> \<not> (has_socket p \<and> pr_stat p \<noteq> None)"
  by (auto simp: inspect_process_def split: option.splits prod.splits)

text \<open>The pids of the new map: those of the readable processes that hold a socket.\<close>

definition live_pids :: "proc_handle option list \<Rightarrow> u32 set" where
  "live_pids ps = {pid. \<exists>p st. Some p \<in> set ps \<and> has_socket p \<and> pr_stat p = Some st \<and> st_pid st = pid}"

lemma live_pids_simps [simp]:
  "live_pids [] = {}" "live_pids (None # ps) = live_pids ps"
  "live_pids (Some p # ps) =
    (if has_socket p then (case pr_stat p of None \<Rightarrow> {} | Some st \<Rightarrow> {st_pid st}) else {}) \<union> live_pids ps"
  by (auto simp: live_pids_def split: option.splits)

lemma dom_collect_current:
  "fst ` set (fst (collect_current passwd ps users m)) = live_pids ps \<union> fst ` set m"
proof (induction passwd ps users m rule: collect_current.induct)
  case (3 passwd p ps users m)
  show ?case
  proof (cases "inspect_process passwd p users")
    case (Pair r users')
    show ?thesis
    proof (cases r)
      case None
      with Pair 3(1) inspect_process_None [of passwd p users users'] show ?thesis
        by (auto split: option.splits)
    next
      case (Some info)
      with Pair 3(2) inspect_process_Some [of passwd p users info users'] show ?thesis
        by (auto simp: dom_update)
    qed
  qed
qed simp_all

section \<open>Events\<close>

text \<open>A subscriber follows the set of pids.\<close>

fun observe_pids :: "Event \<Rightarrow> u32 set \<Rightarrow> u32 set" where
  "observe_pids (ProcessStarted info) s = insert (pi_pid info) s"
| "observe_pids (ProcessExited pid) s = s - {pid}"
| "observe_pids _ s = s"

definition scan_daemon :: "scan_input \<Rightarrow> processes \<times> UserCache \<Rightarrow> processes \<times> UserCache" where
  "scan_daemon i s = snd (scan_once i s)"

definition scan_events :: "scan_input \<Rightarrow> processes \<times> UserCache \<Rightarrow> Event list" where
  "scan_events i s = fst (scan_once i s)"

definition pids :: "processes \<times> UserCache \<Rightarrow> u32 set" where
  "pids s = fst ` set (fst s)"

lemma fold_observe_started:
  "fold observe_pids (map (\<lambda>(pid, info). ProcessStarted info) xs) s = s \<union> (\<lambda>(pid, info). pi_pid info) ` set xs"
  by (induction xs arbitrary: s) auto

lemma fold_observe_exited: "fold observe_pids (map ProcessExited xs) s = s - set xs"
  by (induction xs arbitrary: s) auto

lemma scan_daemon_wf: "processes_wf (fst s) \<Longrightarrow> processes_wf (fst (scan_daemon i s))"
proof (cases "si_all i")
  case (Some ps)
  have "processes_wf (fst (collect_current (si_passwd i) ps (snd s) []))"
    by (rule collect_current_wf) (simp add: processes_wf_def)
  moreover obtain cur us where "collect_current (si_passwd i) ps (snd s) [] = (cur, us)"
    by (meson surj_pair)
  ultimately show ?thesis
    using Some by (cases s) (simp add: scan_daemon_def scan_once_def)
qed (simp add: scan_daemon_def scan_once_def split: prod.split)

lemma scan_once_eq:
  assumes "si_all i = Some ps"
  shows "scan_once i s =
    (map (\<lambda>(pid, info). ProcessStarted info) (filter (\<lambda>(pid, info). pid \<notin> pids s)
        (si_order i (fst (collect_current (si_passwd i) ps (snd s) [])))) @
     map ProcessExited (filter (\<lambda>pid. pid \<notin> live_pids ps) (si_old_order i (map fst (fst s)))),
     collect_current (si_passwd i) ps (snd s) [])"
proof -
  obtain cur us where c: "collect_current (si_passwd i) ps (snd s) [] = (cur, us)" by (meson surj_pair)
  then have "fst ` set cur = live_pids ps"
    using dom_collect_current [of "si_passwd i" ps "snd s" "[]"] by simp
  with c assms show ?thesis
    by (cases s) (simp add: scan_once_def contains_key_iff pids_def)
qed

lemma scan_daemon_view:
  assumes "processes_wf (fst s)" "orders_ok i"
  shows "pids (scan_daemon i s) = fold observe_pids (scan_events i s) (pids s)"
proof (cases "si_all i")
  case None
  then show ?thesis by (simp add: scan_daemon_def scan_events_def scan_once_def split: prod.split)
next
  case (Some ps)
  let ?cur = "fst (collect_current (si_passwd i) ps (snd s) [])"
  have wf: "processes_wf ?cur" by (rule collect_current_wf) (simp add: processes_wf_def)
  have d: "fst ` set ?cur = live_pids ps" using dom_collect_current [of _ ps _ "[]"] by simp
  have "(\<lambda>(pid, info). pi_pid info) ` set (filter (\<lambda>(pid, info). pid \<notin> pids s) (si_order i ?cur))
      = fst ` {e \<in> set ?cur. fst e \<notin> pids s}"
    using wf by (force simp: orders_set [OF assms(2)] processes_wf_def)
  also have "\<dots> = live_pids ps - pids s" using d by auto
  finally show ?thesis
    using d
    by (auto simp: scan_daemon_def scan_events_def scan_once_eq [OF Some] fold_observe_started
        fold_observe_exited orders_set [OF assms(2)] pids_def)
qed

interpretation scanner: publisher scan_daemon orders_ok "\<lambda>s. processes_wf (fst s)" scan_events pids observe_pids
  by unfold_locales (rule scan_daemon_wf, assumption, rule scan_daemon_view)

section \<open>Properties\<close>

definition demo_proc :: "u32 \<Rightarrow> bool \<Rightarrow> proc_handle" where
  "demo_proc pid sock = \<lparr>pr_fd = Some [None, Some False, Some sock],
     pr_stat = Some \<lparr>st_pid = pid, st_comm = ''p'', st_ppid = 1\<rparr>, pr_uid = None, pr_exe = Some ''/bin/p''\<rparr>"

definition demo_scan :: scan_input where
  "demo_scan = \<lparr>si_all = Some [Some (demo_proc 5 True), None, Some (demo_proc 6 False)],
     si_passwd = None, si_order = rev, si_old_order = (\<lambda>ks. ks)\<rparr>"

definition demo_processes :: processes where
  "demo_processes = [(4, \<lparr>pi_pid = 4, pi_name = ''q'', pi_exe = None, pi_user = None, pi_ppid = 1\<rparr>)]"

lemma demo_orders_ok: "orders_ok demo_scan"
  by (simp add: orders_ok_def demo_scan_def)

lemma demo_processes_wf: "processes_wf demo_processes"
  by (simp add: processes_wf_def demo_processes_def)

text \<open>A scan publishes exactly the difference: one start event for each pid that is new
  and one exit event for each pid that is gone, whatever order the hash maps are iterated
  in; the new map holds exactly the readable processes with a socket, under their own
  pid.  When \<open>/proc\<close> cannot be listed nothing changes.\<close>

theorem scan_once_diff:
  assumes "scan_once i s = (evs, s')" and "processes_wf (fst s)" and "orders_ok i"
  shows "processes_wf (fst s') \<and>
    (case si_all i of
       None \<Rightarrow> evs = [] \<and> s' = s
     | Some ps \<Rightarrow> pids s' = live_pids ps \<and>
         (\<exists>started exited. evs = map ProcessStarted started @ map ProcessExited exited \<and>
           distinct (map pi_pid started) \<and> pi_pid ` set started = live_pids ps - pids s \<and>
           distinct exited \<and> set exited = pids s - live_pids ps))"
proof (cases "si_all i")
  case None
  with assms show ?thesis by (cases s) (auto simp: scan_once_def)
next
  case (Some ps)
  let ?cur = "fst (collect_current (si_passwd i) ps (snd s) [])"
  let ?new = "filter (\<lambda>(pid, info). pid \<notin> pids s) (si_order i ?cur)"
  let ?old = "filter (\<lambda>pid. pid \<notin> live_pids ps) (si_old_order i (map fst (fst s)))"
  have wf: "processes_wf ?cur" by (rule collect_current_wf) (simp add: processes_wf_def)
  have d: "fst ` set ?cur = live_pids ps" using dom_collect_current [of _ ps _ "[]"] by simp
  have s': "evs = map (\<lambda>(pid, info). ProcessStarted info) ?new @ map ProcessExited ?old" "fst s' = ?cur"
    using assms(1) scan_once_eq [OF Some, of s] by auto
  have dist: "distinct (map fst (si_order i ?cur))"
  proof -
    have "mset (map fst (si_order i ?cur)) = mset (map fst ?cur)"
      using assms(3) by (simp add: orders_ok_def)
    from mset_eq_imp_distinct_iff [OF this] wf show ?thesis by (simp add: processes_wf_def)
  qed
  have p: "map pi_pid (map snd ?new) = map fst ?new"
    using wf by (auto simp: orders_set [OF assms(3)] processes_wf_def)
  have "distinct (map fst ?new)" using dist by (simp add: distinct_map_filter)
  moreover have "fst ` set ?new = live_pids ps - pids s"
    using d by (force simp: orders_set [OF assms(3)])
  ultimately have st: "distinct (map pi_pid (map snd ?new))" "pi_pid ` set (map snd ?new) = live_pids ps - pids s"
    by (simp_all only: p set_map [symmetric])
  have "distinct (map fst (fst s))" using assms(2) by (simp add: processes_wf_def)
  then have "distinct (si_old_order i (map fst (fst s)))"
    using assms(3) mset_eq_imp_distinct_iff [of "si_old_order i (map fst (fst s))" "map fst (fst s)"]
    by (simp add: orders_ok_def)
  then have ex: "distinct ?old" "set ?old = pids s - live_pids ps"
    by (auto simp: orders_set [OF assms(3)] pids_def)
  have "evs = map ProcessStarted (map snd ?new) @ map ProcessExited ?old"
    unfolding s'(1) by (simp add: split_beta comp_def)
  moreover have "pids s' = live_pids ps" using d by (simp add: pids_def s'(2))
  ultimately show ?thesis
    unfolding Some option.case
    using wf st ex s'(2) by (intro conjI exI [of _ "map snd ?new"] exI [of _ ?old]) simp_all
qed

theorem scan_once_diff_witness:
  "\<exists>s'. scan_once demo_scan (demo_processes, user_cache_new) =
      ([ProcessStarted \<lparr>pi_pid = 5, pi_name = ''p'', pi_exe = Some ''/bin/p'', pi_user = None, pi_ppid = 1\<rparr>,
        ProcessExited 4], s') \<and> pids s' = {5}"
proof -
  obtain s' where r: "scan_once demo_scan (demo_processes, user_cache_new) =
      ([ProcessStarted \<lparr>pi_pid = 5, pi_name = ''p'', pi_exe = Some ''/bin/p'', pi_user = None, pi_ppid = 1\<rparr>,
        ProcessExited 4], s')"
    by (simp add: scan_once_def demo_scan_def demo_processes_def demo_proc_def inspect_process_def
        has_socket_def contains_key_def)
  have "live_pids [Some (demo_proc 5 True), None, Some (demo_proc 6 False)] = {5}"
    by (simp add: demo_proc_def has_socket_def)
  with scan_once_diff [OF r _ demo_orders_ok] r demo_processes_wf show ?thesis
    by (auto simp: demo_scan_def)
qed

text \<open>C35: A subscriber that starts from the set of pids and folds every published event in
  order has, after any number of scans, exactly the pids of the daemon's map.\<close>

theorem scan_events_replay:
  assumes "processes_wf (fst s)" and "list_all orders_ok inputs"
  shows "pids (fold scan_daemon inputs s) =
    fold observe_pids (scanner.emits inputs s) (pids s)"
  by (rule scanner.view_run [OF assms])

theorem scan_events_replay_witness:
  "fold observe_pids (scanner.emits [demo_scan, demo_scan] (demo_processes, user_cache_new)) {4} = {5}"
proof -
  have "pids (fold scan_daemon [demo_scan, demo_scan] (demo_processes, user_cache_new)) = {5}"
    by (simp add: scan_daemon_def scan_once_def demo_scan_def demo_processes_def demo_proc_def
        inspect_process_def has_socket_def contains_key_def pids_def)
  moreover have "pids (demo_processes, user_cache_new) = {4}"
    by (simp add: pids_def demo_processes_def)
  ultimately show ?thesis
    using scan_events_replay [of "(demo_processes, user_cache_new)" "[demo_scan, demo_scan]"]
      demo_processes_wf demo_orders_ok by simp
qed

text \<open>A user name is found for a uid when every line before its line is well formed; one
  malformed line in front, such as the \<open>+::::::\<close> entry of NIS, hides every user after it.\<close>

theorem passwd_lookup:
  assumes "\<forall>l \<in> set pre. \<exists>n p u rest w. split_on CHR '':'' l = n # p # u # rest \<and> parse_uint u = Some w \<and> w \<noteq> uid"
    and "\<forall>n0 p0 u0 rest0. split_on CHR '':'' bad = n0 # p0 # u0 # rest0 \<longrightarrow> parse_uint u0 = (None :: u32 option)"
    and "split_on CHR '':'' line = n # p # show_uint uid # rest"
  shows "find_user_in_lines (pre @ line # post) uid = Some n \<and>
    find_user_in_lines (pre @ bad # line # post) uid = None"
proof -
  have skip: "find_user_in_lines (pre @ ls) uid = find_user_in_lines ls uid" for ls
    using assms(1) by (induction pre) auto
  have "find_user_in_lines (bad # line # post) uid = None"
    using assms(2) by (auto split: list.splits)
  with assms(3) show ?thesis by (simp add: skip parse_uint_show)
qed

theorem passwd_lookup_witness:
  "find_user_in_lines [''root:x:0:0'', ''james:x:10:10''] 10 = Some ''james'' \<and>
   find_user_in_lines [''root:x:0:0'', ''+::'', ''james:x:10:10''] 10 = None"
proof -
  have u: "show_uint (10 :: u32) = ''10''" "show_uint (0 :: u32) = ''0''" by code_simp+
  have n: "parse_uint ''0'' = Some (0 :: u32)"
    "split_on CHR '':'' ''james:x:10:10'' = ''james'' # ''x'' # show_uint (10 :: u32) # [''10'']"
    using parse_uint_show [of "0 :: u32"] by (simp_all add: u)
  have e: "parse_uint '''' = (None :: u32 option)"
    by (simp add: parse_uint_def from_str_radix_def)
  have p: "\<forall>l \<in> set [''root:x:0:0'']. \<exists>n p u rest w.
      split_on CHR '':'' l = n # p # u # rest \<and> parse_uint u = Some w \<and> w \<noteq> (10 :: u32)"
    using n(1) by simp
  have b: "\<forall>n0 p0 u0 rest0. split_on CHR '':'' ''+::'' = n0 # p0 # u0 # rest0 \<longrightarrow> parse_uint u0 = (None :: u32 option)"
    using e by simp
  from passwd_lookup [OF p b n(2), of "[]"] show ?thesis by simp
qed

end
