(* ===== verification/Throttle.thy ===== *)
theory Throttle
  imports CoreTypes RustMap
begin

text \<open>
  The rate limiter for blocked-connection log lines (\<open>LogThrottle\<close> in
  \<open>crates/daemon/src/firewall.rs\<close>).  A key is an executable and a destination; paths are
  compared and hashed by their components, so that is what the map is keyed by.  The clock
  is an input; \<open>Instant::duration_since\<close> is zero when the clock went back.
\<close>

section \<open>Definitions\<close>

datatype LogAction = First | Suppress | Summary u64

type_synonym ThrottleKey = "path \<times> string"

record ThrottleEntry =
  te_window_start :: time
  te_suppressed :: u64

record LogThrottle =
  lt_window :: time
  lt_entries :: "(Component list \<times> string, ThrottleEntry) hashmap"

definition hash_key :: "ThrottleKey \<Rightarrow> Component list \<times> string" where
  "hash_key k = (components (fst k), snd k)"

definition throttle_new :: "time \<Rightarrow> LogThrottle" where
  "throttle_new window = \<lparr>lt_window = window, lt_entries = []\<rparr>"

definition throttle_default :: LogThrottle where
  "throttle_default = throttle_new 5000000000"

definition duration_since :: "time \<Rightarrow> time \<Rightarrow> time" where
  "duration_since now earlier = max 0 (now - earlier)"

definition should_log :: "ThrottleKey \<Rightarrow> time \<Rightarrow> LogThrottle \<Rightarrow> LogAction \<times> LogThrottle" where
  "should_log key now lt =
     (case map_of (lt_entries lt) (hash_key key) of
        None \<Rightarrow>
          (First, lt\<lparr>lt_entries := AList.update (hash_key key)
             \<lparr>te_window_start = now, te_suppressed = 0\<rparr> (lt_entries lt)\<rparr>)
      | Some entry \<Rightarrow>
          if duration_since now (te_window_start entry) < lt_window lt
          then (Suppress, lt\<lparr>lt_entries := AList.update (hash_key key)
             (entry\<lparr>te_suppressed := te_suppressed entry + 1\<rparr>) (lt_entries lt)\<rparr>)
          else (Summary (te_suppressed entry + 1), lt\<lparr>lt_entries := AList.update (hash_key key)
             \<lparr>te_window_start = now, te_suppressed = 0\<rparr> (lt_entries lt)\<rparr>))"

text \<open>A sequence of blocked packets, each with the instant it was blocked at, and what was
  decided for each.\<close>

primrec throttle_run :: "(ThrottleKey \<times> time) list \<Rightarrow> LogThrottle
    \<Rightarrow> (ThrottleKey \<times> time \<times> LogAction) list \<times> LogThrottle" where
  "throttle_run [] lt = ([], lt)"
| "throttle_run (x # xs) lt =
     (let (a, lt) = should_log (fst x) (snd x) lt; (as, lt) = throttle_run xs lt
      in ((fst x, snd x, a) # as, lt))"

section \<open>Specification\<close>

text \<open>How many blocked packets a log line stands for, and the lines of one key.\<close>

fun covers :: "LogAction \<Rightarrow> nat" where
  "covers First = 1"
| "covers Suppress = 0"
| "covers (Summary n) = unat n"

definition covered :: "ThrottleKey \<Rightarrow> (ThrottleKey \<times> time \<times> LogAction) list \<Rightarrow> nat" where
  "covered k log = (\<Sum>(q, t, a) \<leftarrow> log. if hash_key q = hash_key k then covers a else 0)"

definition line_times :: "ThrottleKey \<Rightarrow> (ThrottleKey \<times> time \<times> LogAction) list \<Rightarrow> time list" where
  "line_times k log =
     map (\<lambda>(q, t, a). t) (filter (\<lambda>(q, t, a). hash_key q = hash_key k \<and> a \<noteq> Suppress) log)"

definition calls_for :: "ThrottleKey \<Rightarrow> (ThrottleKey \<times> time) list \<Rightarrow> nat" where
  "calls_for k xs = length (filter (\<lambda>(q, t). hash_key q = hash_key k) xs)"

definition pending :: "ThrottleKey \<Rightarrow> LogThrottle \<Rightarrow> nat" where
  "pending k lt =
     (case map_of (lt_entries lt) (hash_key k) of None \<Rightarrow> 0 | Some e \<Rightarrow> unat (te_suppressed e))"

definition last_line :: "ThrottleKey \<Rightarrow> LogThrottle \<Rightarrow> time list" where
  "last_line k lt =
     (case map_of (lt_entries lt) (hash_key k) of None \<Rightarrow> [] | Some e \<Rightarrow> [te_window_start e])"

section \<open>Lemmas\<close>

lemma should_log_window [frame_simps]: "lt_window (snd (should_log k t lt)) = lt_window lt"
  by (simp add: should_log_def split: option.split)

lemma should_log_other [frame_simps]:
  assumes "hash_key q \<noteq> hash_key k"
  shows "pending k (snd (should_log q t lt)) = pending k lt"
    and "last_line k (snd (should_log q t lt)) = last_line k lt"
  using assms by (auto simp: should_log_def pending_def last_line_def update_conv' split: option.split)

lemma pending_cong: "hash_key q = hash_key k \<Longrightarrow> pending q = pending k"
  by (simp add: pending_def fun_eq_iff)

lemma should_log_accounts:
  assumes "hash_key q = hash_key k" "Suc (pending k lt) < 2 ^ 64"
  shows "Suc (pending k lt) = covers (fst (should_log q t lt)) + pending k (snd (should_log q t lt))"
proof (cases "map_of (lt_entries lt) (hash_key k)")
  case None
  with assms(1) show ?thesis by (simp add: should_log_def pending_def update_conv')
next
  case (Some e)
  then have "unat (te_suppressed e + 1) = Suc (unat (te_suppressed e))"
    using assms(2) by (intro unat_succ) (auto simp: pending_def unsigned_minus_1_eq_mask mask_eq_exp_minus_1)
  with Some assms(1) show ?thesis by (simp add: should_log_def pending_def update_conv')
qed

lemma should_log_last_line:
  assumes "hash_key q = hash_key k" "should_log q t lt = (a, lt')"
  shows "last_line k lt' = (if a = Suppress then last_line k lt else [t])"
    and "a = Suppress \<or> last_line k lt = [] \<or> hd (last_line k lt) + lt_window lt \<le> max t (hd (last_line k lt))"
  using assms
  by (auto simp: should_log_def last_line_def update_conv' duration_since_def max_def split: option.splits if_splits)

lemma should_log_suppress:
  "fst (should_log k t lt) = Suppress \<longleftrightarrow>
     (\<exists>s. last_line k lt = [s] \<and> duration_since t s < lt_window lt)"
  by (auto simp: should_log_def last_line_def split: option.splits)

section \<open>Properties\<close>

text \<open>No blocked packet is lost from the log: of the packets blocked for a key, each is
  either covered by exactly one log line (a first line covers one, a summary covers the
  number it prints) or still counted as suppressed, whatever happens with other keys.\<close>

theorem throttle_accounts:
  assumes "throttle_run xs lt = (log, lt')" and "pending k lt + length xs < 2 ^ 64"
  shows "pending k lt + calls_for k xs = covered k log + pending k lt'"
  using assms
proof (induction xs arbitrary: lt log)
  case (Cons x xs)
  obtain q t where x: "x = (q, t)" by (cases x)
  obtain a lt1 where s: "should_log q t lt = (a, lt1)" by (cases "should_log q t lt")
  obtain log1 where r: "throttle_run xs lt1 = (log1, lt')" and l: "log = (q, t, a) # log1"
    using Cons.prems(1) by (auto simp: x s split: prod.splits)
  show ?case
  proof (cases "hash_key q = hash_key k")
    case True
    have "Suc (pending k lt) = covers a + pending k lt1"
      using should_log_accounts [OF True, of lt t] s Cons.prems(2) by simp
    with Cons.IH [OF r] Cons.prems(2) True show ?thesis
      by (simp add: x l calls_for_def covered_def)
  next
    case False
    then have "pending k lt1 = pending k lt" using should_log_other(1) [OF False, of t lt] s by simp
    with Cons.IH [OF r] Cons.prems(2) False show ?thesis
      by (simp add: x l calls_for_def covered_def)
  qed
qed (simp add: calls_for_def covered_def)

theorem throttle_accounts_witness:
  "\<exists>log lt. throttle_run (map (\<lambda>t. ((''/bin/a'', ''1.2.3.4:80''), t)) [0, 1, 2, 7000000000, 7000000001])
      throttle_default = (log, lt) \<and>
    map (\<lambda>(q, t, a). a) log = [First, Suppress, Suppress, Summary 3, Suppress] \<and>
    5 = covered (''/bin/a'', ''1.2.3.4:80'') log + pending (''/bin/a'', ''1.2.3.4:80'') lt"
proof -
  let ?k = "(''/bin/a'', ''1.2.3.4:80'')"
  let ?xs = "map (\<lambda>t. (?k, t)) [0, 1, 2, 7000000000, 7000000001]"
  obtain log lt where r: "throttle_run ?xs throttle_default = (log, lt)" by (meson surj_pair)
  then have "map (\<lambda>(q, t, a). a) log = [First, Suppress, Suppress, Summary 3, Suppress]"
    by (auto simp: throttle_default_def throttle_new_def should_log_def duration_since_def)
  moreover have "pending ?k throttle_default + length ?xs < 2 ^ 64"
    by (simp add: throttle_default_def throttle_new_def pending_def)
  note throttle_accounts [OF r this]
  ultimately show ?thesis
    using r by (auto simp: calls_for_def throttle_default_def throttle_new_def pending_def)
qed

lemma throttle_spacing_step:
  assumes s: "should_log q t lt = (a, lt1)" and w: "0 < lt_window lt"
    and later: "successively (\<lambda>s t. s + lt_window lt \<le> t) (last_line k lt1 @ line_times k log)"
  shows "successively (\<lambda>s t. s + lt_window lt \<le> t) (last_line k lt @ line_times k ((q, t, a) # log))"
proof (cases "hash_key q = hash_key k")
  case True
  note ll = should_log_last_line [OF True s]
  show ?thesis
  proof (cases "a = Suppress")
    case True
    with later ll show ?thesis by (simp add: line_times_def)
  next
    case False
    then have "successively (\<lambda>s t. s + lt_window lt \<le> t) (t # line_times k log)"
      using later ll by simp
    moreover have "line_times k ((q, t, a) # log) = t # line_times k log"
      using False True by (simp add: line_times_def)
    moreover have "last_line k lt = [] \<or> (\<exists>s. last_line k lt = [s] \<and> s + lt_window lt \<le> t)"
      using ll(2) False w by (auto simp: last_line_def max_def split: option.splits if_splits)
    ultimately show ?thesis by auto
  qed
next
  case False
  then have "last_line k lt1 = last_line k lt" using should_log_other(2) [OF False, of t lt] s by simp
  with later False show ?thesis by (simp add: line_times_def)
qed

lemma throttle_spacing:
  assumes "throttle_run xs lt = (log, lt')" "0 < lt_window lt"
  shows "successively (\<lambda>s t. s + lt_window lt \<le> t) (last_line k lt @ line_times k log)"
  using assms
proof (induction xs arbitrary: lt log)
  case Nil
  then show ?case by (simp add: line_times_def last_line_def split: option.split)
next
  case (Cons x xs)
  obtain q t where x: "x = (q, t)" by (cases x)
  obtain a lt1 where s: "should_log q t lt = (a, lt1)" by (cases "should_log q t lt")
  obtain log1 where r: "throttle_run xs lt1 = (log1, lt')" and l: "log = (q, t, a) # log1"
    using Cons.prems(1) by (auto simp: x s split: prod.splits)
  have "lt_window lt1 = lt_window lt" using should_log_window [of q t lt] s by simp
  with Cons.IH [OF r] Cons.prems(2) show ?case unfolding l by (intro throttle_spacing_step [OF s]) simp_all
qed

text \<open>The log is rate limited per key: the instants of successive lines for one executable
  and destination are at least a window apart, and a line is held back only when the last
  one is less than a window old, so the first block of a key is always logged.\<close>

theorem throttle_rate:
  assumes "throttle_run xs lt = (log, lt')" and "0 < lt_window lt"
  shows "successively (\<lambda>s t. s + lt_window lt \<le> t) (last_line k lt @ line_times k log) \<and>
    (fst (should_log k t lt) = Suppress \<longleftrightarrow>
       (\<exists>s. last_line k lt = [s] \<and> duration_since t s < lt_window lt))"
  using throttle_spacing [OF assms] by (simp add: should_log_suppress)

theorem throttle_rate_witness:
  "\<exists>log lt. throttle_run (map (\<lambda>t. ((''/bin/a'', ''1.2.3.4:80''), t)) [0, 1, 7000000000])
      throttle_default = (log, lt) \<and> line_times (''/bin/a'', ''1.2.3.4:80'') log = [0, 7000000000] \<and>
    successively (\<lambda>s t. s + 5000000000 \<le> t) (line_times (''/bin/a'', ''1.2.3.4:80'') log)"
proof -
  let ?k = "(''/bin/a'', ''1.2.3.4:80'')"
  let ?xs = "map (\<lambda>t. (?k, t)) [0, 1, 7000000000]"
  obtain log lt where r: "throttle_run ?xs throttle_default = (log, lt)" by (meson surj_pair)
  then have l: "line_times ?k log = [0, 7000000000]"
    by (auto simp: throttle_default_def throttle_new_def should_log_def duration_since_def line_times_def)
  have "0 < lt_window throttle_default" by (simp add: throttle_default_def throttle_new_def)
  from throttle_rate [OF r this, of ?k] l r show ?thesis
    by (auto simp: throttle_default_def throttle_new_def last_line_def)
qed

end
