(* ===== verification/Packet.thy ===== *)
theory Packet
  imports CoreTypes
begin

text \<open>
  The packet parser of the verdict path (\<open>parse_packet\<close> in \<open>crates/daemon/src/firewall.rs\<close>).
  The payload comes from the kernel queue and can be any byte string, and Rust's indexing
  panics out of range, so every access is a checked one: the outer option is the panic,
  the inner one the parser's own \<open>None\<close>.
\<close>

section \<open>Definitions\<close>

type_synonym packet_flow = "Protocol \<times> u16 \<times> IpAddr \<times> u16"

fun ipv6_from :: "u8 list \<Rightarrow> Ipv6Addr" where
  "ipv6_from [a1, a2, b1, b2, c1, c2, d1, d2, e1, e2, f1, f2, g1, g2, h1, h2] =
     Ipv6Addr (u16_be a1 a2) (u16_be b1 b2) (u16_be c1 c2) (u16_be d1 d2)
       (u16_be e1 e2) (u16_be f1 f2) (u16_be g1 g2) (u16_be h1 h2)"
| "ipv6_from _ = Ipv6Addr 0 0 0 0 0 0 0 0"

definition protocol_of :: "u8 \<Rightarrow> Protocol option" where
  "protocol_of b = (if b = 6 then Some Tcp else if b = 17 then Some Udp else None)"

text \<open>The network header: protocol byte, offset of the transport header, source, destination.\<close>

definition parse_ip_header :: "u8 list \<Rightarrow> u8 \<Rightarrow> (u8 \<times> nat \<times> IpAddr \<times> IpAddr) option may_panic" where
  "parse_ip_header payload b0 =
     (let version = drop_bit 4 b0 in
      if version = 4 then
        (let ihl = unat (b0 AND 0x0F) * 4 in
         if length payload < ihl + 4 \<or> ihl < 20 then Some None
         else do {
           proto \<leftarrow> idx payload 9;
           s0 \<leftarrow> idx payload 12; s1 \<leftarrow> idx payload 13; s2 \<leftarrow> idx payload 14; s3 \<leftarrow> idx payload 15;
           d0 \<leftarrow> idx payload 16; d1 \<leftarrow> idx payload 17; d2 \<leftarrow> idx payload 18; d3 \<leftarrow> idx payload 19;
           Some (Some (proto, ihl, V4 (Ipv4Addr s0 s1 s2 s3), V4 (Ipv4Addr d0 d1 d2 d3)))
         })
      else if version = 6 then
        (if length payload < 40 + 4 then Some None
         else do {
           proto \<leftarrow> idx payload 6;
           src \<leftarrow> slice payload 8 24;
           dst \<leftarrow> slice payload 24 40;
           Some (Some (proto, 40, V6 (ipv6_from src), V6 (ipv6_from dst)))
         })
      else Some None)"

definition parse_packet :: "u8 list \<Rightarrow> packet_flow option may_panic" where
  "parse_packet payload =
     (case payload of
        [] \<Rightarrow> Some None
      | b0 # _ \<Rightarrow>
          (case parse_ip_header payload b0 of
             None \<Rightarrow> None
           | Some None \<Rightarrow> Some None
           | Some (Some (proto_byte, l4_offset, src, dst)) \<Rightarrow>
               (case protocol_of proto_byte of
                  None \<Rightarrow> Some None
                | Some proto \<Rightarrow>
                    if length payload < l4_offset + 4 then Some None
                    else do {
                      p0 \<leftarrow> idx payload l4_offset; p1 \<leftarrow> idx payload (l4_offset + 1);
                      q0 \<leftarrow> idx payload (l4_offset + 2); q1 \<leftarrow> idx payload (l4_offset + 3);
                      Some (Some (proto, u16_be p0 p1, dst, u16_be q0 q1))
                    })))"

section \<open>Lemmas\<close>

text \<open>The header lies inside the packet, whatever the bytes are.\<close>

lemma parse_ip_header_total: "\<exists>r. parse_ip_header payload b0 = Some r"
  by (auto simp: parse_ip_header_def Let_def outcome_simps)

lemma parse_ip_header_bounds:
  "parse_ip_header payload b0 = Some (Some (pb, off, src, dst)) \<Longrightarrow>
     off + 4 \<le> length payload \<and> 20 \<le> off \<and> off \<le> 60"
proof -
  assume a: "parse_ip_header payload b0 = Some (Some (pb, off, src, dst))"
  have "unat (b0 AND 0x0F) \<le> 15"
  proof -
    have "b0 AND 0x0F \<le> 0x0F" by (rule word_and_le1)
    then have "unat (b0 AND 0x0F) \<le> unat (0x0F :: u8)" by (simp only: word_le_nat_alt)
    then show ?thesis by simp
  qed
  with a show ?thesis
    by (auto simp: parse_ip_header_def Let_def outcome_simps split: if_splits)
qed

lemma version_nibbles:
  fixes k :: nat
  assumes "k \<le> 10"
  shows "drop_bit 4 (0x45 + of_nat k :: u8) = 4" "unat ((0x45 + of_nat k :: u8) AND 0x0F) = 5 + k"
proof -
  have "k = 0 \<or> k = 1 \<or> k = 2 \<or> k = 3 \<or> k = 4 \<or> k = 5 \<or> k = 6 \<or> k = 7 \<or> k = 8 \<or> k = 9 \<or> k = 10"
    using assms by arith
  then show "drop_bit 4 (0x45 + of_nat k :: u8) = 4" "unat ((0x45 + of_nat k :: u8) AND 0x0F) = 5 + k"
    by auto
qed

section \<open>Properties\<close>

text \<open>C39: The verdict path cannot be crashed by a packet: for every byte string the parser
  returns without an out-of-range access, and it finds a flow only in an IPv4 or IPv6
  packet that carries TCP or UDP and is long enough to hold both ports.\<close>

theorem parse_packet_total:
  "\<exists>r. parse_packet payload = Some r \<and>
     (case r of
        None \<Rightarrow> True
      | Some (proto, lport, dst, rport) \<Rightarrow>
          24 \<le> length payload \<and> proto \<in> {Tcp, Udp} \<and>
          (case dst of V4 _ \<Rightarrow> drop_bit 4 (hd payload) = 4
           | V6 _ \<Rightarrow> drop_bit 4 (hd payload) = 6 \<and> 44 \<le> length payload))"
proof (cases payload)
  case Nil
  then show ?thesis by (simp add: parse_packet_def)
next
  case (Cons b0 bs)
  obtain h where h: "parse_ip_header payload b0 = Some h" using parse_ip_header_total by blast
  show ?thesis
  proof (cases h)
    case None
    with h Cons show ?thesis by (simp add: parse_packet_def)
  next
    case (Some x)
    obtain pb off src dst where x: "x = (pb, off, src, dst)" by (cases x) auto
    with h Some have p: "parse_ip_header payload b0 = Some (Some (pb, off, src, dst))" by simp
    note b = parse_ip_header_bounds [OF p]
    have v: "case dst of V4 _ \<Rightarrow> drop_bit 4 b0 = 4 | V6 _ \<Rightarrow> drop_bit 4 b0 = 6 \<and> 44 \<le> length payload"
      using p by (auto simp: parse_ip_header_def Let_def outcome_simps split: if_splits)
    show ?thesis
    proof (cases "protocol_of pb")
      case None
      with p Cons show ?thesis by (simp add: parse_packet_def)
    next
      case (Some proto)
      have "proto \<in> {Tcp, Udp}" using Some by (auto simp: protocol_of_def split: if_splits)
      moreover have "parse_packet payload = Some (Some (proto, u16_be (payload ! off) (payload ! (off + 1)), dst,
          u16_be (payload ! (off + 2)) (payload ! (off + 3))))"
        using p Some b by (simp add: parse_packet_def Cons outcome_simps del: One_nat_def add_Suc_right)
      ultimately show ?thesis using v b Cons by (simp split: IpAddr.splits)
    qed
  qed
qed

text \<open>C22: On a well-formed IPv4 packet, with any options, the parser reads the protocol, the
  source port, the destination address and the destination port that the sender put into
  it, whatever the remaining header fields and the payload are.\<close>

theorem parse_packet_ipv4:
  assumes "length pre = 8" and "length cks = 2" and "length src = 4"
    and "length opts = 4 * k" and "k \<le> 10"
  shows "parse_packet ((0x45 + of_nat k) # pre @ [pb] @ cks @ src @ [d0, d1, d2, d3] @ opts @
      [p0, p1, q0, q1] @ rest) =
    Some (case protocol_of pb of
      None \<Rightarrow> None
    | Some proto \<Rightarrow> Some (proto, u16_be p0 p1, V4 (Ipv4Addr d0 d1 d2 d3), u16_be q0 q1))"
proof -
  let ?pkt = "(0x45 + of_nat k) # pre @ [pb] @ cks @ src @ [d0, d1, d2, d3] @ opts @ [p0, p1, q0, q1] @ rest"
  let ?b0 = "0x45 + of_nat k :: u8"
  note n = version_nibbles [OF assms(5)]
  have len: "length ?pkt = 20 + 4 * k + 4 + length rest" using assms by simp
  have pb: "?pkt ! 9 = pb" and "?pkt ! 16 = d0" "?pkt ! 17 = d1" "?pkt ! 18 = d2" "?pkt ! 19 = d3"
    using assms by (simp_all add: nth_append nth_Cons')
  moreover have "?pkt ! (20 + 4 * k) = p0" "?pkt ! (20 + 4 * k + 1) = p1"
    "?pkt ! (20 + 4 * k + 2) = q0" "?pkt ! (20 + 4 * k + 3) = q1"
    using assms by (simp_all add: nth_append nth_Cons')
  moreover have "\<exists>s. parse_ip_header ?pkt ?b0 = Some (Some (?pkt ! 9, 20 + 4 * k, s,
      V4 (Ipv4Addr (?pkt ! 16) (?pkt ! 17) (?pkt ! 18) (?pkt ! 19))))"
    using n len unfolding parse_ip_header_def Let_def by (simp add: idx_def)
  ultimately show ?thesis
    using len by (auto simp: parse_packet_def idx_def split: option.split)
qed

theorem parse_packet_ipv4_witness:
  "parse_packet ([0x46, 0, 0, 40, 0, 0, 0, 0, 64, 6, 0, 0, 10, 0, 0, 5, 93, 184, 216, 34, 1, 1, 1, 0,
      0x9C, 0x40, 0, 80, 0, 0]) = Some (Some (Tcp, 40000, V4 (Ipv4Addr 93 184 216 34), 80))"
  using parse_packet_ipv4 [of "[0, 0, 40, 0, 0, 0, 0, 64]" "[0, 0]" "[10, 0, 0, 5]" "[1, 1, 1, 0]" 1
      6 93 184 216 34 "0x9C" "0x40" 0 80 "[0, 0]"]
  by (simp add: protocol_of_def u16_be_def)

text \<open>On an IPv6 packet the parser reads the flow when the transport header follows the
  fixed header; behind an extension header the packet is not recognised.\<close>

theorem parse_packet_ipv6:
  assumes "drop_bit 4 b0 = 6" and "length pre = 5" and "length src = 16" and "length dst = 16"
  shows "parse_packet (b0 # pre @ [nh, hops] @ src @ dst @ [p0, p1, q0, q1] @ rest) =
    Some (case protocol_of nh of
      None \<Rightarrow> None
    | Some proto \<Rightarrow> Some (proto, u16_be p0 p1, V6 (ipv6_from dst), u16_be q0 q1))"
proof -
  let ?pkt = "b0 # pre @ [nh, hops] @ src @ dst @ [p0, p1, q0, q1] @ rest"
  have len: "length ?pkt = 44 + length rest" using assms by simp
  have "?pkt ! 6 = nh" "take 16 (drop 24 ?pkt) = dst"
    "?pkt ! 40 = p0" "?pkt ! 41 = p1" "?pkt ! 42 = q0" "?pkt ! 43 = q1"
    using assms by (simp_all add: nth_append nth_Cons' drop_Cons')
  moreover have "\<exists>s. parse_ip_header ?pkt b0 = Some (Some (?pkt ! 6, 40, s, V6 (ipv6_from (take 16 (drop 24 ?pkt)))))"
    using assms(1) len unfolding parse_ip_header_def Let_def by (simp add: idx_def slice_def)
  ultimately show ?thesis
    using len by (auto simp: parse_packet_def idx_def split: option.split)
qed

theorem parse_packet_ipv6_witness:
  "parse_packet ([0x60, 0, 0, 0, 0, 8, 17, 64] @ replicate 16 1 @ [0xFE, 0x80] @ replicate 13 0 @ [1] @
      [0x14, 0xE9, 0, 53]) = Some (Some (Udp, 5353, V6 (Ipv6Addr 0xFE80 0 0 0 0 0 0 1), 53)) \<and>
   parse_packet ([0x60, 0, 0, 0, 0, 8, 0, 64] @ replicate 16 1 @ [0xFE, 0x80] @ replicate 13 0 @ [1] @
      [17, 0, 0, 53]) = Some None"
proof -
  have b: "drop_bit 4 (0x60 :: u8) = 6" by simp
  have r: "replicate 16 (1 :: u8) = [1, 1, 1, 1, 1, 1, 1, 1, 1, 1, 1, 1, 1, 1, 1, 1]"
    "replicate 13 (0 :: u8) = [0, 0, 0, 0, 0, 0, 0, 0, 0, 0, 0, 0, 0]"
    by (simp_all add: numeral_eq_Suc)
  note t = parse_packet_ipv6 [OF b, of "[0, 0, 0, 0, 8]" "replicate 16 1"
      "[0xFE, 0x80] @ replicate 13 0 @ [1]", simplified length_replicate]
  show ?thesis
    using t [of 17 64 "0x14" "0xE9" 0 53 "[]"] t [of 0 64 17 0 0 53 "[]"]
    by (simp add: protocol_of_def r) (simp add: u16_be_def)
qed

end
