(* ===== verification/FlowLine.thy ===== *)
theory FlowLine
  imports CoreTypes RustMap
begin

text \<open>
  Reading the kernel's flow table (\<open>parse_line\<close> in \<open>crates/daemon/src/conntrack.rs\<close>): one
  line of \<open>/proc/net/nf_conntrack\<close> gives a flow with its key and its byte counters.
  \<open>flow_tokens\<close> is what the kernel prints for a flow; the lemmas show that the parser reads
  exactly that back, and that the key determines the flow.
\<close>

section \<open>Definitions\<close>

type_synonym ParsedFlow = "string \<times> Protocol \<times> IpAddr \<times> u16 \<times> IpAddr \<times> u16 \<times> u64 \<times> u64"

text \<open>The locals of the loop over the key=value tokens.\<close>

record kv_state =
  kv_orig :: "(string, string) hashmap"
  kv_reply_bytes :: "u64 option"
  kv_orig_bytes :: "u64 option"
  kv_in_reply :: bool

definition kv_init :: kv_state where
  "kv_init = \<lparr>kv_orig = [], kv_reply_bytes = None, kv_orig_bytes = None, kv_in_reply = False\<rparr>"

definition or_insert :: "'k \<Rightarrow> 'v \<Rightarrow> ('k, 'v) hashmap \<Rightarrow> ('k, 'v) hashmap" where
  "or_insert k v m = (if contains_key k m then m else AList.update k v m)"

definition kv_step :: "string \<Rightarrow> kv_state \<Rightarrow> kv_state" where
  "kv_step tok st =
     (case split_once CHR ''='' tok of
        None \<Rightarrow> st
      | Some (k, v) \<Rightarrow>
          (let st = (if k = ''src'' \<and> contains_key ''src'' (kv_orig st) then st\<lparr>kv_in_reply := True\<rparr> else st) in
           if kv_in_reply st then
             (if k = ''bytes'' \<and> kv_reply_bytes st = None then st\<lparr>kv_reply_bytes := parse_uint v\<rparr> else st)
           else if k = ''bytes'' then
             (if kv_orig_bytes st = None then st\<lparr>kv_orig_bytes := parse_uint v\<rparr> else st)
           else st\<lparr>kv_orig := or_insert k v (kv_orig st)\<rparr>))"

definition proto_of_name :: "string \<Rightarrow> Protocol option" where
  "proto_of_name s = (if s = ''tcp'' then Some Tcp else if s = ''udp'' then Some Udp else None)"

fun proto_name :: "Protocol \<Rightarrow> string may_panic" where
  "proto_name Tcp = Some ''tcp''"
| "proto_name Udp = Some ''udp''"
| "proto_name OtherProto = None"

definition flow_key :: "string \<Rightarrow> IpAddr \<Rightarrow> u16 \<Rightarrow> IpAddr \<Rightarrow> u16 \<Rightarrow> string" where
  "flow_key name local lport remote rport =
     name @ '':'' @ show_ip local @ '':'' @ show_uint lport @ ''-'' @ show_ip remote @ '':'' @ show_uint rport"

text \<open>The connection state of a TCP line is skipped when it is there.\<close>

definition skip_state :: "Protocol \<Rightarrow> string list \<Rightarrow> string list" where
  "skip_state proto tokens =
     (if proto = Tcp then
        (case tokens of t # ts \<Rightarrow> if CHR ''='' \<notin> set t then ts else tokens | [] \<Rightarrow> tokens)
      else tokens)"

definition parse_line :: "string \<Rightarrow> ParsedFlow option" where
  "parse_line line =
     (case split_whitespace line of
        _ # _ # p # _ # _ # tokens \<Rightarrow> do {
          proto \<leftarrow> proto_of_name p;
          let st = fold kv_step (skip_state proto tokens) kv_init;
          src \<leftarrow> map_of (kv_orig st) ''src'';
          local \<leftarrow> parse_ip src;
          dst \<leftarrow> map_of (kv_orig st) ''dst'';
          remote \<leftarrow> parse_ip dst;
          sport \<leftarrow> map_of (kv_orig st) ''sport'';
          local_port \<leftarrow> parse_uint sport;
          dport \<leftarrow> map_of (kv_orig st) ''dport'';
          remote_port \<leftarrow> parse_uint dport;
          name \<leftarrow> proto_name proto;
          Some (flow_key name local local_port remote remote_port, proto, local, local_port, remote, remote_port,
            case_option 0 id (kv_orig_bytes st), case_option 0 id (kv_reply_bytes st))
        }
      | _ \<Rightarrow> None)"

section \<open>Specification\<close>

text \<open>A flow as the kernel prints it: addresses and ports in the original direction and in
  the reply direction (which differ under NAT), the counters when accounting is on, the
  state token of TCP, the flags between and after the two groups.\<close>

record kernel_flow =
  kf_l3 :: string
  kf_l3num :: string
  kf_proto :: Protocol
  kf_l4num :: string
  kf_timeout :: string
  kf_state :: string \<comment> \<open>printed for TCP only\<close>
  kf_src :: IpAddr
  kf_dst :: IpAddr
  kf_sport :: u16
  kf_dport :: u16
  kf_orig :: "(u64 \<times> u64) option" \<comment> \<open>packets, bytes\<close>
  kf_mid :: "string list"
  kf_rsrc :: IpAddr
  kf_rdst :: IpAddr
  kf_rsport :: u16
  kf_rdport :: u16
  kf_reply :: "(u64 \<times> u64) option"
  kf_tail :: "string list"

definition kv :: "string \<Rightarrow> string \<Rightarrow> string" where
  "kv k v = k @ ''='' @ v"

fun counter_tokens :: "(u64 \<times> u64) option \<Rightarrow> string list" where
  "counter_tokens None = []"
| "counter_tokens (Some (p, b)) = [kv ''packets'' (show_uint p), kv ''bytes'' (show_uint b)]"

definition tuple_tokens :: "IpAddr \<Rightarrow> IpAddr \<Rightarrow> u16 \<Rightarrow> u16 \<Rightarrow> string list" where
  "tuple_tokens s d sp dp =
     [kv ''src'' (show_ip s), kv ''dst'' (show_ip d), kv ''sport'' (show_uint sp), kv ''dport'' (show_uint dp)]"

definition proto_str :: "Protocol \<Rightarrow> string" where
  "proto_str p = (case p of Tcp \<Rightarrow> ''tcp'' | Udp \<Rightarrow> ''udp'' | OtherProto \<Rightarrow> ''icmp'')"

definition flow_tokens :: "kernel_flow \<Rightarrow> string list" where
  "flow_tokens f =
     [kf_l3 f, kf_l3num f, proto_str (kf_proto f), kf_l4num f, kf_timeout f] @
     (if kf_proto f = Tcp then [kf_state f] else []) @
     tuple_tokens (kf_src f) (kf_dst f) (kf_sport f) (kf_dport f) @ counter_tokens (kf_orig f) @ kf_mid f @
     tuple_tokens (kf_rsrc f) (kf_rdst f) (kf_rsport f) (kf_rdport f) @ counter_tokens (kf_reply f) @ kf_tail f"

text \<open>The state token and the flags between the groups (\<open>[UNREPLIED]\<close>) are no key=value
  pairs; what follows the second group carries no further byte counter.\<close>

definition kernel_flow_ok :: "kernel_flow \<Rightarrow> bool" where
  "kernel_flow_ok f \<longleftrightarrow> CHR ''='' \<notin> set (kf_state f) \<and>
     (\<forall>t \<in> set (kf_mid f). CHR ''='' \<notin> set t) \<and>
     (\<forall>t \<in> set (kf_tail f). \<forall>v. t \<noteq> kv ''bytes'' v)"

definition bytes_of :: "(u64 \<times> u64) option \<Rightarrow> u64" where
  "bytes_of c = (case c of None \<Rightarrow> 0 | Some (p, b) \<Rightarrow> b)"

section \<open>Lemmas\<close>

subsection \<open>The loop\<close>

lemma kv_once: "CHR ''='' \<notin> set k \<Longrightarrow> split_once CHR ''='' (kv k v) = Some (k, v)"
  by (simp add: kv_def split_once_Some)

lemma kv_step_flag: "CHR ''='' \<notin> set t \<Longrightarrow> kv_step t st = st"
  using split_once_None [of "CHR ''=''" t] by (simp add: kv_step_def)

lemma fold_kv_flags: "\<forall>t \<in> set ts. CHR ''='' \<notin> set t \<Longrightarrow> fold kv_step ts st = st"
  by (induction ts) (simp_all add: kv_step_flag)

definition orig_map :: "kernel_flow \<Rightarrow> (string, string) hashmap" where
  "orig_map f = [(''src'', show_ip (kf_src f)), (''dst'', show_ip (kf_dst f)),
     (''sport'', show_uint (kf_sport f)), (''dport'', show_uint (kf_dport f))] @
     (case kf_orig f of None \<Rightarrow> [] | Some (p, b) \<Rightarrow> [(''packets'', show_uint p)])"

lemma fold_kv_orig:
  "fold kv_step (tuple_tokens (kf_src f) (kf_dst f) (kf_sport f) (kf_dport f) @ counter_tokens (kf_orig f)) kv_init =
    \<lparr>kv_orig = orig_map f, kv_reply_bytes = None,
     kv_orig_bytes = (case kf_orig f of None \<Rightarrow> None | Some (p, b) \<Rightarrow> Some b), kv_in_reply = False\<rparr>"
  by (cases "kf_orig f")
    (auto simp: tuple_tokens_def kv_step_def kv_once kv_init_def or_insert_def contains_key_def orig_map_def
      parse_uint_show)

lemma kv_step_reply_other:
  assumes "kv_in_reply st" "\<forall>v. t \<noteq> kv ''bytes'' v"
  shows "kv_step t st = st"
proof (cases "split_once CHR ''='' t")
  case (Some x)
  obtain k v where x: "x = (k, v)" by (cases x)
  with Some have "t = kv k v" using split_once_eq [of "CHR ''=''" t k v] by (auto simp: kv_def)
  with assms have "k \<noteq> ''bytes''" by auto
  with Some x assms(1) show ?thesis by (simp add: kv_step_def Let_def)
qed (simp add: kv_step_def)

lemma fold_kv_tail:
  "kv_in_reply st \<Longrightarrow> \<forall>t \<in> set ts. \<forall>v. t \<noteq> kv ''bytes'' v \<Longrightarrow> fold kv_step ts st = st"
  by (induction ts) (simp_all add: kv_step_reply_other)

lemma fold_kv_reply:
  assumes "contains_key ''src'' (kv_orig st)" "kv_reply_bytes st = None"
  shows "fold kv_step (tuple_tokens s d sp dp @ counter_tokens c) st =
    st\<lparr>kv_in_reply := True, kv_reply_bytes := (case c of None \<Rightarrow> None | Some (p, b) \<Rightarrow> Some b)\<rparr>"
  using assms
  by (cases c) (auto simp: tuple_tokens_def kv_step_def kv_once Let_def parse_uint_show)

lemma fold_kv_flow:
  assumes "kernel_flow_ok f"
  shows "fold kv_step (tuple_tokens (kf_src f) (kf_dst f) (kf_sport f) (kf_dport f) @
      counter_tokens (kf_orig f) @ kf_mid f @
      tuple_tokens (kf_rsrc f) (kf_rdst f) (kf_rsport f) (kf_rdport f) @ counter_tokens (kf_reply f) @ kf_tail f)
      kv_init =
    \<lparr>kv_orig = orig_map f,
     kv_reply_bytes = (case kf_reply f of None \<Rightarrow> None | Some (p, b) \<Rightarrow> Some b),
     kv_orig_bytes = (case kf_orig f of None \<Rightarrow> None | Some (p, b) \<Rightarrow> Some b), kv_in_reply = True\<rparr>"
proof -
  let ?st = "\<lparr>kv_orig = orig_map f, kv_reply_bytes = None,
     kv_orig_bytes = (case kf_orig f of None \<Rightarrow> None | Some (p, b) \<Rightarrow> Some b), kv_in_reply = False\<rparr>"
  have c: "contains_key ''src'' (kv_orig ?st)" by (simp add: contains_key_def orig_map_def)
  have "fold kv_step ((tuple_tokens (kf_src f) (kf_dst f) (kf_sport f) (kf_dport f) @ counter_tokens (kf_orig f)) @
      kf_mid f @ (tuple_tokens (kf_rsrc f) (kf_rdst f) (kf_rsport f) (kf_rdport f) @ counter_tokens (kf_reply f)) @
      kf_tail f) kv_init =
    fold kv_step (kf_tail f) (fold kv_step (tuple_tokens (kf_rsrc f) (kf_rdst f) (kf_rsport f) (kf_rdport f) @
      counter_tokens (kf_reply f)) ?st)"
    using assms unfolding fold_append o_apply fold_kv_orig [unfolded fold_append o_apply]
    by (simp add: fold_kv_flags kernel_flow_ok_def)
  also have "\<dots> = ?st\<lparr>kv_in_reply := True,
      kv_reply_bytes := (case kf_reply f of None \<Rightarrow> None | Some (p, b) \<Rightarrow> Some b)\<rparr>"
    using assms c by (simp add: fold_kv_reply fold_kv_tail kernel_flow_ok_def del: fold_append)
  finally show ?thesis by simp
qed

lemma orig_map_get [simp]:
  "map_of (orig_map f) ''src'' = Some (show_ip (kf_src f))"
  "map_of (orig_map f) ''dst'' = Some (show_ip (kf_dst f))"
  "map_of (orig_map f) ''sport'' = Some (show_uint (kf_sport f))"
  "map_of (orig_map f) ''dport'' = Some (show_uint (kf_dport f))"
  by (simp_all add: orig_map_def)

lemma skip_state_flow:
  assumes "kernel_flow_ok f"
  shows "skip_state (kf_proto f) ((if kf_proto f = Tcp then [kf_state f] else []) @ ts) = ts"
  using assms by (simp add: skip_state_def kernel_flow_ok_def)

lemma parse_line_flow:
  assumes "kernel_flow_ok f" "split_whitespace line = flow_tokens f" "kf_proto f \<noteq> OtherProto"
  shows "parse_line line = Some (flow_key (proto_str (kf_proto f)) (kf_src f) (kf_sport f) (kf_dst f) (kf_dport f),
    kf_proto f, kf_src f, kf_sport f, kf_dst f, kf_dport f, bytes_of (kf_orig f), bytes_of (kf_reply f))"
proof -
  have p: "proto_of_name (proto_str (kf_proto f)) = Some (kf_proto f)"
    "proto_name (kf_proto f) = Some (proto_str (kf_proto f))"
    using assms(3) by (cases "kf_proto f"; simp add: proto_of_name_def proto_str_def)+
  have s: "split_whitespace line = kf_l3 f # kf_l3num f # proto_str (kf_proto f) # kf_l4num f # kf_timeout f #
      ((if kf_proto f = Tcp then [kf_state f] else []) @
       tuple_tokens (kf_src f) (kf_dst f) (kf_sport f) (kf_dport f) @
       counter_tokens (kf_orig f) @ kf_mid f @
       tuple_tokens (kf_rsrc f) (kf_rdst f) (kf_rsport f) (kf_rdport f) @ counter_tokens (kf_reply f) @ kf_tail f)"
    by (simp add: assms(2) flow_tokens_def)
  show ?thesis
    unfolding parse_line_def s list.case p option.case Let_def
    by (simp only: skip_state_flow [OF assms(1)] fold_kv_flow [OF assms(1)] bind.bind_lunit kv_state.simps
        orig_map_get parse_ip_show parse_uint_show p)
      (cases "kf_orig f"; cases "kf_reply f"; auto simp: bytes_of_def)
qed

subsection \<open>Keys\<close>

lemma flow_key_inject:
  assumes "flow_key n l lp r rp = flow_key n' l' lp' r' rp'"
    and "CHR '':'' \<notin> set n" "CHR '':'' \<notin> set n'" "CHR ''-'' \<notin> set n" "CHR ''-'' \<notin> set n'"
  shows "n = n' \<and> l = l' \<and> lp = lp' \<and> r = r' \<and> rp = rp'"
proof -
  have "(n @ '':'' @ show_ip l @ '':'' @ show_uint lp) @ CHR ''-'' # (show_ip r @ '':'' @ show_uint rp) =
      (n' @ '':'' @ show_ip l' @ '':'' @ show_uint lp') @ CHR ''-'' # (show_ip r' @ '':'' @ show_uint rp')"
    using assms(1) by (simp add: flow_key_def)
  from append_sep_inject [OF this]
  have a: "n @ CHR '':'' # (show_ip l @ '':'' @ show_uint lp) = n' @ CHR '':'' # (show_ip l' @ '':'' @ show_uint lp')"
    and b: "show_ip r @ CHR '':'' # show_uint rp = show_ip r' @ CHR '':'' # show_uint rp'"
    using assms(4,5) by auto
  from append_sep_inject [OF a assms(2,3)]
  have n: "n = n'" and c: "show_ip l @ CHR '':'' # show_uint lp = show_ip l' @ CHR '':'' # show_uint lp'"
    by auto
  from append_last_sep_inject [OF b] append_last_sep_inject [OF c] n show ?thesis
    by (auto dest: show_ip_inject)
qed

section \<open>Properties\<close>

definition demo_flow :: kernel_flow where
  "demo_flow = \<lparr>kf_l3 = ''ipv4'', kf_l3num = ''2'', kf_proto = Tcp, kf_l4num = ''6'', kf_timeout = ''59'',
     kf_state = ''SYN_SENT'', kf_src = V4 (Ipv4Addr 10 0 0 5), kf_dst = V4 (Ipv4Addr 8 8 8 8),
     kf_sport = 40, kf_dport = 80, kf_orig = Some (2, 12), kf_mid = [''[UNREPLIED]''],
     kf_rsrc = V4 (Ipv4Addr 8 8 8 8), kf_rdst = V4 (Ipv4Addr 1 2 3 4), kf_rsport = 80, kf_rdport = 40,
     kf_reply = Some (0, 7), kf_tail = [''mark=0'', ''use=2'']\<rparr>"

lemma demo_flow_ok: "kernel_flow_ok demo_flow"
  by (simp add: kernel_flow_ok_def demo_flow_def kv_def)

lemma token_kv: "token k \<Longrightarrow> token v \<Longrightarrow> token (kv k v)"
  by (auto simp: kv_def token_def printable_def)

lemma demo_flow_line: "split_whitespace (join '' '' (flow_tokens demo_flow)) = flow_tokens demo_flow"
proof (rule split_whitespace_join)
  have k: "token ''src''" "token ''dst''" "token ''sport''" "token ''dport''" "token ''packets''" "token ''bytes''"
    "token ''ipv4''" "token ''2''" "token ''tcp''" "token ''6''" "token ''59''" "token ''SYN_SENT''"
    "token ''[UNREPLIED]''" "token ''mark=0''" "token ''use=2''"
    by (simp_all add: token_def printable_def)
  fix t
  assume "t \<in> set (flow_tokens demo_flow)"
  then show "token t"
    using k by (auto simp: flow_tokens_def demo_flow_def tuple_tokens_def proto_str_def intro!: token_kv
        simp del: show_ip.simps show_ipv4.simps)
qed

text \<open>C20: The flow table is read as the kernel writes it: for every TCP or UDP line, with or
  without byte accounting, replied to or not, with NAT or not, over IPv4 or IPv6, the parser
  returns the original direction's addresses and ports, its byte counter as sent and the
  reply direction's as received (0 without accounting).\<close>

theorem parse_line_roundtrip:
  assumes "kernel_flow_ok f" and "split_whitespace line = flow_tokens f" and "kf_proto f \<noteq> OtherProto"
  shows "parse_line line = Some (flow_key (proto_str (kf_proto f)) (kf_src f) (kf_sport f) (kf_dst f) (kf_dport f),
    kf_proto f, kf_src f, kf_sport f, kf_dst f, kf_dport f, bytes_of (kf_orig f), bytes_of (kf_reply f))"
  by (rule parse_line_flow [OF assms])

theorem parse_line_roundtrip_witness:
  "\<exists>key. parse_line (join '' '' (flow_tokens demo_flow)) =
     Some (key, Tcp, V4 (Ipv4Addr 10 0 0 5), 40, V4 (Ipv4Addr 8 8 8 8), 80, 12, 7)"
  using parse_line_roundtrip [OF demo_flow_ok demo_flow_line]
  by (simp add: demo_flow_def bytes_of_def)

text \<open>A flow's key determines the flow: two lines with the same key have the same protocol,
  addresses and ports, so the hash map never merges two different flows.\<close>

theorem flow_key_unique:
  assumes "parse_line line = Some (key, proto, l, lp, r, rp, sent, recv)"
    and "parse_line line' = Some (key, proto', l', lp', r', rp', sent', recv')"
  shows "proto = proto' \<and> l = l' \<and> lp = lp' \<and> r = r' \<and> rp = rp'"
proof -
  have shape: "\<exists>n. proto_name q = Some n \<and> k = flow_key n a p b p' \<and> CHR '':'' \<notin> set n \<and> CHR ''-'' \<notin> set n"
    if "parse_line s = Some (k, q, a, p, b, p', x, y)" for s k q a p b p' x y
    using that
    by (cases q) (auto simp: parse_line_def Let_def split: list.splits bind_splits)
  from shape [OF assms(1)] shape [OF assms(2)]
  obtain n n' where n: "proto_name proto = Some n" "proto_name proto' = Some n'"
    "flow_key n l lp r rp = flow_key n' l' lp' r' rp'"
    "CHR '':'' \<notin> set n" "CHR '':'' \<notin> set n'" "CHR ''-'' \<notin> set n" "CHR ''-'' \<notin> set n'"
    by metis
  from flow_key_inject [OF n(3-7)] n(1,2) show ?thesis
    by (cases proto; cases proto') auto
qed

theorem flow_key_unique_witness:
  "\<exists>key. parse_line (join '' '' (flow_tokens demo_flow)) =
     Some (key, Tcp, V4 (Ipv4Addr 10 0 0 5), 40, V4 (Ipv4Addr 8 8 8 8), 80, 12, 7) \<and>
   (\<forall>line proto l lp r rp s d. parse_line line = Some (key, proto, l, lp, r, rp, s, d) \<longrightarrow> lp = 40 \<and> rp = 80)"
proof -
  obtain key where p: "parse_line (join '' '' (flow_tokens demo_flow)) =
     Some (key, Tcp, V4 (Ipv4Addr 10 0 0 5), 40, V4 (Ipv4Addr 8 8 8 8), 80, 12, 7)"
    using parse_line_flow [OF demo_flow_ok demo_flow_line] by (simp add: demo_flow_def bytes_of_def)
  with flow_key_unique [OF _ p] show ?thesis by blast
qed

end
