(* ===== verification/Framing.thy ===== *)
theory Framing
  imports CoreTypes
begin

text \<open>
  \<open>crates/core/src/ipc.rs\<close>: one message per frame, a 4-byte big-endian length and then the
  JSON body.  A reader is the bytes it will still deliver and how it ends; a writer is the
  bytes written so far and, when the peer goes away, after how many of them it fails.  The
  JSON encoder and decoder (\<open>serde_json\<close>) are the parameters \<open>to_vec\<close> and \<open>from_slice\<close>.
\<close>

type_synonym bytes = "u8 list"

datatype IoErrorKind = UnexpectedEof | OtherIo

datatype IpcError = Io IoErrorKind | Json | FrameTooLarge u32 | Closed

definition MAX_FRAME :: u32 where "MAX_FRAME = 16 * 1024 * 1024"

record reader =
  rd_bytes :: bytes
  rd_broken :: bool \<comment> \<open>ends in an I/O error rather than at end of file\<close>

record writer =
  wr_out :: bytes
  wr_limit :: "nat option"

section \<open>Definitions\<close>

definition read_exact :: "nat \<Rightarrow> reader \<Rightarrow> IoErrorKind + (bytes \<times> reader)" where
  "read_exact n r =
     (if n \<le> length (rd_bytes r)
      then Inr (take n (rd_bytes r), r\<lparr>rd_bytes := drop n (rd_bytes r)\<rparr>)
      else Inl (if rd_broken r then OtherIo else UnexpectedEof))"

definition write_all :: "bytes \<Rightarrow> writer \<Rightarrow> writer \<times> (IoErrorKind + unit)" where
  "write_all bs w =
     (case wr_limit w of
        None \<Rightarrow> (w\<lparr>wr_out := wr_out w @ bs\<rparr>, Inr ())
      | Some k \<Rightarrow>
          if length (wr_out w) + length bs \<le> k then (w\<lparr>wr_out := wr_out w @ bs\<rparr>, Inr ())
          else (w\<lparr>wr_out := take k (wr_out w @ bs)\<rparr>, Inl OtherIo))"

text \<open>\<open>u32::from_be_bytes\<close> on a 4-byte buffer, and \<open>u32::to_be_bytes\<close>.\<close>

definition u32_from_be :: "bytes \<Rightarrow> u32" where
  "u32_from_be bs = of_nat (foldl (\<lambda>acc b. acc * 256 + unat b) 0 bs)"

definition u32_to_be :: "u32 \<Rightarrow> bytes" where
  "u32_to_be w =
     [of_nat (unat w div 16777216), of_nat (unat w div 65536 mod 256),
      of_nat (unat w div 256 mod 256), of_nat (unat w mod 256)]"

definition read_frame :: "(bytes \<Rightarrow> 'a option) \<Rightarrow> reader \<Rightarrow> IpcError + ('a \<times> reader)" where
  "read_frame from_slice r =
     (case read_exact 4 r of
        Inl UnexpectedEof \<Rightarrow> Inl Closed
      | Inl e \<Rightarrow> Inl (Io e)
      | Inr (len_buf, r) \<Rightarrow>
          (let len = u32_from_be len_buf in
           if len > MAX_FRAME then Inl (FrameTooLarge len)
           else (case read_exact (unat len) r of
               Inl e \<Rightarrow> Inl (Io e)
             | Inr (buf, r) \<Rightarrow>
                 (case from_slice buf of None \<Rightarrow> Inl Json | Some v \<Rightarrow> Inr (v, r)))))"

definition write_frame :: "('a \<Rightarrow> bytes option) \<Rightarrow> 'a \<Rightarrow> writer \<Rightarrow> writer \<times> (IpcError + unit)" where
  "write_frame to_vec v w =
     (case to_vec v of
        None \<Rightarrow> (w, Inl Json)
      | Some body \<Rightarrow>
          (let len = u32_to_be (of_nat (length body)) in
           case write_all len w of
             (w, Inl e) \<Rightarrow> (w, Inl (Io e))
           | (w, Inr _) \<Rightarrow>
               (case write_all body w of
                  (w, Inl e) \<Rightarrow> (w, Inl (Io e))
                | (w, Inr _) \<Rightarrow> (w, Inr ()))))"

text \<open>Several values written one after the other, and read back until an error.\<close>

fun write_frames :: "('a \<Rightarrow> bytes option) \<Rightarrow> 'a list \<Rightarrow> writer \<Rightarrow> writer \<times> (IpcError + unit)" where
  "write_frames to_vec [] w = (w, Inr ())"
| "write_frames to_vec (v # vs) w =
     (case write_frame to_vec v w of
        (w, Inl e) \<Rightarrow> (w, Inl e)
      | (w, Inr _) \<Rightarrow> write_frames to_vec vs w)"

lemma read_frame_shrinks:
  "read_frame d r = Inr (v, r') \<Longrightarrow> length (rd_bytes r') < length (rd_bytes r)"
  by (force simp: read_frame_def read_exact_def Let_def split: sum.splits IoErrorKind.splits
      if_splits option.splits)

function read_frames :: "(bytes \<Rightarrow> 'a option) \<Rightarrow> reader \<Rightarrow> 'a list \<times> IpcError" where
  "read_frames d r =
     (case read_frame d r of
        Inl e \<Rightarrow> ([], e)
      | Inr (v, r') \<Rightarrow> (let (vs, e) = read_frames d r' in (v # vs, e)))"
  by pat_completeness auto
termination
  by (relation "measure (\<lambda>(d, r). length (rd_bytes r))") (auto dest: read_frame_shrinks)

declare read_frames.simps [simp del]

section \<open>The length prefix\<close>

lemma u32_be_roundtrip: "u32_from_be (u32_to_be w) = w"
proof -
  define n where "n = unat w"
  have n: "n < 2 ^ LENGTH(32)" unfolding n_def by (rule unsigned_less)
  define a b c where "a = n div 256" and "b = a div 256" and "c = b div 256"
  have d: "n div 65536 = b" "n div 16777216 = c"
    by (simp_all add: a_def b_def c_def flip: div_mult2_eq)
  have c: "c < 256"
    using n by (simp add: d [symmetric] div_less_iff_less_mult)
  have "foldl (\<lambda>acc x. acc * 256 + unat x) 0 (u32_to_be w)
      = ((c * 256 + b mod 256) * 256 + a mod 256) * 256 + n mod 256"
    using c by (simp add: u32_to_be_def flip: n_def)
      (simp add: d unat_of_nat take_bit_eq_mod flip: a_def)
  also have "c * 256 + b mod 256 = b" by (simp add: c_def)
  also have "b * 256 + a mod 256 = a" by (simp add: b_def)
  also have "a * 256 + n mod 256 = n" by (simp add: a_def)
  finally show ?thesis by (simp add: u32_from_be_def n_def)
qed

lemma length_u32_to_be [simp]: "length (u32_to_be w) = 4"
  by (simp add: u32_to_be_def)

definition frame_of :: "bytes \<Rightarrow> bytes" where
  "frame_of body = u32_to_be (of_nat (length body)) @ body"

section \<open>Reading and writing frames\<close>

text \<open>What the program relies on in \<open>serde_json\<close>: a value that was encoded decodes to itself.\<close>

definition decodes_encoded :: "('a \<Rightarrow> bytes option) \<Rightarrow> (bytes \<Rightarrow> 'a option) \<Rightarrow> bool" where
  "decodes_encoded to_vec from_slice \<longleftrightarrow>
     (\<forall>v body. to_vec v = Some body \<longrightarrow> from_slice body = Some v)"

lemma decodes_encodedD:
  "decodes_encoded to_vec from_slice \<Longrightarrow> to_vec v = Some body \<Longrightarrow> from_slice body = Some v"
  by (simp add: decodes_encoded_def)

lemma write_frame_ok:
  assumes "to_vec v = Some body" "wr_limit w = None"
  shows "write_frame to_vec v w = (w\<lparr>wr_out := wr_out w @ frame_of body\<rparr>, Inr ())"
  using assms by (simp add: write_frame_def write_all_def frame_of_def)

lemma read_frame_small:
  assumes "length body \<le> unat MAX_FRAME"
  shows "read_frame d \<lparr>rd_bytes = frame_of body @ rest, rd_broken = br\<rparr> =
    (case d body of None \<Rightarrow> Inl Json | Some v \<Rightarrow> Inr (v, \<lparr>rd_bytes = rest, rd_broken = br\<rparr>))"
proof -
  have m: "unat MAX_FRAME = 16777216" by (simp add: MAX_FRAME_def)
  have u: "unat (of_nat (length body) :: u32) = length body"
    using assms by (simp add: m unat_of_nat take_bit_eq_mod)
  have "\<not> (of_nat (length body) :: u32) > MAX_FRAME"
    using assms by (simp add: word_less_nat_alt u)
  then show ?thesis
    by (simp add: read_frame_def read_exact_def frame_of_def u32_be_roundtrip u)
qed

lemma read_frame_oversized:
  assumes "unat MAX_FRAME < length body" "length body < 2 ^ 32"
  shows "read_frame d \<lparr>rd_bytes = frame_of body @ rest, rd_broken = br\<rparr> =
    Inl (FrameTooLarge (of_nat (length body)))"
proof -
  have u: "unat (of_nat (length body) :: u32) = length body"
    using assms by (simp add: unat_of_nat take_bit_eq_mod)
  have "(of_nat (length body) :: u32) > MAX_FRAME"
    using assms by (simp add: word_less_nat_alt u)
  then show ?thesis
    by (simp add: read_frame_def read_exact_def frame_of_def u32_be_roundtrip u)
qed

lemma write_frames_ok:
  assumes "\<And>v. v \<in> set vs \<Longrightarrow> to_vec v = Some (enc v)" "wr_limit w = None"
  shows "write_frames to_vec vs w =
    (w\<lparr>wr_out := wr_out w @ concat (map (\<lambda>v. frame_of (enc v)) vs)\<rparr>, Inr ())"
  using assms by (induction vs arbitrary: w) (simp_all add: write_frame_ok)

lemma read_frames_concat:
  assumes "\<And>v. v \<in> set vs \<Longrightarrow> d (enc v) = Some v \<and> length (enc v) \<le> unat MAX_FRAME"
  shows "read_frames d \<lparr>rd_bytes = concat (map (\<lambda>v. frame_of (enc v)) vs), rd_broken = False\<rparr> = (vs, Closed)"
  using assms
proof (induction vs)
  case Nil
  then show ?case by (subst read_frames.simps) (simp add: read_frame_def read_exact_def)
next
  case (Cons v vs)
  then show ?case by (subst read_frames.simps) (simp add: read_frame_small)
qed

text \<open>What a reader can conclude from a frame that was cut off.\<close>

lemma read_frame_truncated:
  assumes "length body \<le> unat MAX_FRAME" "n < length (frame_of body)"
  shows "read_frame d \<lparr>rd_bytes = take n (frame_of body), rd_broken = False\<rparr> =
    Inl (if n < 4 then Closed else Io UnexpectedEof)"
proof (cases "n < 4")
  case True
  then show ?thesis by (simp add: read_frame_def read_exact_def frame_of_def)
next
  case False
  have m: "unat MAX_FRAME = 16777216" by (simp add: MAX_FRAME_def)
  have u: "unat (of_nat (length body) :: u32) = length body"
    using assms by (simp add: m unat_of_nat take_bit_eq_mod)
  have "\<not> (of_nat (length body) :: u32) > MAX_FRAME"
    using assms by (simp add: word_less_nat_alt u)
  with False assms(2) show ?thesis
    by (auto simp: read_frame_def read_exact_def frame_of_def u32_be_roundtrip u)
qed

section \<open>Properties\<close>

text \<open>A one-byte codec for the witnesses: 65 stands for a value, nothing else decodes.\<close>

definition demo_to_vec :: "bool \<Rightarrow> bytes option" where
  "demo_to_vec b = Some (if b then [65] else [66, 66])"

definition demo_from_slice :: "bytes \<Rightarrow> bool option" where
  "demo_from_slice bs = (if bs = [65] then Some True else if bs = [66, 66] then Some False else None)"

lemma demo_decodes: "decodes_encoded demo_to_vec demo_from_slice"
  by (simp add: decodes_encoded_def demo_to_vec_def demo_from_slice_def)

text \<open>C17: Whatever messages are written to a connection are the messages read from it, in
  order and with the frame boundaries kept, and the end of the stream is then reported as
  a closed connection; this holds as long as every body is at most \<open>MAX_FRAME\<close> bytes.\<close>

theorem frames_roundtrip:
  assumes "decodes_encoded to_vec from_slice"
    and "\<And>v. v \<in> set vs \<Longrightarrow> \<exists>body. to_vec v = Some body \<and> length body \<le> unat MAX_FRAME"
    and "write_frames to_vec vs \<lparr>wr_out = [], wr_limit = None\<rparr> = (w, res)"
  shows "res = Inr () \<and> read_frames from_slice \<lparr>rd_bytes = wr_out w, rd_broken = False\<rparr> = (vs, Closed)"
proof -
  define enc where "enc v = the (to_vec v)" for v
  have e: "to_vec v = Some (enc v) \<and> length (enc v) \<le> unat MAX_FRAME" if "v \<in> set vs" for v
    using assms(2) [OF that] by (auto simp: enc_def)
  have "from_slice (enc v) = Some v \<and> length (enc v) \<le> unat MAX_FRAME" if "v \<in> set vs" for v
    using e [OF that] assms(1) by (auto dest: decodes_encodedD)
  note r = read_frames_concat [of vs from_slice enc, OF this]
  have "write_frames to_vec vs \<lparr>wr_out = [], wr_limit = None\<rparr> =
      (\<lparr>wr_out = concat (map (\<lambda>v. frame_of (enc v)) vs), wr_limit = None\<rparr>, Inr ())"
    using write_frames_ok [of vs to_vec enc "\<lparr>wr_out = [], wr_limit = None\<rparr>"] e by simp
  with assms(3) r show ?thesis by auto
qed

theorem frames_roundtrip_witness:
  "\<exists>w. write_frames demo_to_vec [True, False, True] \<lparr>wr_out = [], wr_limit = None\<rparr> = (w, Inr ()) \<and>
     read_frames demo_from_slice \<lparr>rd_bytes = wr_out w, rd_broken = False\<rparr> = ([True, False, True], Closed)"
proof -
  obtain w res where w: "write_frames demo_to_vec [True, False, True] \<lparr>wr_out = [], wr_limit = None\<rparr> = (w, res)"
    by (meson surj_pair)
  have "\<exists>body. demo_to_vec v = Some body \<and> length body \<le> unat MAX_FRAME" for v
    by (simp add: demo_to_vec_def MAX_FRAME_def)
  from frames_roundtrip [OF demo_decodes this w] w show ?thesis by auto
qed

text \<open>A peer that goes away in the middle of a frame: the writer gets an error, and the
  reader reports a closed connection or an unexpected end of file; no message is ever
  decoded from a torn frame, and the messages before it are intact.\<close>

theorem torn_frame:
  assumes "to_vec v = Some body" and "length body \<le> unat MAX_FRAME"
    and "write_frame to_vec v \<lparr>wr_out = [], wr_limit = Some k\<rparr> = (w, Inl e)"
  shows "e = Io OtherIo \<and> k < length (frame_of body) \<and> wr_out w = take k (frame_of body) \<and>
    read_frame from_slice \<lparr>rd_bytes = wr_out w, rd_broken = False\<rparr> =
      Inl (if k < 4 then Closed else Io UnexpectedEof)"
proof -
  have w: "e = Io OtherIo \<and> k < length (frame_of body) \<and> wr_out w = take k (frame_of body)"
    using assms(1,3) by (auto simp: write_frame_def write_all_def frame_of_def Let_def split: if_splits)
  with read_frame_truncated [OF assms(2), of k from_slice] show ?thesis by simp
qed

theorem torn_frame_witness:
  "\<exists>w. write_frame demo_to_vec False \<lparr>wr_out = [], wr_limit = Some 5\<rparr> = (w, Inl (Io OtherIo)) \<and>
     read_frame demo_from_slice \<lparr>rd_bytes = wr_out w, rd_broken = False\<rparr> = Inl (Io UnexpectedEof)"
proof -
  obtain w where w: "write_frame demo_to_vec False \<lparr>wr_out = [], wr_limit = Some 5\<rparr> = (w, Inl (Io OtherIo))"
    by (simp add: write_frame_def demo_to_vec_def write_all_def)
  have t: "demo_to_vec False = Some [66, 66]" by (simp add: demo_to_vec_def)
  have l: "length [66, 66 :: u8] \<le> unat MAX_FRAME" by (simp add: MAX_FRAME_def)
  from torn_frame [OF t l w, of demo_from_slice]
  have "read_frame demo_from_slice \<lparr>rd_bytes = wr_out w, rd_broken = False\<rparr> = Inl (Io UnexpectedEof)"
    by (elim conjE) simp
  with w show ?thesis by blast
qed

text \<open>The two ends of the framing do not agree on the size limit: a body above
  \<open>MAX_FRAME\<close> (and below 4 GiB) is written without complaint, and the peer rejects it
  before reading the body.\<close>

theorem oversized_frame:
  assumes "to_vec v = Some body" and "unat MAX_FRAME < length body" and "length body < 2 ^ 32"
    and "write_frame to_vec v \<lparr>wr_out = [], wr_limit = None\<rparr> = (w, res)"
  shows "res = Inr () \<and> read_frame from_slice \<lparr>rd_bytes = wr_out w, rd_broken = False\<rparr> =
    Inl (FrameTooLarge (of_nat (length body)))"
  using assms(4) write_frame_ok [of to_vec v body "\<lparr>wr_out = [], wr_limit = None\<rparr>", OF assms(1)]
    read_frame_oversized [OF assms(2,3), of from_slice "[]" False] by auto

theorem oversized_frame_witness:
  "\<exists>w. write_frame (\<lambda>_ :: unit. Some (replicate 16777217 65)) () \<lparr>wr_out = [], wr_limit = None\<rparr> = (w, Inr ()) \<and>
     read_frame (\<lambda>_. Some ()) \<lparr>rd_bytes = wr_out w, rd_broken = False\<rparr> = Inl (FrameTooLarge 16777217)"
proof -
  let ?enc = "\<lambda>_ :: unit. Some (replicate 16777217 65) :: bytes option"
  obtain w res where w: "write_frame ?enc () \<lparr>wr_out = [], wr_limit = None\<rparr> = (w, res)"
    by (meson surj_pair)
  have e: "?enc () = Some (replicate 16777217 65)" by (rule refl)
  have m: "unat MAX_FRAME < length (replicate 16777217 65 :: bytes)"
    "length (replicate 16777217 65 :: bytes) < 2 ^ 32"
    by (simp_all only: length_replicate) (simp_all add: MAX_FRAME_def)
  from oversized_frame [OF e m w, of "\<lambda>_. Some ()"] w show ?thesis
    unfolding length_replicate by auto
qed

end
