(* ===== verification/DaemonState.thy ===== *)
theory DaemonState
  imports Config Rules Attrib Procs Throttle
begin

text \<open>
  The state every part of the daemon shares (\<open>crates/daemon/src/state.rs\<close>) and the
  attribution of a flow to a process.  The locks disappear: an operation that runs under a
  lock is a function on the record.  \<open>ds_events\<close> is everything sent on the broadcast
  channel so far, and \<open>ds_disk\<close> the files the rule store writes.  What the operating
  system shows during an attribution is an input.
\<close>

section \<open>Definitions\<close>

type_synonym connections = "(string, ConnectionInfo) hashmap"

record Firewall =
  fw_queue_num :: u16

record DaemonState =
  ds_config :: Config
  ds_started :: time
  ds_paused :: bool
  ds_filtering_active :: bool
  ds_blocked_count :: u64
  ds_rules :: Inner
  ds_disk :: disk
  ds_processes :: processes
  ds_connections :: connections
  ds_attrib :: Attributor
  ds_block_log :: LogThrottle
  ds_events :: "Event list"
  ds_network :: "NetworkInfo option"
  ds_firewall :: "Firewall option"

definition daemon_new :: "(string \<Rightarrow> Persisted option) \<Rightarrow> time \<Rightarrow> time \<Rightarrow> read_error + string \<Rightarrow> disk \<Rightarrow> Config \<Rightarrow> DaemonState" where
  "daemon_new from_json now started rules_text dk config =
     \<lparr>ds_config = config, ds_started = started, ds_paused = False, ds_filtering_active = False,
      ds_blocked_count = 0, ds_rules = load from_json now (cf_rules_file config) rules_text, ds_disk = dk,
      ds_processes = [], ds_connections = [], ds_attrib = attributor_new, ds_block_log = throttle_default,
      ds_events = [], ds_network = None, ds_firewall = None\<rparr>"

definition uptime_secs :: "time \<Rightarrow> DaemonState \<Rightarrow> u64" where
  "uptime_secs now s = of_int (max 0 (now - ds_started s) div 1000000000)"

definition is_paused :: "DaemonState \<Rightarrow> bool" where
  "is_paused s = ds_paused s"

definition publish :: "Event \<Rightarrow> DaemonState \<Rightarrow> DaemonState" where
  "publish e s = s\<lparr>ds_events := ds_events s @ [e]\<rparr>"

text \<open>What the system shows during one attribution: the proc tables, and a process opened by pid.\<close>

record os_env =
  oe_proc :: proc_env
  oe_process :: "u32 \<Rightarrow> proc_handle option"

type_synonym attribution = "u32 option \<times> string option \<times> path option"

definition attribute :: "os_env \<Rightarrow> Protocol \<Rightarrow> u16 \<Rightarrow> DaemonState \<Rightarrow> attribution \<times> DaemonState" where
  "attribute env proto local_port s =
     (let (pid, at) = lookup (oe_proc env) proto local_port (ds_attrib s);
          s = s\<lparr>ds_attrib := at\<rparr>
      in (case pid of
            None \<Rightarrow> (None, None, None)
          | Some pid \<Rightarrow>
              (case map_of (ds_processes s) pid of
                 Some p \<Rightarrow> (Some pid, Some (pi_name p), pi_exe p)
               | None \<Rightarrow>
                   (case lookup_process (oe_process env) pid of
                      Some p \<Rightarrow> (Some pid, Some (pi_name p), pi_exe p)
                    | None \<Rightarrow> (Some pid, None, None))), s))"

section \<open>Lemmas\<close>

text \<open>An attribution changes nothing but the attributor's cache.\<close>

lemma attribute_state: "snd (attribute env proto port s) = s\<lparr>ds_attrib := snd (lookup (oe_proc env) proto port (ds_attrib s))\<rparr>"
  by (simp add: attribute_def Let_def split: prod.split)

lemma attribute_frame [frame_simps]:
  "ds_connections (snd (attribute env proto port s)) = ds_connections s"
  "ds_events (snd (attribute env proto port s)) = ds_events s"
  "ds_rules (snd (attribute env proto port s)) = ds_rules s"
  "ds_paused (snd (attribute env proto port s)) = ds_paused s"
  "ds_processes (snd (attribute env proto port s)) = ds_processes s"
  "ds_block_log (snd (attribute env proto port s)) = ds_block_log s"
  "ds_blocked_count (snd (attribute env proto port s)) = ds_blocked_count s"
  "ds_config (snd (attribute env proto port s)) = ds_config s"
  by (simp_all add: attribute_state)

text \<open>The executable comes from the scanned map when the pid is in it, and from a direct
  look at the process otherwise.\<close>

definition exe_of_pid :: "os_env \<Rightarrow> DaemonState \<Rightarrow> u32 \<Rightarrow> path option" where
  "exe_of_pid env s pid =
     (case map_of (ds_processes s) pid of
        Some p \<Rightarrow> pi_exe p
      | None \<Rightarrow> Option.bind (oe_process env pid) (\<lambda>p. Option.bind (pr_stat p) (\<lambda>_. pr_exe p)))"

lemma attribute_result:
  "fst (attribute env proto port s) = (pid, name, exe) \<Longrightarrow>
     fst (lookup (oe_proc env) proto port (ds_attrib s)) = pid \<and>
     exe = (case pid of None \<Rightarrow> None | Some p \<Rightarrow> exe_of_pid env s p)"
  by (auto simp: attribute_def exe_of_pid_def lookup_process_def Let_def
      split: prod.splits option.splits bind_splits)

lemma publish_frame [frame_simps]:
  "ds_connections (publish e s) = ds_connections s" "ds_rules (publish e s) = ds_rules s"
  "ds_events (publish e s) = ds_events s @ [e]" "ds_paused (publish e s) = ds_paused s"
  "ds_processes (publish e s) = ds_processes s" "ds_attrib (publish e s) = ds_attrib s"
  by (simp_all add: publish_def)

end
