(* ===== verification/Conntrack.thy ===== *)
theory Conntrack
  imports DaemonState FlowLine
begin

text \<open>
  The connection tracker (\<open>crates/daemon/src/conntrack.rs\<close>): one poll of the flow table
  brings the shared map of connections up to date and publishes an event for every change.
  The kernel's file, the clock, what each attribution sees, and the iteration orders of the
  two hash maps are inputs.
\<close>

section \<open>Definitions\<close>

type_synonym seen_flows = "(string, ParsedFlow) hashmap"

record poll_input =
  po_text :: "string option"
  po_now :: time
  po_env :: "string \<Rightarrow> os_env" \<comment> \<open>what the attribution of a new flow sees\<close>
  po_old_order :: "string list \<Rightarrow> string list"
  po_order :: "seen_flows \<Rightarrow> seen_flows"

fun see_flow :: "ParsedFlow \<Rightarrow> seen_flows \<Rightarrow> seen_flows" where
  "see_flow (key, proto, local, lport, remote, rport, sent, recv) seen =
     (case map_of seen key of
        Some (k, p, l, lp, r, rp, s, rc) \<Rightarrow>
          AList.update key (k, p, l, lp, r, rp, max s sent, max rc recv) seen
      | None \<Rightarrow> AList.update key (key, proto, local, lport, remote, rport, sent, recv) seen)"

definition see_line :: "string \<Rightarrow> seen_flows \<Rightarrow> seen_flows" where
  "see_line line seen = (case parse_line line of None \<Rightarrow> seen | Some f \<Rightarrow> see_flow f seen)"

definition collect_seen :: "string list \<Rightarrow> seen_flows" where
  "collect_seen ls = fold see_line ls []"

definition close_flow :: "string \<Rightarrow> DaemonState \<Rightarrow> DaemonState" where
  "close_flow key s = publish (ConnectionClosed key) (s\<lparr>ds_connections := AList.delete key (ds_connections s)\<rparr>)"

fun visit_flow :: "time \<Rightarrow> (string \<Rightarrow> os_env) \<Rightarrow> string \<times> ParsedFlow \<Rightarrow> DaemonState \<Rightarrow> DaemonState" where
  "visit_flow now env (key, (_, proto, local, lport, remote, rport, sent, recv)) s =
     (case map_of (ds_connections s) key of
        Some existing \<Rightarrow>
          if c_bytes_sent existing \<noteq> sent \<or> c_bytes_recv existing \<noteq> recv then
            (let existing = existing\<lparr>c_bytes_sent := sent, c_bytes_recv := recv, c_last_seen := now\<rparr>
             in publish (ConnectionUpdated existing)
                  (s\<lparr>ds_connections := AList.update key existing (ds_connections s)\<rparr>))
          else s
      | None \<Rightarrow>
          (let ((pid, process_name, exe), s) = attribute (env key) proto lport s;
               info = \<lparr>c_key = key, c_protocol = proto, c_local_addr = local, c_local_port = lport,
                 c_remote_addr = remote, c_remote_port = rport, c_bytes_sent = sent, c_bytes_recv = recv,
                 c_pid = pid, c_process_name = process_name, c_exe = exe,
                 c_started = now, c_last_seen = now\<rparr>
           in publish (ConnectionOpened info)
                (s\<lparr>ds_connections := AList.update key info (ds_connections s)\<rparr>)))"

definition poll_once :: "poll_input \<Rightarrow> DaemonState \<Rightarrow> DaemonState" where
  "poll_once i s =
     (case po_text i of
        None \<Rightarrow> s
      | Some t \<Rightarrow>
          (let seen = collect_seen (lines t);
               closed = filter (\<lambda>k. \<not> contains_key k seen) (po_old_order i (map fst (ds_connections s)));
               s = fold close_flow closed s
           in fold (visit_flow (po_now i) (po_env i)) (po_order i seen) s))"

section \<open>Specification\<close>

definition conns_wf :: "connections \<Rightarrow> bool" where
  "conns_wf m \<longleftrightarrow> hm_wf m \<and> (\<forall>(k, c) \<in> set m. c_key c = k)"

definition poll_ok :: "poll_input \<Rightarrow> bool" where
  "poll_ok i \<longleftrightarrow> (\<forall>ks. mset (po_old_order i ks) = mset ks) \<and> (\<forall>m. mset (po_order i m) = mset m)"

text \<open>How a subscriber folds connection events into its own map.\<close>

fun observe_conns :: "Event \<Rightarrow> (string \<rightharpoonup> ConnectionInfo) \<Rightarrow> (string \<rightharpoonup> ConnectionInfo)" where
  "observe_conns (ConnectionOpened c) m = m(c_key c \<mapsto> c)"
| "observe_conns (ConnectionUpdated c) m = m(c_key c \<mapsto> c)"
| "observe_conns (ConnectionClosed key) m = m(key := None)"
| "observe_conns _ m = m"

definition conn_view :: "DaemonState \<Rightarrow> (string \<rightharpoonup> ConnectionInfo)" where
  "conn_view s = map_of (ds_connections s)"

definition poll_events :: "poll_input \<Rightarrow> DaemonState \<Rightarrow> Event list" where
  "poll_events i s = drop (length (ds_events s)) (ds_events (poll_once i s))"

text \<open>What a flow's entry becomes.\<close>

definition refreshed :: "time \<Rightarrow> u64 \<Rightarrow> u64 \<Rightarrow> ConnectionInfo \<Rightarrow> ConnectionInfo" where
  "refreshed now sent recv c =
     (if c_bytes_sent c \<noteq> sent \<or> c_bytes_recv c \<noteq> recv
      then c\<lparr>c_bytes_sent := sent, c_bytes_recv := recv, c_last_seen := now\<rparr> else c)"

text \<open>The counters of all lines of a key.\<close>

definition flow_counts :: "string list \<Rightarrow> string \<Rightarrow> (u64 \<times> u64) list" where
  "flow_counts ls key =
     concat (map (\<lambda>l. case parse_line l of
         Some (k, _, _, _, _, _, s, rc) \<Rightarrow> if k = key then [(s, rc)] else []
       | None \<Rightarrow> []) ls)"

section \<open>Lemmas\<close>

subsection \<open>The flows seen\<close>

lemma see_flow_wf: "hm_wf seen \<Longrightarrow> hm_wf (see_flow f seen)"
  by (cases f) (auto simp: distinct_update split: option.split)

lemma see_line_wf: "hm_wf seen \<Longrightarrow> hm_wf (see_line line seen)"
  by (simp add: see_line_def see_flow_wf split: option.split)

lemma collect_seen_wf: "hm_wf (collect_seen ls)"
proof -
  have "hm_wf seen \<Longrightarrow> hm_wf (fold see_line ls seen)" for seen
    by (induction ls arbitrary: seen) (simp_all add: see_line_wf)
  then show ?thesis by (simp add: collect_seen_def)
qed

lemma collect_seen_snoc: "collect_seen (ls @ [l]) = see_line l (collect_seen ls)"
  by (simp add: collect_seen_def)

text \<open>The counters kept for a key are the largest of its lines.\<close>

lemma flow_counts_snoc:
  "flow_counts (ls @ [l]) key = flow_counts ls key @ flow_counts [l] key"
  by (simp add: flow_counts_def)

lemma collect_seen_None: "map_of (collect_seen ls) key = None \<longleftrightarrow> flow_counts ls key = []"
proof (induction ls rule: rev_induct)
  case (snoc l ls)
  then show ?case
    by (auto simp: collect_seen_snoc see_line_def flow_counts_def update_conv' split: option.splits prod.splits)
qed (simp add: collect_seen_def flow_counts_def)

lemma collect_seen_Some:
  "map_of (collect_seen ls) key = Some (k, p, a, lp, r, rp, s, rc) \<Longrightarrow>
     k = key \<and> s = Max (fst ` set (flow_counts ls key)) \<and> rc = Max (snd ` set (flow_counts ls key)) \<and>
     (\<exists>l \<in> set ls. \<exists>s' rc'. parse_line l = Some (key, p, a, lp, r, rp, s', rc'))"
proof (induction ls arbitrary: k p a lp r rp s rc rule: rev_induct)
  case (snoc l ls)
  show ?case
  proof (cases "flow_counts [l] key = []")
    case True
    then have "map_of (collect_seen (ls @ [l])) key = map_of (collect_seen ls) key"
      by (auto simp: collect_seen_snoc see_line_def flow_counts_def update_conv' split: option.splits prod.splits)
    with snoc.prems have "map_of (collect_seen ls) key = Some (k, p, a, lp, r, rp, s, rc)" by simp
    from snoc.IH [OF this] True show ?thesis
      by (auto simp: flow_counts_snoc)
  next
    case False
    then obtain p1 a1 lp1 r1 rp1 s1 rc1 where l: "parse_line l = Some (key, p1, a1, lp1, r1, rp1, s1, rc1)"
      by (auto simp: flow_counts_def split: option.splits prod.splits if_splits)
    then have c: "flow_counts [l] key = [(s1, rc1)]" by (simp add: flow_counts_def)
    show ?thesis
    proof (cases "map_of (collect_seen ls) key")
      case None
      with snoc.prems l have "(k, p, a, lp, r, rp, s, rc) = (key, p1, a1, lp1, r1, rp1, s1, rc1)"
        by (simp add: collect_seen_snoc see_line_def update_conv')
      with None l c show ?thesis by (auto simp: flow_counts_snoc collect_seen_None)
    next
      case (Some g)
      obtain k0 p0 a0 lp0 r0 rp0 s0 rc0 where g: "g = (k0, p0, a0, lp0, r0, rp0, s0, rc0)" by (cases g) auto
      with Some have g': "map_of (collect_seen ls) key = Some (k0, p0, a0, lp0, r0, rp0, s0, rc0)" by simp
      from snoc.prems l g'
      have eq: "k = k0" "p = p0" "a = a0" "lp = lp0" "r = r0" "rp = rp0" "s = max s0 s1" "rc = max rc0 rc1"
        by (simp_all add: collect_seen_snoc see_line_def update_conv')
      have "flow_counts ls key \<noteq> []" using Some collect_seen_None [of ls key] by simp
      then show ?thesis
        using snoc.IH [OF g'] unfolding eq
        by (auto simp: flow_counts_snoc c max.commute)
    qed
  qed
qed (simp add: collect_seen_def)

subsection \<open>Steps and their events\<close>

text \<open>A step that publishes what it does to the map: the events it appends, folded by a
  subscriber, give the new map.  The steps of a poll are of this kind, so the poll is.\<close>

fun conn_event :: "Event \<Rightarrow> bool" where
  "conn_event (ConnectionOpened _) = True"
| "conn_event (ConnectionUpdated _) = True"
| "conn_event (ConnectionClosed _) = True"
| "conn_event _ = False"

definition follows :: "DaemonState \<Rightarrow> DaemonState \<Rightarrow> bool" where
  "follows s s' \<longleftrightarrow> (\<exists>es. ds_events s' = ds_events s @ es \<and> list_all conn_event es \<and>
     conn_view s' = fold observe_conns es (conn_view s))"

lemma follows_refl: "follows s s"
  unfolding follows_def by (rule exI [of _ "[]"]) simp

lemma follows_trans: "follows s s' \<Longrightarrow> follows s' s'' \<Longrightarrow> follows s s''"
  unfolding follows_def by (metis append_assoc comp_apply fold_append list_all_append)

lemma follows_publish:
  "ds_events s1 = ds_events s \<Longrightarrow> conn_event e \<Longrightarrow> conn_view s1 = observe_conns e (conn_view s) \<Longrightarrow>
     follows s (publish e s1)"
  unfolding follows_def by (rule exI [of _ "[e]"]) (simp add: publish_def conn_view_def)

lemma conns_wf_update: "conns_wf m \<Longrightarrow> c_key c = k \<Longrightarrow> conns_wf (AList.update k c m)"
proof -
  assume m: "conns_wf m" "c_key c = k"
  then have wf: "hm_wf m" "hm_wf (AList.update k c m)" by (simp_all add: conns_wf_def distinct_update)
  have "c_key b = a" if "(a, b) \<in> set (AList.update k c m)" for a b
  proof -
    have "map_of (AList.update k c m) a = Some b" using that wf(2) by simp
    then have "a = k \<and> b = c \<or> map_of m a = Some b" by (auto simp: update_conv' split: if_splits)
    with m wf(1) show ?thesis by (auto simp: conns_wf_def)
  qed
  with wf(2) show ?thesis by (auto simp: conns_wf_def)
qed

lemma conns_wf_get: "conns_wf m \<Longrightarrow> map_of m k = Some c \<Longrightarrow> c_key c = k"
  by (auto simp: conns_wf_def dest: map_of_SomeD)

lemma conns_wf_delete: "conns_wf m \<Longrightarrow> conns_wf (AList.delete k m)"
  by (auto simp: conns_wf_def AList.delete_eq intro: distinct_map_filter)

lemma close_flow_wf: "conns_wf (ds_connections s) \<Longrightarrow> conns_wf (ds_connections (close_flow k s))"
  by (simp add: close_flow_def frame_simps conns_wf_delete)

lemma close_flow_follows: "follows s (close_flow k s)"
  unfolding close_flow_def by (rule follows_publish) (simp_all add: conn_view_def delete_conv')

lemma visit_flow_wf:
  "conns_wf (ds_connections s) \<Longrightarrow> conns_wf (ds_connections (visit_flow now env kf s))"
proof -
  assume wf: "conns_wf (ds_connections s)"
  obtain key k p a lp r rp sent recv where kf: "kf = (key, k, p, a, lp, r, rp, sent, recv)" by (cases kf) auto
  show ?thesis
  proof (cases "map_of (ds_connections s) key")
    case None
    obtain pid nm exe s1 where at: "attribute (env key) p lp s = ((pid, nm, exe), s1)"
      by (cases "attribute (env key) p lp s") auto
    then have "ds_connections s1 = ds_connections s" using attribute_frame(1) [of "env key" p lp s] by simp
    with None at wf show ?thesis by (simp add: kf frame_simps Let_def conns_wf_update)
  next
    case (Some c)
    with wf show ?thesis by (simp add: kf frame_simps Let_def conns_wf_update conns_wf_get)
  qed
qed

lemma visit_flow_follows:
  assumes "conns_wf (ds_connections s)"
  shows "follows s (visit_flow now env kf s)"
proof -
  obtain key k p a lp r rp sent recv where kf: "kf = (key, k, p, a, lp, r, rp, sent, recv)" by (cases kf) auto
  show ?thesis
  proof (cases "map_of (ds_connections s) key")
    case None
    obtain pid nm exe s1 where at: "attribute (env key) p lp s = ((pid, nm, exe), s1)"
      by (cases "attribute (env key) p lp s") auto
    then have "ds_connections s1 = ds_connections s" "ds_events s1 = ds_events s"
      using attribute_frame(1,2) [of "env key" p lp s] by simp_all
    with None at show ?thesis
      by (simp add: kf Let_def) (rule follows_publish, simp_all add: conn_view_def update_conv')
  next
    case (Some c)
    with assms show ?thesis
      by (auto simp: kf Let_def conns_wf_get conn_view_def update_conv' intro: follows_refl follows_publish)
  qed
qed

lemma fold_close_follows:
  "follows s (fold close_flow ks s) \<and> (conns_wf (ds_connections s) \<longrightarrow> conns_wf (ds_connections (fold close_flow ks s)))"
proof (induction ks arbitrary: s)
  case (Cons k ks)
  from Cons [of "close_flow k s"] show ?case
    using close_flow_follows close_flow_wf follows_trans by (simp, blast)
qed (simp add: follows_refl)

lemma fold_visit_follows:
  "conns_wf (ds_connections s) \<Longrightarrow> follows s (fold (visit_flow now env) kfs s) \<and>
     conns_wf (ds_connections (fold (visit_flow now env) kfs s))"
proof (induction kfs arbitrary: s)
  case (Cons kf kfs)
  from Cons.IH [OF visit_flow_wf [OF Cons.prems, of now env kf]]
  show ?case using visit_flow_follows [OF Cons.prems] follows_trans by (simp, blast)
qed (simp add: follows_refl)

lemma poll_once_follows:
  assumes "conns_wf (ds_connections s)"
  shows "follows s (poll_once i s) \<and> conns_wf (ds_connections (poll_once i s))"
proof (cases "po_text i")
  case (Some t)
  let ?s1 = "fold close_flow (filter (\<lambda>k. \<not> contains_key k (collect_seen (lines t)))
    (po_old_order i (map fst (ds_connections s)))) s"
  have "follows s ?s1" "conns_wf (ds_connections ?s1)" using fold_close_follows assms by blast+
  with fold_visit_follows [of ?s1 "po_now i" "po_env i" "po_order i (collect_seen (lines t))"] Some
  show ?thesis by (auto simp: poll_once_def Let_def intro: follows_trans)
qed (use assms in \<open>simp add: poll_once_def follows_refl\<close>)

lemma poll_once_view:
  assumes "conns_wf (ds_connections s)"
  shows "conn_view (poll_once i s) = fold observe_conns (poll_events i s) (conn_view s)"
  using poll_once_follows [OF assms, of i] by (auto simp: follows_def poll_events_def)

interpretation tracker: publisher poll_once "\<lambda>_. True" "\<lambda>s. conns_wf (ds_connections s)" poll_events conn_view observe_conns
  by unfold_locales (simp_all add: poll_once_follows poll_once_view)

subsection \<open>The table after a poll\<close>

text \<open>The entry of a flow that is in the table: an old entry is refreshed, a new one records
  the flow and what the attribution found.\<close>

definition new_entry :: "time \<Rightarrow> string \<Rightarrow> ParsedFlow \<Rightarrow> attribution \<Rightarrow> ConnectionInfo" where
  "new_entry now key f att = (case f of (_, p, a, lp, r, rp, sent, recv) \<Rightarrow> case att of (pid, nm, exe) \<Rightarrow>
     \<lparr>c_key = key, c_protocol = p, c_local_addr = a, c_local_port = lp, c_remote_addr = r, c_remote_port = rp,
      c_bytes_sent = sent, c_bytes_recv = recv, c_pid = pid, c_process_name = nm, c_exe = exe,
      c_started = now, c_last_seen = now\<rparr>)"

definition entry_for :: "time \<Rightarrow> (string \<Rightarrow> os_env) \<Rightarrow> DaemonState \<Rightarrow> Attributor \<Rightarrow> string \<Rightarrow> ParsedFlow \<Rightarrow>
    ConnectionInfo \<Rightarrow> bool" where
  "entry_for now env s cache key f c = (case f of (_, p, a, lp, r, rp, sent, recv) \<Rightarrow>
     (case map_of (ds_connections s) key of
        Some q \<Rightarrow> c = refreshed now sent recv q
      | None \<Rightarrow> c = new_entry now key f (fst (attribute (env key) p lp (s\<lparr>ds_attrib := cache\<rparr>)))))"

text \<open>The attribution cache when the flow of a key is visited: the new flows before it went through it.\<close>

fun cache_step :: "(string \<Rightarrow> os_env) \<Rightarrow> connections \<Rightarrow> string \<times> ParsedFlow \<Rightarrow> Attributor \<Rightarrow> Attributor" where
  "cache_step env old (key, _, p, _, lp, _) a =
     (if map_of old key = None then snd (lookup (oe_proc (env key)) p lp a) else a)"

definition cache_at :: "(string \<Rightarrow> os_env) \<Rightarrow> connections \<Rightarrow> seen_flows \<Rightarrow> string \<Rightarrow> Attributor \<Rightarrow> Attributor" where
  "cache_at env old flows k = fold (cache_step env old) (takeWhile (\<lambda>kf. fst kf \<noteq> k) flows)"

lemma attribute_cong:
  "ds_processes s = ds_processes s' \<Longrightarrow> ds_attrib s = ds_attrib s' \<Longrightarrow> fst (attribute env p lp s) = fst (attribute env p lp s')"
  by (auto simp: attribute_def Let_def split: prod.split option.split)

lemma cache_at_cong:
  assumes "\<And>key. key \<in> fst ` set flows \<Longrightarrow> map_of old key = map_of old' key"
  shows "cache_at env old flows k = cache_at env old' flows k"
proof
  fix a
  have "map_of old (fst kf) = map_of old' (fst kf)" if "kf \<in> set (takeWhile (\<lambda>kf. fst kf \<noteq> k) flows)" for kf
    using set_takeWhileD [OF that] by (intro assms) simp
  note old = this
  show "cache_at env old flows k a = cache_at env old' flows k a"
    unfolding cache_at_def
  proof (intro fold_cong refl ext)
    show "cache_step env old x b = cache_step env old' x b" if "x \<in> set (takeWhile (\<lambda>kf. fst kf \<noteq> k) flows)" for x b
      using old [OF that] by (cases x) simp
  qed
qed

lemma new_entry_simps [simp]:
  "c_bytes_sent (new_entry now key (q, p, a, lp, r, rp, sent, recv) att) = sent"
  "c_bytes_recv (new_entry now key (q, p, a, lp, r, rp, sent, recv) att) = recv"
  "c_started (new_entry now key (q, p, a, lp, r, rp, sent, recv) att) = now"
  "c_last_seen (new_entry now key (q, p, a, lp, r, rp, sent, recv) att) = now"
  "c_key (new_entry now key f att) = key"
  by (simp_all add: new_entry_def split: prod.split)

lemma fold_close_map:
  "map_of (ds_connections (fold close_flow ks s)) k = (if k \<in> set ks then None else map_of (ds_connections s) k) \<and>
   ds_processes (fold close_flow ks s) = ds_processes s \<and> ds_attrib (fold close_flow ks s) = ds_attrib s"
proof (induction ks arbitrary: s)
  case (Cons q ks)
  from Cons [of "close_flow q s"] show ?case
    by (simp add: close_flow_def frame_simps delete_conv')
qed simp

lemma visit_flow_map:
  "(k \<noteq> key \<longrightarrow> map_of (ds_connections (visit_flow now env (key, f) s)) k = map_of (ds_connections s) k) \<and>
   ds_processes (visit_flow now env (key, f) s) = ds_processes s \<and>
   (\<exists>c. map_of (ds_connections (visit_flow now env (key, f) s)) key = Some c \<and>
      entry_for now env s (ds_attrib s) key f c)"
proof -
  obtain q p a lp r rp sent recv where f: "f = (q, p, a, lp, r, rp, sent, recv)" by (cases f) auto
  show ?thesis
  proof (cases "map_of (ds_connections s) key")
    case None
    obtain pid nm exe s1 where at: "attribute (env key) p lp s = ((pid, nm, exe), s1)"
      by (cases "attribute (env key) p lp s") auto
    then have s1: "ds_connections s1 = ds_connections s" "ds_processes s1 = ds_processes s"
      using attribute_frame(1,5) [of "env key" p lp s] by simp_all
    have "entry_for now env s (ds_attrib s) key f (new_entry now key f (pid, nm, exe))"
      unfolding entry_for_def f by (simp add: at None)
    with None at s1 show ?thesis
      by (simp add: f Let_def frame_simps update_conv') (simp add: new_entry_def)
  next
    case (Some c)
    then show ?thesis
      by (auto simp: f Let_def frame_simps update_conv' entry_for_def refreshed_def)
  qed
qed

lemma visit_flow_cache:
  "ds_attrib (visit_flow now env (key, q, p, a, lp, rest) s) =
     (if map_of (ds_connections s) key = None then snd (lookup (oe_proc (env key)) p lp (ds_attrib s)) else ds_attrib s)"
proof -
  obtain r rp sent recv where f: "rest = (r, rp, sent, recv)" by (cases rest) auto
  obtain pid nm exe s1 where at: "attribute (env key) p lp s = ((pid, nm, exe), s1)"
    by (cases "attribute (env key) p lp s") auto
  with attribute_state [of "env key" p lp s] have "ds_attrib s1 = snd (lookup (oe_proc (env key)) p lp (ds_attrib s))" by simp
  with at show ?thesis by (auto simp: f Let_def frame_simps split: option.split)
qed

lemma fold_visit_map:
  assumes "distinct (map fst kfs)"
  shows "(case map_of kfs k of
      None \<Rightarrow> map_of (ds_connections (fold (visit_flow now env) kfs s)) k = map_of (ds_connections s) k
    | Some f \<Rightarrow> (\<exists>c. map_of (ds_connections (fold (visit_flow now env) kfs s)) k = Some c \<and>
        entry_for now env s (cache_at env (ds_connections s) kfs k (ds_attrib s)) k f c))"
  using assms
proof (induction kfs arbitrary: s)
  case (Cons kf kfs)
  obtain key q p a lp rest where kf: "kf = (key, q, p, a, lp, rest)" by (cases kf) auto
  let ?f = "(q, p, a, lp, rest)"
  let ?s1 = "visit_flow now env (key, ?f) s"
  note v = visit_flow_map [of _ key now env ?f s]
  from Cons have ih: "case map_of kfs k of
      None \<Rightarrow> map_of (ds_connections (fold (visit_flow now env) kfs ?s1)) k = map_of (ds_connections ?s1) k
    | Some f \<Rightarrow> (\<exists>c. map_of (ds_connections (fold (visit_flow now env) kfs ?s1)) k = Some c \<and>
        entry_for now env ?s1 (cache_at env (ds_connections ?s1) kfs k (ds_attrib ?s1)) k f c)"
    by simp
  show ?case
  proof (cases "k = key")
    case True
    with Cons.prems kf have "map_of kfs k = None" by (simp add: map_of_eq_None_iff)
    with ih v [of k] True kf show ?thesis by (auto simp: cache_at_def)
  next
    case False
    have "key \<notin> fst ` set kfs" using Cons.prems kf by simp
    then have "cache_at env (ds_connections ?s1) kfs k = cache_at env (ds_connections s) kfs k"
      using v by (intro cache_at_cong) metis
    then have c: "cache_at env (ds_connections ?s1) kfs k (ds_attrib ?s1) = cache_at env (ds_connections s) (kf # kfs) k (ds_attrib s)"
      using False unfolding visit_flow_cache by (simp add: kf cache_at_def)
    have e: "entry_for now env ?s1 cc k f c = entry_for now env s cc k f c" for cc f c
      using v [of k] False attribute_cong [of "?s1\<lparr>ds_attrib := cc\<rparr>" "s\<lparr>ds_attrib := cc\<rparr>" "env k"]
      by (simp add: entry_for_def split: prod.split option.split)
    from ih v [of k] False show ?thesis unfolding c e by (cases "map_of kfs k") (simp_all add: kf)
  qed
qed simp

lemma poll_once_map:
  assumes "conns_wf (ds_connections s)" "poll_ok i" "po_text i = Some t"
  shows "case map_of (collect_seen (lines t)) k of
      None \<Rightarrow> map_of (ds_connections (poll_once i s)) k = None
    | Some f \<Rightarrow> (\<exists>c. map_of (ds_connections (poll_once i s)) k = Some c \<and>
        entry_for (po_now i) (po_env i) s
          (cache_at (po_env i) (ds_connections s) (po_order i (collect_seen (lines t))) k (ds_attrib s)) k f c)"
proof -
  let ?seen = "collect_seen (lines t)"
  let ?closed = "filter (\<lambda>k. \<not> contains_key k ?seen) (po_old_order i (map fst (ds_connections s)))"
  let ?s1 = "fold close_flow ?closed s"
  have o: "mset (po_order i ?seen) = mset ?seen" using assms(2) by (simp add: poll_ok_def)
  have d: "distinct (map fst (po_order i ?seen))"
    using collect_seen_wf [of "lines t"] mset_eq_imp_distinct_iff [of "map fst (po_order i ?seen)" "map fst ?seen"] o
    by simp
  then have m: "map_of (po_order i ?seen) = map_of ?seen"
    using collect_seen_wf mset_eq_setD [OF o] by (metis map_of_inject_set)
  have "set (po_old_order i (map fst (ds_connections s))) = fst ` set (ds_connections s)"
    using assms(2) mset_eq_setD [of "po_old_order i (map fst (ds_connections s))" "map fst (ds_connections s)"]
    by (simp add: poll_ok_def)
  then have "set ?closed = {k \<in> fst ` set (ds_connections s). map_of ?seen k = None}"
    by (simp only: set_filter contains_key_def not_not)
  then have s1: "map_of (ds_connections ?s1) q = (if map_of ?seen q = None then None else map_of (ds_connections s) q)"
      "ds_processes ?s1 = ds_processes s" "ds_attrib ?s1 = ds_attrib s" for q
    using fold_close_map [of ?closed s] by (auto simp: map_of_eq_None_iff image_iff)
  have c: "cache_at (po_env i) (ds_connections ?s1) (po_order i ?seen) k = cache_at (po_env i) (ds_connections s) (po_order i ?seen) k"
    by (rule cache_at_cong) (use s1(1) mset_eq_setD [OF o] in \<open>auto simp: map_of_eq_None_iff image_iff\<close>)
  have e: "entry_for now env ?s1 cc k f c = entry_for now env s cc k f c" if "map_of ?seen k = Some f" for now env cc f c
    using that s1(1) [of k] s1(2,3) attribute_cong [of "?s1\<lparr>ds_attrib := cc\<rparr>" "s\<lparr>ds_attrib := cc\<rparr>" "env k"]
    by (simp add: entry_for_def split: prod.split option.split)
  have p: "poll_once i s = fold (visit_flow (po_now i) (po_env i)) (po_order i ?seen) ?s1"
    using assms(3) by (simp add: poll_once_def Let_def)
  from fold_visit_map [OF d, where k = k and now = "po_now i" and env = "po_env i" and s = ?s1] s1(1) [of k] s1(2) e show ?thesis
    unfolding c s1(3) m p by (auto split: option.splits)
qed

section \<open>Properties\<close>

text \<open>A state with one known flow, and a table that shows it with more bytes.\<close>

definition demo_state :: DaemonState where
  "demo_state = (daemon_new (\<lambda>_. None) 0 0 (Inl NotFound) Map.empty config_default)
     \<lparr>ds_connections := [(''gone'', new_entry 1 ''gone'' ('''', Udp, V4 (Ipv4Addr 1 1 1 1), 1, V4 (Ipv4Addr 2 2 2 2), 2, 3, 4)
        (None, None, None))]\<rparr>"

definition demo_poll :: poll_input where
  "demo_poll = \<lparr>po_text = Some (join '' '' (flow_tokens demo_flow)), po_now = 9,
     po_env = (\<lambda>_. \<lparr>oe_proc = \<lparr>pe_net = (\<lambda>_. None), pe_fds = (\<lambda>_. None), pe_procs = None\<rparr>, oe_process = (\<lambda>_. None)\<rparr>),
     po_old_order = (\<lambda>ks. ks), po_order = rev\<rparr>"

lemma demo_state_wf: "conns_wf (ds_connections demo_state)"
  by (simp add: conns_wf_def demo_state_def new_entry_def)

lemma demo_poll_ok: "poll_ok demo_poll"
  by (simp add: poll_ok_def demo_poll_def)

lemma NL_notin_show [simp]: "NL \<notin> set (show_uint w)" "NL \<notin> set (show_ip a)"
  using token_show_uint(1) [of w] token_show_ip [of a] by (auto simp: token_def printable_def NL_def)

lemma demo_poll_lines: "lines (join '' '' (flow_tokens demo_flow)) = [join '' '' (flow_tokens demo_flow)]"
proof -
  let ?l = "join '' '' (flow_tokens demo_flow)"
  have c: "NL \<noteq> x" if "printable x \<or> x = CHR '' ''" for x
    using that by (auto simp: NL_def printable_def)
  have "NL \<notin> set ?l"
    by (simp add: flow_tokens_def demo_flow_def tuple_tokens_def proto_str_def kv_def c printable_def
        del: show_ip.simps show_ipv4.simps)
  moreover have "?l \<noteq> []" by (simp add: flow_tokens_def demo_flow_def)
  ultimately show ?thesis by (simp add: lines_def split_on_no_sep Let_def)
qed

lemma demo_parse:
  "parse_line (join '' '' (flow_tokens demo_flow)) =
     Some (flow_key ''tcp'' (kf_src demo_flow) 40 (kf_dst demo_flow) 80, Tcp,
       V4 (Ipv4Addr 10 0 0 5), 40, V4 (Ipv4Addr 8 8 8 8), 80, 12, 7)"
  using parse_line_flow [OF demo_flow_ok demo_flow_line] by (simp add: demo_flow_def bytes_of_def proto_str_def)

lemma demo_gone: "flow_counts (lines (join '' '' (flow_tokens demo_flow))) ''gone'' = []"
proof -
  have "flow_key ''tcp'' (kf_src demo_flow) 40 (kf_dst demo_flow) 80 \<noteq> ''gone''" by (simp add: flow_key_def)
  then show ?thesis by (simp add: flow_counts_def demo_poll_lines demo_parse)
qed

text \<open>C18: After a poll the map holds exactly the flows of the kernel's table, and a flow's
  counters are the largest its lines show; a known flow keeps everything else, its
  last-seen time moving only when a counter changed, and a new flow has the protocol, addresses
  and ports of its line, starts now, and has the pid, name and executable the attribution finds for
  its protocol and local port, with the cache the new flows before it have left.  An unreadable
  table changes nothing.\<close>

theorem poll_once_table:
  assumes "conns_wf (ds_connections s)" and "poll_ok i"
  shows "conns_wf (ds_connections (poll_once i s)) \<and>
    (case po_text i of
       None \<Rightarrow> poll_once i s = s
     | Some t \<Rightarrow>
         (map_of (ds_connections (poll_once i s)) k = None \<longleftrightarrow> flow_counts (lines t) k = []) \<and>
         (\<forall>c. map_of (ds_connections (poll_once i s)) k = Some c \<longrightarrow>
            c_key c = k \<and>
            c_bytes_sent c = Max (fst ` set (flow_counts (lines t) k)) \<and>
            c_bytes_recv c = Max (snd ` set (flow_counts (lines t) k)) \<and>
            (case map_of (ds_connections s) k of
               Some q \<Rightarrow> c = refreshed (po_now i) (c_bytes_sent c) (c_bytes_recv c) q
             | None \<Rightarrow> (\<exists>l \<in> set (lines t). \<exists>proto la lp ra rp sent recv pid name exe.
                 parse_line l = Some (k, proto, la, lp, ra, rp, sent, recv) \<and>
                 (pid, name, exe) = fst (attribute (po_env i k) proto lp (s\<lparr>ds_attrib :=
                   cache_at (po_env i) (ds_connections s) (po_order i (collect_seen (lines t))) k (ds_attrib s)\<rparr>)) \<and>
                 c = \<lparr>c_key = k, c_protocol = proto, c_local_addr = la, c_local_port = lp, c_remote_addr = ra,
                   c_remote_port = rp, c_bytes_sent = Max (fst ` set (flow_counts (lines t) k)),
                   c_bytes_recv = Max (snd ` set (flow_counts (lines t) k)), c_pid = pid, c_process_name = name, c_exe = exe,
                   c_started = po_now i, c_last_seen = po_now i\<rparr>))))"
proof (cases "po_text i")
  case None
  with assms show ?thesis by (simp add: poll_once_def)
next
  case (Some t)
  have wf: "conns_wf (ds_connections (poll_once i s))" using poll_once_follows assms(1) by blast
  let ?cache = "cache_at (po_env i) (ds_connections s) (po_order i (collect_seen (lines t))) k (ds_attrib s)"
  note m = poll_once_map [OF assms Some, of k]
  show ?thesis
  proof (cases "map_of (collect_seen (lines t)) k")
    case None
    with m wf Some collect_seen_None [of "lines t" k] show ?thesis by simp
  next
    case (Some f)
    obtain q p a lp r rp sent recv where f: "f = (q, p, a, lp, r, rp, sent, recv)" by (cases f) auto
    from m Some obtain c where c: "map_of (ds_connections (poll_once i s)) k = Some c"
      and e: "entry_for (po_now i) (po_env i) s ?cache k f c" by auto
    have b: "c_bytes_sent c = sent" "c_bytes_recv c = recv"
      using e by (auto simp: entry_for_def f refreshed_def split: option.splits)
    have mx: "sent = Max (fst ` set (flow_counts (lines t) k))" "recv = Max (snd ` set (flow_counts (lines t) k))"
      and l: "\<exists>l \<in> set (lines t). \<exists>s' rc'. parse_line l = Some (k, p, a, lp, r, rp, s', rc')"
      using collect_seen_Some Some f by blast+
    have "flow_counts (lines t) k \<noteq> []" using Some collect_seen_None [of "lines t" k] by simp
    moreover have "case map_of (ds_connections s) k of
       Some q \<Rightarrow> c = refreshed (po_now i) sent recv q
     | None \<Rightarrow> c = new_entry (po_now i) k f (fst (attribute (po_env i k) p lp (s\<lparr>ds_attrib := ?cache\<rparr>)))"
      using e unfolding f by (simp add: entry_for_def)
    ultimately show ?thesis
      using c wf \<open>po_text i = Some t\<close> b mx conns_wf_get [OF wf c] l
      by (cases "map_of (ds_connections s) k"; cases "fst (attribute (po_env i k) p lp (s\<lparr>ds_attrib := ?cache\<rparr>))")
        (auto simp: new_entry_def f)
  qed
qed

theorem poll_once_table_witness:
  "map_of (ds_connections (poll_once demo_poll demo_state)) ''gone'' = None \<and>
   (\<exists>k c. map_of (ds_connections (poll_once demo_poll demo_state)) k = Some c \<and> c_bytes_sent c = 12 \<and>
     c_bytes_recv c = 7 \<and> c_started c = 9)"
proof -
  let ?l = "join '' '' (flow_tokens demo_flow)"
  obtain key where p: "parse_line ?l = Some (key, Tcp, V4 (Ipv4Addr 10 0 0 5), 40, V4 (Ipv4Addr 8 8 8 8), 80, 12, 7)"
    and k: "key = flow_key ''tcp'' (kf_src demo_flow) 40 (kf_dst demo_flow) 80"
    using demo_parse by blast
  have ne: "key \<noteq> ''gone''" by (simp add: k flow_key_def)
  have t: "po_text demo_poll = Some ?l" by (simp add: demo_poll_def)
  have n: "map_of (ds_connections demo_state) key = None" using ne by (simp add: demo_state_def)
  have c: "flow_counts (lines ?l) key = [(12, 7)]" "flow_counts (lines ?l) ''gone'' = []"
    by (simp add: flow_counts_def demo_poll_lines p) (rule demo_gone)
  note tbl = poll_once_table [OF demo_state_wf demo_poll_ok]
  have "map_of (ds_connections (poll_once demo_poll demo_state)) ''gone'' = None"
    using tbl [of "''gone''"] by (simp add: t c)
  moreover obtain x where "map_of (ds_connections (poll_once demo_poll demo_state)) key = Some x"
    using tbl [of key] by (auto simp: t c)
  moreover from this have "c_bytes_sent x = 12 \<and> c_bytes_recv x = 7 \<and> c_started x = 9"
    using tbl [of key] by (auto simp: t c n dest!: arg_cong [where f = c_started]) (simp add: demo_poll_def)
  ultimately show ?thesis by blast
qed

text \<open>C19: A subscriber that starts from a snapshot of the connections and folds the events of
  any number of polls in order has exactly the daemon's map, byte counters and
  attribution included.\<close>

theorem poll_events_replay:
  assumes "conns_wf (ds_connections s)"
  shows "conn_view (fold poll_once inputs s) =
    fold observe_conns (tracker.emits inputs s) (conn_view s)"
  using tracker.view_run [OF assms, of inputs] by (simp add: list_all_iff)

theorem poll_events_replay_witness:
  "fold observe_conns (tracker.emits [demo_poll] demo_state) (conn_view demo_state) ''gone'' = None"
proof -
  have "map_of (collect_seen (lines (join '' '' (flow_tokens demo_flow)))) ''gone'' = None"
    by (simp add: collect_seen_None demo_gone)
  then have "conn_view (poll_once demo_poll demo_state) ''gone'' = None"
    using poll_once_map [OF demo_state_wf demo_poll_ok, of _ "''gone''"]
    by (simp add: conn_view_def demo_poll_def)
  then show ?thesis using poll_events_replay [OF demo_state_wf, of "[demo_poll]"] by simp
qed

end
