(* ===== verification/Flowkill.thy ===== *)
theory Flowkill
  imports DaemonState
begin

text \<open>
  Terminating the flows of a blocked application (\<open>crates/daemon/src/flowkill.rs\<close>).  The
  two programs it runs are outside the repository: \<open>run\<close> says how a command ends, and the
  trace of the commands that were run is what the lemmas are about.  The probe for
  \<open>conntrack\<close> is made once per process (\<open>OnceLock\<close>), so its result is part of the state.
\<close>

section \<open>Definitions\<close>

datatype command = ConntrackVersion | Conntrack "string list" | Ss "string list"

datatype cmd_outcome = Succeeded | ExitedWithError | CannotRun

record kill_world =
  kw_available :: "bool option"
  kw_trace :: "command list"

definition run_command :: "(command \<Rightarrow> cmd_outcome) \<Rightarrow> command \<Rightarrow> kill_world \<Rightarrow> bool \<times> kill_world" where
  "run_command run c w = (run c = Succeeded, w\<lparr>kw_trace := kw_trace w @ [c]\<rparr>)"

definition matching_flows :: "connections \<Rightarrow> path \<Rightarrow> ConnectionInfo list" where
  "matching_flows conns exe_path =
     filter (\<lambda>c. case c_exe c of None \<Rightarrow> False | Some e \<Rightarrow> path_eq e exe_path) (map snd conns)"

definition conntrack_available :: "(command \<Rightarrow> cmd_outcome) \<Rightarrow> kill_world \<Rightarrow> bool \<times> kill_world" where
  "conntrack_available run w =
     (case kw_available w of
        Some available \<Rightarrow> (available, w)
      | None \<Rightarrow>
          (let (available, w) = run_command run ConntrackVersion w
           in (available, w\<lparr>kw_available := Some available\<rparr>)))"

definition conntrack_delete_args :: "ConnectionInfo \<Rightarrow> string list" where
  "conntrack_delete_args conn =
     (let args = (\<lambda>proto. [''-D'', ''-p'', proto, ''--orig-src'', show_ip (c_local_addr conn),
        ''--orig-dst'', show_ip (c_remote_addr conn), ''--sport'', show_uint (c_local_port conn),
        ''--dport'', show_uint (c_remote_port conn)])
      in case c_protocol conn of
           Tcp \<Rightarrow> args ''tcp'' | Udp \<Rightarrow> args ''udp'' | OtherProto \<Rightarrow> [])"

definition ss_kill_args :: "ConnectionInfo \<Rightarrow> string list" where
  "ss_kill_args conn =
     [''-K'', ''src'', show_ip (c_local_addr conn), ''dst'', show_ip (c_remote_addr conn),
      ''sport'', ''='', show_uint (c_local_port conn), ''dport'', ''='', show_uint (c_remote_port conn)]"

definition delete_conntrack_entry :: "(command \<Rightarrow> cmd_outcome) \<Rightarrow> ConnectionInfo \<Rightarrow> kill_world \<Rightarrow> bool \<times> kill_world" where
  "delete_conntrack_entry run conn w =
     (let args = conntrack_delete_args conn in
      if args = [] then (False, w)
      else (let (available, w) = conntrack_available run w in
        if \<not> available then (False, w) else run_command run (Conntrack args) w))"

definition kill_tcp_socket :: "(command \<Rightarrow> cmd_outcome) \<Rightarrow> ConnectionInfo \<Rightarrow> kill_world \<Rightarrow> bool \<times> kill_world" where
  "kill_tcp_socket run conn w = run_command run (Ss (ss_kill_args conn)) w"

text \<open>The loop body: whether anything was done to the flow.\<close>

definition kill_flow :: "(command \<Rightarrow> cmd_outcome) \<Rightarrow> ConnectionInfo \<Rightarrow> kill_world \<Rightarrow> bool \<times> kill_world" where
  "kill_flow run conn w =
     (let (acted, w) = delete_conntrack_entry run conn w in
      if c_protocol conn = Tcp then
        (let (killed, w) = kill_tcp_socket run conn w in (acted \<or> killed, w))
      else (acted, w))"

fun kill_flows :: "(command \<Rightarrow> cmd_outcome) \<Rightarrow> ConnectionInfo list \<Rightarrow> nat \<times> kill_world \<Rightarrow> nat \<times> kill_world" where
  "kill_flows run [] r = r"
| "kill_flows run (conn # cs) (killed, w) =
     (let (acted, w) = kill_flow run conn w
      in kill_flows run cs (if acted then Suc killed else killed, w))"

definition kill_flows_for_exe :: "(command \<Rightarrow> cmd_outcome) \<Rightarrow> DaemonState \<Rightarrow> path \<Rightarrow> kill_world \<Rightarrow> nat \<times> kill_world" where
  "kill_flows_for_exe run s exe_path w =
     (let victims = matching_flows (ds_connections s) exe_path in
      if victims = [] then (0, w) else kill_flows run victims (0, w))"

definition kill_flows_for_block_rules :: "(command \<Rightarrow> cmd_outcome) \<Rightarrow> DaemonState \<Rightarrow> kill_world \<Rightarrow> kill_world" where
  "kill_flows_for_block_rules run s w =
     fold (\<lambda>rule w. if r_action rule = Block then snd (kill_flows_for_exe run s (r_exe_path rule) w) else w)
       (list_rules (ds_rules s)) w"

section \<open>Specification\<close>

definition owned_by :: "path \<Rightarrow> ConnectionInfo \<Rightarrow> bool" where
  "owned_by exe c \<longleftrightarrow> (\<exists>e. c_exe c = Some e \<and> path_eq e exe)"

text \<open>The commands a flow needs, given whether \<open>conntrack\<close> is there.\<close>

definition flow_commands :: "bool \<Rightarrow> ConnectionInfo \<Rightarrow> command list" where
  "flow_commands available c =
     (if available \<and> c_protocol c \<noteq> OtherProto then [Conntrack (conntrack_delete_args c)] else []) @
     (if c_protocol c = Tcp then [Ss (ss_kill_args c)] else [])"

definition available_now :: "(command \<Rightarrow> cmd_outcome) \<Rightarrow> kill_world \<Rightarrow> bool" where
  "available_now run w = (case kw_available w of Some b \<Rightarrow> b | None \<Rightarrow> run ConntrackVersion = Succeeded)"

definition same_flow :: "ConnectionInfo \<Rightarrow> ConnectionInfo \<Rightarrow> bool" where
  "same_flow c d \<longleftrightarrow> c_local_addr c = c_local_addr d \<and> c_local_port c = c_local_port d \<and>
     c_remote_addr c = c_remote_addr d \<and> c_remote_port c = c_remote_port d"

section \<open>Lemmas\<close>

lemma matching_flows_set: "set (matching_flows conns exe) = {c \<in> snd ` set conns. owned_by exe c}"
  by (auto simp: matching_flows_def owned_by_def split: option.splits)

lemma ss_kill_args_eq: "ss_kill_args c = ss_kill_args d \<longleftrightarrow> same_flow c d"
  by (auto simp: ss_kill_args_def same_flow_def dest: show_ip_inject)

lemma conntrack_args_eq:
  "c_protocol c \<noteq> OtherProto \<Longrightarrow>
     conntrack_delete_args c = conntrack_delete_args d \<longleftrightarrow> same_flow c d \<and> c_protocol c = c_protocol d"
  by (cases "c_protocol c"; cases "c_protocol d")
    (auto simp: conntrack_delete_args_def same_flow_def Let_def dest: show_ip_inject)

text \<open>The probe: at most once, before the first entry is deleted.\<close>

definition probe :: "kill_world \<Rightarrow> ConnectionInfo list \<Rightarrow> command list" where
  "probe w cs = (if kw_available w = None \<and> (\<exists>c \<in> set cs. c_protocol c \<noteq> OtherProto) then [ConntrackVersion] else [])"

lemma conntrack_args_Nil: "conntrack_delete_args c = [] \<longleftrightarrow> c_protocol c = OtherProto"
  by (auto simp: conntrack_delete_args_def Let_def split: Protocol.splits)

lemma kill_flow_trace:
  "kw_trace (snd (kill_flow run c w)) = kw_trace w @ probe w [c] @ flow_commands (available_now run w) c \<and>
   available_now run (snd (kill_flow run c w)) = available_now run w \<and>
   (kw_available (snd (kill_flow run c w)) = None \<longleftrightarrow> kw_available w = None \<and> c_protocol c = OtherProto) \<and>
   (fst (kill_flow run c w) \<longleftrightarrow> (\<exists>x \<in> set (flow_commands (available_now run w) c). run x = Succeeded))"
  by (cases "c_protocol c"; cases "kw_available w"; cases "run ConntrackVersion = Succeeded")
    (auto simp: kill_flow_def delete_conntrack_entry_def conntrack_available_def kill_tcp_socket_def run_command_def
      conntrack_args_Nil available_now_def flow_commands_def probe_def Let_def)

text \<open>The commands of a whole list of flows: flows that are neither TCP nor UDP need none, so the probe
  comes first.\<close>

lemma flow_commands_other: "c_protocol c = OtherProto \<Longrightarrow> flow_commands b c = []"
  by (simp add: flow_commands_def)

lemma kill_flows_trace:
  "kw_trace (snd (kill_flows run cs (n, w))) =
     kw_trace w @ probe w cs @ concat (map (flow_commands (available_now run w)) cs) \<and>
   fst (kill_flows run cs (n, w)) = n + length (filter (\<lambda>c. \<exists>x \<in> set (flow_commands (available_now run w) c). run x = Succeeded) cs) \<and>
   available_now run (snd (kill_flows run cs (n, w))) = available_now run w \<and>
   (kw_available (snd (kill_flows run cs (n, w))) = None \<longleftrightarrow> kw_available w = None \<and> (\<forall>c \<in> set cs. c_protocol c = OtherProto))"
proof (induction cs arbitrary: n w)
  case (Cons c cs)
  obtain acted w1 where k: "kill_flow run c w = (acted, w1)" by (cases "kill_flow run c w")
  note t = kill_flow_trace [of run c w, unfolded k fst_conv snd_conv]
  have q: "probe w [c] @ flow_commands b c @ probe w1 cs = probe w (c # cs) @ flow_commands b c" for b
    using t by (cases "c_protocol c = OtherProto") (auto simp: probe_def flow_commands_other)
  show ?case
    using Cons.IH [of "if acted then Suc n else n" w1] t q [of "available_now run w"] by (auto simp: k)
qed (simp add: probe_def)

text \<open>A known answer stays.\<close>

lemma kill_flow_keeps:
  "kw_available (snd (kill_flow run c w)) = kw_available w \<or> kw_available w = None"
  by (cases "kw_available w")
    (auto simp: kill_flow_def delete_conntrack_entry_def conntrack_available_def kill_tcp_socket_def run_command_def Let_def)

lemma kill_flows_keeps:
  "kw_available (snd (kill_flows run cs (n, w))) = kw_available w \<or> kw_available w = None"
proof (induction cs arbitrary: n w)
  case (Cons c cs)
  obtain acted w1 where k: "kill_flow run c w = (acted, w1)" by (cases "kill_flow run c w")
  show ?case
    using kill_flow_keeps [of run c w] Cons.IH [of "if acted then Suc n else n" w1] by (auto simp: k)
qed simp

section \<open>Properties\<close>

definition demo_conn :: "string \<Rightarrow> Protocol \<Rightarrow> u16 \<Rightarrow> path option \<Rightarrow> ConnectionInfo" where
  "demo_conn key p port exe = \<lparr>c_key = key, c_protocol = p, c_local_addr = V4 (Ipv4Addr 10 0 0 5),
     c_local_port = port, c_remote_addr = V4 (Ipv4Addr 8 8 8 8), c_remote_port = 53, c_bytes_sent = 1,
     c_bytes_recv = 2, c_pid = None, c_process_name = None, c_exe = exe, c_started = 0, c_last_seen = 0\<rparr>"

definition demo_daemon :: DaemonState where
  "demo_daemon = (daemon_new (\<lambda>_. None) 0 0 (Inl NotFound) Map.empty config_default)
     \<lparr>ds_connections := [(''a'', demo_conn ''a'' Tcp 1 (Some ''/bin/a'')), (''b'', demo_conn ''b'' Udp 2 (Some ''/bin/b'')),
        (''c'', demo_conn ''c'' Udp 3 (Some ''/bin//a'')), (''d'', demo_conn ''d'' Tcp 4 None)]\<rparr>"

lemma demo_matching: "matching_flows (ds_connections demo_daemon) ''/bin/a'' =
    [demo_conn ''a'' Tcp 1 (Some ''/bin/a''), demo_conn ''c'' Udp 3 (Some ''/bin//a'')]"
proof -
  have "path_eq ''/bin//a'' ''/bin/a''" "\<not> path_eq ''/bin/b'' ''/bin/a''" by (simp_all add: path_eq_def)
  then show ?thesis by (simp add: matching_flows_def demo_daemon_def demo_conn_def)
qed

text \<open>C23: Blocking an executable kills exactly its flows: for each flow of it in the map, in
  order, the conntrack entry is deleted when the tool is there and a TCP socket is destroyed, and
  nothing else is run apart from one probe for the tool before them.  The probe is run only when some
  flow needs the tool and no call before has probed; its answer is kept, so no later call probes again.
  Every command names a flow of the executable, and the count is of the flows for which
  some command succeeded.\<close>

theorem kill_flows_exact:
  assumes "kill_flows_for_exe run s exe w = (killed, w')"
  shows "set (matching_flows (ds_connections s) exe) = {c \<in> snd ` set (ds_connections s). owned_by exe c} \<and>
    (let victims = matching_flows (ds_connections s) exe; needed = \<exists>c \<in> set victims. c_protocol c \<noteq> OtherProto in
       kw_trace w' = kw_trace w @ (if kw_available w = None \<and> needed then [ConntrackVersion] else []) @
         concat (map (flow_commands (available_now run w)) victims) \<and>
       kw_available w' = (if needed then Some (available_now run w) else kw_available w) \<and>
       killed = length (filter (\<lambda>c. \<exists>x \<in> set (flow_commands (available_now run w) c). run x = Succeeded) victims))"
proof -
  let ?v = "matching_flows (ds_connections s) exe"
  have k: "(killed, w') = kill_flows run ?v (0, w)"
    using assms by (auto simp: kill_flows_for_exe_def Let_def split: if_splits)
  note t = kill_flows_trace [of run ?v 0 w, folded k, unfolded fst_conv snd_conv]
  have "kw_available w' = (if \<exists>c \<in> set ?v. c_protocol c \<noteq> OtherProto then Some (available_now run w) else kw_available w)"
    using t kill_flows_keeps [of run ?v 0 w, folded k, unfolded snd_conv] by (auto simp: available_now_def split: option.splits)
  with t show ?thesis by (simp add: Let_def probe_def matching_flows_set)
qed

theorem kill_flows_exact_witness:
  "\<exists>w w2. kill_flows_for_exe (\<lambda>_. Succeeded) demo_daemon ''/bin/a'' \<lparr>kw_available = None, kw_trace = []\<rparr> = (2, w) \<and>
     kw_trace w =
       [ConntrackVersion, Conntrack (conntrack_delete_args (demo_conn ''a'' Tcp 1 (Some ''/bin/a''))),
        Ss (ss_kill_args (demo_conn ''a'' Tcp 1 (Some ''/bin/a''))),
        Conntrack (conntrack_delete_args (demo_conn ''c'' Udp 3 (Some ''/bin//a'')))] \<and>
     kill_flows_for_exe (\<lambda>_. Succeeded) demo_daemon ''/bin/a'' w = (2, w2) \<and> kw_trace w2 = kw_trace w @ tl (kw_trace w)"
proof -
  let ?w = "\<lparr>kw_available = None, kw_trace = []\<rparr>"
  obtain killed w where k: "kill_flows_for_exe (\<lambda>_. Succeeded) demo_daemon ''/bin/a'' ?w = (killed, w)"
    by (meson surj_pair)
  obtain killed2 w2 where k2: "kill_flows_for_exe (\<lambda>_. Succeeded) demo_daemon ''/bin/a'' w = (killed2, w2)"
    by (meson surj_pair)
  from kill_flows_exact [OF k] kill_flows_exact [OF k2] k k2 show ?thesis
    by (auto simp: demo_matching available_now_def flow_commands_def demo_conn_def Let_def)
qed

text \<open>No other flow is hit: a command that was run for an executable names a flow that
  belongs to someone else only if that flow has the same addresses and ports.\<close>

theorem kill_flows_isolated:
  assumes "kill_flows_for_exe run s exe w = (killed, w')"
    and "x \<in> set (kw_trace w')" and "x \<notin> set (kw_trace w)"
    and "x = Ss (ss_kill_args d) \<or> (x = Conntrack (conntrack_delete_args d) \<and> c_protocol d \<noteq> OtherProto)"
  shows "\<exists>c \<in> snd ` set (ds_connections s). owned_by exe c \<and> same_flow c d"
proof -
  let ?v = "matching_flows (ds_connections s) exe"
  have k: "(killed, w') = kill_flows run ?v (0, w)"
    using assms(1) by (auto simp: kill_flows_for_exe_def Let_def split: if_splits)
  note t = kill_flows_trace [of run ?v 0 w, folded k, unfolded fst_conv snd_conv]
  have "x \<in> (\<Union>c \<in> set ?v. set (flow_commands (available_now run w) c))"
    using assms(2-4) arg_cong [OF conjunct1 [OF t], of set] by (auto simp: probe_def split: if_splits)
  then obtain c where c: "c \<in> set ?v" "x \<in> set (flow_commands (available_now run w) c)" by blast
  have "same_flow d c"
    using c(2) assms(4) ss_kill_args_eq [of d c] conntrack_args_eq [of d c]
    by (auto simp: flow_commands_def split: if_splits)
  then have "same_flow c d" by (auto simp: same_flow_def)
  with c(1) show ?thesis unfolding matching_flows_set by blast
qed

theorem kill_flows_isolated_witness:
  "\<exists>c \<in> snd ` set (ds_connections demo_daemon). owned_by ''/bin/a'' c \<and>
     same_flow c (demo_conn ''x'' Tcp 1 None)"
proof -
  let ?w = "\<lparr>kw_available = Some False, kw_trace = []\<rparr>"
  let ?d = "demo_conn ''x'' Tcp 1 None"
  let ?v = "matching_flows (ds_connections demo_daemon) ''/bin/a''"
  let ?c = "demo_conn ''a'' Tcp 1 (Some ''/bin/a'')"
  obtain killed w where k: "kill_flows_for_exe (\<lambda>_. Succeeded) demo_daemon ''/bin/a'' ?w = (killed, w)"
    by (meson surj_pair)
  have v: "?c \<in> set ?v" by (simp add: demo_matching)
  then have "kill_flows (\<lambda>_. Succeeded) ?v (0, ?w) = (killed, w)"
    using k by (cases "?v = []") (auto simp: kill_flows_for_exe_def Let_def simp del: kill_flows.simps)
  with kill_flows_trace [of "\<lambda>_. Succeeded" ?v 0 ?w]
  have "(\<Union>c \<in> set ?v. set (flow_commands False c)) \<subseteq> set (kw_trace w)"
    by (simp add: available_now_def)
  moreover have "Ss (ss_kill_args ?c) \<in> set (flow_commands False ?c)"
    by (simp add: flow_commands_def) (simp add: demo_conn_def)
  ultimately have t: "Ss (ss_kill_args ?c) \<in> set (kw_trace w)" using v by blast
  have e: "ss_kill_args ?c = ss_kill_args ?d"
    by (simp only: ss_kill_args_eq) (simp add: same_flow_def demo_conn_def)
  have i: "Ss (ss_kill_args ?d) \<in> set (kw_trace w)" "Ss (ss_kill_args ?d) \<notin> set (kw_trace ?w)"
    using t by (simp_all add: e)
  show ?thesis by (rule kill_flows_isolated [OF k i disjI1 [OF refl]])
qed

end
