(* ===== verification/Nft.thy ===== *)
theory Nft
  imports RustStr
begin

text \<open>
  The \<open>nft\<close> program as the daemon uses it (\<open>nft\<close> and \<open>nft_stdin\<close> in
  \<open>crates/daemon/src/firewall.rs\<close>): a command line or a script goes in, success or failure comes
  out.  The program itself is outside the repository and a parameter, \<open>exec\<close>; what its manual
  says of the commands is stated here for any family, table, chain and rule, as the hypothesis
  \<open>nft_ok\<close>.  Nothing is said about when a command succeeds.
\<close>

section \<open>Commands\<close>

datatype nft_command = Nft "string list" | NftScript string

type_synonym 'k nft_exec = "nft_command \<Rightarrow> 'k \<Rightarrow> bool \<times> 'k"

section \<open>Rulesets\<close>

text \<open>The ruleset of the kernel: tables by family and name, their chains by name, and of a base
  chain its hook specification and its rules, as the words they are written with.\<close>

record nft_chain =
  nc_hook :: "string list"
  nc_rules :: "string list list"

type_synonym nft_table = "string \<rightharpoonup> nft_chain"
type_synonym ruleset = "string \<times> string \<rightharpoonup> nft_table"

text \<open>Words that mean themselves to \<open>nft\<close>: no quotes, separators or variables, no option.\<close>

definition plain_word :: "string \<Rightarrow> bool" where
  "plain_word w \<longleftrightarrow> token w \<and> hd w \<noteq> CHR ''-'' \<and>
     list_all (\<lambda>c. c \<notin> set ''{}();,#$@*|&='' \<and> c \<noteq> CHR 0x22 \<and> c \<noteq> CHR 0x27 \<and> c \<noteq> CHR 0x5C) w"

text \<open>A rule that is appended, not put next to another one.\<close>

definition rule_words :: "string list \<Rightarrow> bool" where
  "rule_words ws \<longleftrightarrow> ws \<noteq> [] \<and> list_all plain_word ws \<and> hd ws \<notin> {''position'', ''handle'', ''index''}"

text \<open>The line of a base chain: \<open>type \<dots> hook \<dots>; policy \<dots>;\<close>.\<close>

definition hook_words :: "string list \<Rightarrow> bool" where
  "hook_words ws \<longleftrightarrow> ws \<noteq> [] \<and> hd ws = ''type'' \<and>
     list_all (\<lambda>w. plain_word w \<or> w \<noteq> [] \<and> last w = CHR '';'' \<and> plain_word (butlast w)) ws"

definition families :: "string set" where
  "families = {''ip'', ''ip6'', ''inet'', ''arp'', ''bridge'', ''netdev''}"

text \<open>A script that declares one table with one base chain: the lines are the table, the chain,
  its hook, one rule each, and the two closing braces.\<close>

definition parse_script :: "string \<Rightarrow> (string \<times> string \<times> string \<times> nft_chain) option" where
  "parse_script s =
     (case map split_whitespace (lines s) of
        [w, f, t, b] # [w', c, b'] # hook # body \<Rightarrow>
          (let rules = butlast (butlast body) in
           if w = ''table'' \<and> b = ''{'' \<and> w' = ''chain'' \<and> b' = ''{'' \<and> body = rules @ [[''}''], [''}'']] \<and>
              f \<in> families \<and> list_all plain_word [t, c] \<and> hook_words hook \<and> list_all rule_words rules
           then Some (f, t, c, \<lparr>nc_hook = hook, nc_rules = rules\<rparr>) else None)
      | _ \<Rightarrow> None)"

text \<open>What a command that succeeds makes of the ruleset; nothing is claimed for other commands, nor
  where the chain is missing or a declared table is already there.\<close>

definition args_effect :: "string list \<Rightarrow> ruleset \<Rightarrow> ruleset option" where
  "args_effect args R =
     (case args of
        verb # what # f # t # rest \<Rightarrow>
          if f \<notin> families \<or> \<not> list_all plain_word args then None
          else if verb = ''delete'' \<and> what = ''table'' \<and> rest = [] then Some (R((f, t) := None))
          else (case (R (f, t), rest) of
              (Some T, c # rule) \<Rightarrow>
                (case T c of
                   None \<Rightarrow> None
                 | Some ch \<Rightarrow>
                     if verb = ''flush'' \<and> what = ''chain'' \<and> rule = []
                     then Some (R((f, t) \<mapsto> T(c \<mapsto> ch\<lparr>nc_rules := []\<rparr>)))
                     else if verb = ''add'' \<and> what = ''rule'' \<and> rule_words rule
                     then Some (R((f, t) \<mapsto> T(c \<mapsto> ch\<lparr>nc_rules := nc_rules ch @ [rule]\<rparr>)))
                     else None)
            | _ \<Rightarrow> None)
      | _ \<Rightarrow> None)"

fun nft_effect :: "nft_command \<Rightarrow> ruleset \<Rightarrow> ruleset option" where
  "nft_effect (Nft args) R = args_effect args R"
| "nft_effect (NftScript s) R =
     (case parse_script s of
        Some (f, t, c, ch) \<Rightarrow> if R (f, t) = None then Some (R((f, t) \<mapsto> [c \<mapsto> ch])) else None
      | None \<Rightarrow> None)"

text \<open>The one table a command is about.\<close>

fun nft_target :: "nft_command \<Rightarrow> (string \<times> string) option" where
  "nft_target (Nft args) =
     (case args of
        verb # what # f # t # rest \<Rightarrow>
          if f \<in> families \<and> list_all plain_word args \<and> verb \<in> {''add'', ''delete'', ''flush''} \<and>
            what \<in> {''table'', ''chain'', ''rule''} then Some (f, t) else None
      | _ \<Rightarrow> None)"
| "nft_target (NftScript s) = (case parse_script s of Some (f, t, _) \<Rightarrow> Some (f, t) | None \<Rightarrow> None)"

text \<open>The manual: a command that fails changes nothing, one that succeeds has its effect, and
  no other table is touched.\<close>

definition nft_ok :: "'k nft_exec \<Rightarrow> ('k \<Rightarrow> ruleset) \<Rightarrow> bool" where
  "nft_ok exec view \<longleftrightarrow>
     (\<forall>c k. (\<not> fst (exec c k) \<longrightarrow> view (snd (exec c k)) = view k) \<and>
       (\<forall>R. fst (exec c k) \<longrightarrow> nft_effect c (view k) = Some R \<longrightarrow> view (snd (exec c k)) = R) \<and>
       (\<forall>T x. nft_target c = Some T \<longrightarrow> x \<noteq> T \<longrightarrow> view (snd (exec c k)) x = view k x))"

section \<open>Lemmas\<close>

lemma nft_failed: "nft_ok exec view \<Longrightarrow> \<not> fst (exec c k) \<Longrightarrow> view (snd (exec c k)) = view k"
  by (simp add: nft_ok_def)

lemma nft_done: "nft_ok exec view \<Longrightarrow> fst (exec c k) \<Longrightarrow> nft_effect c (view k) = Some R \<Longrightarrow> view (snd (exec c k)) = R"
  by (simp add: nft_ok_def)

lemma nft_others: "nft_ok exec view \<Longrightarrow> nft_target c = Some T \<Longrightarrow> x \<noteq> T \<Longrightarrow> view (snd (exec c k)) x = view k x"
  unfolding nft_ok_def by blast

lemma plain_show_uint [simp]: "plain_word (show_uint (w :: 'a :: len word))"
proof -
  have "token (show_uint w)" by simp
  moreover have "hd (show_uint w) \<in> set (show_uint w)" by simp
  then have "is_dec (hd (show_uint w))" by (rule show_uint_dec)
  then have "hd (show_uint w) \<noteq> CHR ''-''" by auto
  moreover have "\<not> is_dec c" if "c \<in> set ''{}();,#$@*|&='' \<or> c = CHR 0x22 \<or> c = CHR 0x27 \<or> c = CHR 0x5C" for c
    using that by (auto simp: is_dec_def)
  then have "c \<notin> set ''{}();,#$@*|&='' \<and> c \<noteq> CHR 0x22 \<and> c \<noteq> CHR 0x27 \<and> c \<noteq> CHR 0x5C"
    if "c \<in> set (show_uint w)" for c
    using show_uint_dec [OF that] by blast
  ultimately show ?thesis by (simp add: plain_word_def list_all_iff)
qed

lemma effect_elsewhere:
  assumes "nft_effect c R = Some R'" "nft_target c = Some T" "x \<noteq> T"
  shows "R' x = R x"
proof (cases c)
  case (Nft args)
  with assms show ?thesis
    by (auto simp: args_effect_def split: list.splits option.splits if_splits)
next
  case (NftScript s)
  with assms show ?thesis by (auto split: option.splits if_splits)
qed

section \<open>An instance\<close>

text \<open>A kernel that is its ruleset and carries out what the manual says, refusing the rest: a
  missing table cannot be deleted.\<close>

definition demo_nft :: "ruleset nft_exec" where
  "demo_nft c R =
     (if (case c of Nft _ \<Rightarrow> (case nft_target c of Some T \<Rightarrow> R T = None | None \<Rightarrow> True) | NftScript _ \<Rightarrow> False)
      then (False, R) else (case nft_effect c R of None \<Rightarrow> (False, R) | Some R' \<Rightarrow> (True, R')))"

lemma demo_nft_ok: "nft_ok demo_nft (\<lambda>R. R)"
  unfolding nft_ok_def
  by (auto simp: demo_nft_def effect_elsewhere split: option.splits if_splits)

end
