(* ===== verification/Firewall.thy ===== *)
theory Firewall
  imports DaemonState Packet Nft
begin

text \<open>
  The firewall backend (\<open>crates/daemon/src/firewall.rs\<close>): the commands that manage the
  nftables table, the verdict for a queued packet, and the loop of the queue worker.  The
  \<open>nft\<close> program is the parameter \<open>exec\<close> of theory \<open>Nft\<close>: whether a command succeeds and what
  it makes of the kernel's state.  The queue is the list of what its calls return.
\<close>

section \<open>The nftables table\<close>

definition TABLE :: string where "TABLE = ''travelmode''"
definition FAMILY :: string where "FAMILY = ''inet''"
definition CHAIN :: string where "CHAIN = ''output''"

definition table_script :: "bool \<Rightarrow> u16 \<Rightarrow> string" where
  "table_script with_queue_rule queue_num =
     (let rule = (if with_queue_rule
          then [NL] @ ''        ct state new queue num '' @ show_uint queue_num @ '' bypass'' else [])
      in ''table '' @ FAMILY @ '' '' @ TABLE @ '' {'' @ [NL] @ ''    chain '' @ CHAIN @ '' {'' @ [NL] @
         ''        type filter hook output priority 0; policy accept;'' @ rule @ [NL] @ ''    }'' @ [NL] @ ''}'' @ [NL])"

definition delete_table :: nft_command where
  "delete_table = Nft [''delete'', ''table'', FAMILY, TABLE]"

definition flush_chain :: nft_command where
  "flush_chain = Nft [''flush'', ''chain'', FAMILY, TABLE, CHAIN]"

definition add_queue_rule :: "u16 \<Rightarrow> nft_command" where
  "add_queue_rule queue_num = Nft [''add'', ''rule'', FAMILY, TABLE, CHAIN, ''ct'', ''state'', ''new'',
     ''queue'', ''num'', show_uint queue_num, ''bypass'']"

definition fw_setup :: "'k nft_exec \<Rightarrow> u16 \<Rightarrow> bool \<Rightarrow> 'k \<Rightarrow> Firewall option \<times> 'k" where
  "fw_setup exec queue_num paused k =
     (let (_, k) = exec delete_table k;
          (ok, k) = exec (NftScript (table_script (\<not> paused) queue_num)) k
      in (if ok then Some \<lparr>fw_queue_num = queue_num\<rparr> else None, k))"

definition fw_pause :: "'k nft_exec \<Rightarrow> Firewall \<Rightarrow> 'k \<Rightarrow> bool \<times> 'k" where
  "fw_pause exec fw k = exec flush_chain k"

definition fw_resume :: "'k nft_exec \<Rightarrow> Firewall \<Rightarrow> 'k \<Rightarrow> bool \<times> 'k" where
  "fw_resume exec fw k = exec (add_queue_rule (fw_queue_num fw)) k"

definition fw_teardown :: "'k nft_exec \<Rightarrow> Firewall \<Rightarrow> 'k \<Rightarrow> 'k" where
  "fw_teardown exec fw k = snd (exec delete_table k)"

section \<open>The verdict\<close>

datatype Verdict = Accept | Drop

text \<open>The verdict, the line the rate limiter allows for a blocked packet, and the new state.\<close>

definition decide :: "os_env \<Rightarrow> time \<Rightarrow> time \<Rightarrow> u8 list \<Rightarrow> DaemonState
    \<Rightarrow> (Verdict \<times> LogAction option \<times> DaemonState) may_panic" where
  "decide env now instant payload s =
     (if is_paused s then Some (Accept, None, s)
      else (case parse_packet payload of
          None \<Rightarrow> None
        | Some None \<Rightarrow> Some (Accept, None, s)
        | Some (Some (proto, local_port, remote_addr, remote_port)) \<Rightarrow>
            (let dst = show_ip remote_addr @ '':'' @ show_uint remote_port;
                 ((pid, name, exe), s) = attribute env proto local_port s
             in (case (pid, exe) of
                   (Some pid, Some exe) \<Rightarrow>
                     if is_blocked now exe (ds_rules s) then
                       (let s = s\<lparr>ds_blocked_count := ds_blocked_count s + 1\<rparr>;
                            (action, log) = should_log (exe, dst) instant (ds_block_log s)
                        in Some (Drop, Some action, s\<lparr>ds_block_log := log\<rparr>))
                     else Some (Accept, None, s)
                 | _ \<Rightarrow> Some (Accept, None, s)))))"

section \<open>The queue worker\<close>

text \<open>What \<open>recv\<close> returns, and whether the verdict could be handed back.\<close>

datatype queue_event = Packet os_env time time "u8 list" bool | RecvFails

text \<open>The loop: the verdicts it handed to the kernel, and the state it ends in.  The last
  component is whether the loop ended; it ends only with an error.\<close>

fun queue_messages :: "queue_event list \<Rightarrow> DaemonState \<Rightarrow> (Verdict list \<times> DaemonState \<times> bool) may_panic" where
  "queue_messages [] s = Some ([], s, False)"
| "queue_messages (RecvFails # es) s = Some ([], s, True)"
| "queue_messages (Packet env now instant payload verdict_ok # es) s =
     (case decide env now instant payload s of
        None \<Rightarrow> None
      | Some (v, _, s) \<Rightarrow>
          if \<not> verdict_ok then Some ([], s, True)
          else (case queue_messages es s of
              None \<Rightarrow> None
            | Some (vs, s, ended) \<Rightarrow> Some (v # vs, s, ended)))"

record queue_setup =
  qs_open :: bool
  qs_bind :: bool

definition queue_loop :: "queue_setup \<Rightarrow> queue_event list \<Rightarrow> DaemonState
    \<Rightarrow> (Verdict list \<times> DaemonState \<times> bool) may_panic" where
  "queue_loop q es s =
     (if \<not> qs_open q \<or> \<not> qs_bind q then Some ([], s, True)
      else queue_messages es (s\<lparr>ds_filtering_active := True\<rparr>))"

definition queue_worker :: "queue_setup \<Rightarrow> queue_event list \<Rightarrow> DaemonState
    \<Rightarrow> (Verdict list \<times> DaemonState \<times> bool) may_panic" where
  "queue_worker q es s =
     (case queue_loop q es s of
        None \<Rightarrow> None
      | Some (vs, s, ended) \<Rightarrow> Some (vs, if ended then s\<lparr>ds_filtering_active := False\<rparr> else s, ended))"

section \<open>Specification\<close>

text \<open>The policy, stated over what the attribution finds: drop a TCP or UDP packet of a known
  process whose executable has a block rule, accept everything else.\<close>

definition policy :: "os_env \<Rightarrow> time \<Rightarrow> u8 list \<Rightarrow> DaemonState \<Rightarrow> Verdict" where
  "policy env now payload s =
     (if \<not> ds_paused s \<and> (\<exists>proto lport raddr rport pid exe.
          parse_packet payload = Some (Some (proto, lport, raddr, rport)) \<and>
          fst (lookup (oe_proc env) proto lport (ds_attrib s)) = Some pid \<and>
          exe_of_pid env s pid = Some exe \<and> is_blocked now exe (ds_rules s))
      then Drop else Accept)"

text \<open>The parts of the state the verdicts depend on, the attribution cache apart.\<close>

definition same_policy :: "DaemonState \<Rightarrow> DaemonState \<Rightarrow> bool" where
  "same_policy s s1 \<longleftrightarrow> ds_rules s1 = ds_rules s \<and> ds_processes s1 = ds_processes s \<and> ds_paused s1 = ds_paused s"

text \<open>Whether the calls of one round of the loop succeed.\<close>

fun calls_ok :: "queue_event \<Rightarrow> bool" where
  "calls_ok (Packet _ _ _ _ verdict_ok) = verdict_ok"
| "calls_ok RecvFails = False"

text \<open>What a packet makes of the attribution cache, and the verdicts the policy has for a sequence of
  packets: each for the rules, processes and pause flag of the daemon, and the cache the packets before
  it left.\<close>

fun cache_after :: "DaemonState \<Rightarrow> queue_event \<Rightarrow> Attributor \<Rightarrow> Attributor" where
  "cache_after s (Packet env now instant payload _) a =
     (case parse_packet payload of
        Some (Some (proto, lport, _, _)) \<Rightarrow> if ds_paused s then a else snd (lookup (oe_proc env) proto lport a)
      | _ \<Rightarrow> a)"
| "cache_after s RecvFails a = a"

fun policy_verdicts :: "DaemonState \<Rightarrow> queue_event list \<Rightarrow> Verdict list" where
  "policy_verdicts s [] = []"
| "policy_verdicts s (RecvFails # es) = []"
| "policy_verdicts s (Packet env now instant payload ok # es) =
     policy env now payload s #
     policy_verdicts (s\<lparr>ds_attrib := cache_after s (Packet env now instant payload ok) (ds_attrib s)\<rparr>) es"

text \<open>The daemon's table with the one chain, and the rule that queues new connections.\<close>

definition our_table :: "string list list \<Rightarrow> nft_table" where
  "our_table rules = [''output'' \<mapsto> \<lparr>nc_hook = [''type'', ''filter'', ''hook'', ''output'', ''priority'', ''0;'',
     ''policy'', ''accept;''], nc_rules = rules\<rparr>]"

definition queue_rule :: "u16 \<Rightarrow> string list" where
  "queue_rule n = [''ct'', ''state'', ''new'', ''queue'', ''num'', show_uint n, ''bypass'']"

text \<open>The number of rules in the daemon's chain, when there is one.\<close>

definition queued :: "ruleset \<Rightarrow> nat option" where
  "queued R = Option.bind (R (''inet'', ''travelmode''))
     (\<lambda>T. map_option (\<lambda>ch. length (nc_rules ch)) (T ''output''))"

section \<open>Lemmas\<close>

lemma parse_packet_returns: "\<exists>r. parse_packet payload = Some r"
proof (cases payload)
  case (Cons b0 bs)
  obtain h where h: "parse_ip_header payload b0 = Some h" using parse_ip_header_total by blast
  show ?thesis
  proof (cases h)
    case (Some x)
    obtain pb off src dst where "x = (pb, off, src, dst)" by (cases x) auto
    with h Some Cons show ?thesis
      using parse_ip_header_bounds [of payload b0 pb off src dst]
      by (cases "protocol_of pb") (auto simp: parse_packet_def outcome_simps)
  qed (use h Cons in \<open>simp add: parse_packet_def\<close>)
qed (simp add: parse_packet_def)

lemma decide_total: "\<exists>r. decide env now instant payload s = Some r"
  using parse_packet_returns [of payload]
  by (auto simp: decide_def Let_def split: option.split prod.split)

lemma decide_verdict:
  assumes "decide env now instant payload s = Some (v, act, s')"
  shows "v = policy env now payload s"
proof (cases "ds_paused s")
  case True
  with assms show ?thesis by (simp add: decide_def is_paused_def policy_def)
next
  case False
  obtain r where r: "parse_packet payload = Some r" using parse_packet_returns by blast
  show ?thesis
  proof (cases r)
    case None
    with assms r False show ?thesis by (simp add: decide_def is_paused_def policy_def)
  next
    case (Some x)
    obtain proto lport raddr rport where x: "x = (proto, lport, raddr, rport)" by (cases x) auto
    obtain pid name exe s1 where a: "attribute env proto lport s = ((pid, name, exe), s1)"
      by (cases "attribute env proto lport s") auto
    have f: "ds_rules s1 = ds_rules s" using attribute_frame(3) [of env proto lport s] a by simp
    have l: "fst (lookup (oe_proc env) proto lport (ds_attrib s)) = pid"
      "exe = (case pid of None \<Rightarrow> None | Some p \<Rightarrow> exe_of_pid env s p)"
      using attribute_result [of env proto lport s pid name exe] a by simp_all
    show ?thesis
    proof (cases exe)
      case None
      with assms False r Some x a f l show ?thesis
        by (cases pid) (auto simp: decide_def is_paused_def policy_def Let_def)
    next
      case (Some e)
      with l obtain p where p: "pid = Some p" "exe_of_pid env s p = Some e" by (cases pid) auto
      with assms False r \<open>r = Some x\<close> x a f l(1) Some show ?thesis
        by (auto simp: decide_def is_paused_def policy_def Let_def split: prod.splits if_splits)
    qed
  qed
qed

lemma policy_cong:
  "ds_rules s1 = ds_rules s \<Longrightarrow> ds_processes s1 = ds_processes s \<Longrightarrow> ds_paused s1 = ds_paused s \<Longrightarrow>
    ds_attrib s1 = ds_attrib s \<Longrightarrow> policy env now payload s1 = policy env now payload s"
  by (simp add: policy_def exe_of_pid_def)

lemma decide_state:
  assumes "decide env now instant payload s = Some (v, act, s')"
  shows "s' = s\<lparr>ds_blocked_count := ds_blocked_count s + (if v = Drop then 1 else 0),
    ds_attrib := cache_after s (Packet env now instant payload ok) (ds_attrib s), ds_block_log := ds_block_log s'\<rparr>"
  using assms
  by (auto simp: decide_def is_paused_def attribute_def Let_def split: if_splits option.splits prod.splits)

lemma decide_log:
  assumes "decide env now instant payload s = Some (v, act, s')"
  shows "if v = Drop then (\<exists>proto lport raddr rport exe a.
      parse_packet payload = Some (Some (proto, lport, raddr, rport)) \<and> is_blocked now exe (ds_rules s) \<and> act = Some a \<and>
      should_log (exe, show_ip raddr @ '':'' @ show_uint rport) instant (ds_block_log s) = (a, ds_block_log s'))
    else act = None \<and> ds_block_log s' = ds_block_log s"
  using assms
  by (auto simp: decide_def is_paused_def attribute_def Let_def split: if_splits option.splits prod.splits)

lemma decide_frame:
  assumes "decide env now instant payload s = Some (v, act, s')"
  shows "ds_blocked_count s' = ds_blocked_count s + (if v = Drop then 1 else 0) \<and>
    ds_rules s' = ds_rules s \<and> ds_connections s' = ds_connections s \<and> ds_processes s' = ds_processes s \<and>
    ds_events s' = ds_events s \<and> ds_paused s' = ds_paused s \<and> ds_filtering_active s' = ds_filtering_active s"
  by (subst (1 2 3 4 5 6 7) decide_state [OF assms, where ok = True]) simp

lemma queue_messages_total: "queue_messages es s \<noteq> None"
proof (induction es s rule: queue_messages.induct)
  case (3 env now instant payload verdict_ok es s)
  obtain v act s1 where "decide env now instant payload s = Some (v, act, s1)"
    using decide_total [of env now instant payload s] by auto
  with 3 show ?case by (cases verdict_ok) (auto split: option.splits)
qed simp_all

lemma policy_verdicts_cong:
  "same_policy s s1 \<Longrightarrow> ds_attrib s1 = ds_attrib s \<Longrightarrow> policy_verdicts s1 es = policy_verdicts s es"
proof (induction s es arbitrary: s1 rule: policy_verdicts.induct)
  case (3 s env now instant payload ok es)
  let ?e = "Packet env now instant payload ok"
  have "cache_after s1 ?e (ds_attrib s1) = cache_after s ?e (ds_attrib s)"
    using 3(2,3) by (simp add: same_policy_def split: option.split)
  moreover have "policy env now payload s1 = policy env now payload s"
    using 3(2,3) by (intro policy_cong) (simp_all add: same_policy_def)
  moreover have "policy_verdicts (s1\<lparr>ds_attrib := a\<rparr>) es = policy_verdicts (s\<lparr>ds_attrib := a\<rparr>) es"
    if "a = cache_after s ?e (ds_attrib s)" for a
    unfolding that using 3(2) by (intro 3(1)) (simp_all add: same_policy_def)
  ultimately show ?case by simp
qed simp_all

lemma queue_messages_verdicts:
  "\<exists>s'. queue_messages es s = Some (policy_verdicts s (takeWhile calls_ok es), s', \<not> list_all calls_ok es) \<and>
    same_policy s s' \<and> ds_filtering_active s' = ds_filtering_active s"
proof (induction es arbitrary: s)
  case (Cons e es)
  show ?case
  proof (cases e)
    case (Packet env now instant payload ok)
    obtain v act s1 where d: "decide env now instant payload s = Some (v, act, s1)"
      using decide_total [of env now instant payload s] by auto
    note f = decide_frame [OF d] and st = decide_state [OF d, of ok]
    have c: "ds_attrib s1 = cache_after s e (ds_attrib s)" by (subst st) (simp add: Packet)
    have "policy_verdicts s1 xs = policy_verdicts (s\<lparr>ds_attrib := cache_after s e (ds_attrib s)\<rparr>) xs" for xs
      using f c by (intro policy_verdicts_cong) (simp_all add: same_policy_def)
    with Cons.IH [of s1] d f decide_verdict [OF d] show ?thesis
      by (cases ok) (auto simp: Packet same_policy_def)
  qed (simp add: same_policy_def)
qed (simp add: same_policy_def)

lemma added_rule_removable:
  assumes "add_locked ch t input st = Some (rule, st')" "store_wf st"
  shows "\<exists>st''. remove_locked (r_id rule) st' = (Some rule, st'') \<and> rule \<notin> set (in_rules st'') \<and>
    set (in_rules st'') \<subseteq> set (in_rules st')"
proof -
  obtain qs where q: "in_rules st' = qs @ [rule]" "set qs \<subseteq> set (in_rules st)"
    using assms(1) by (auto simp: add_locked_Some)
  have "\<forall>r \<in> set qs. r_id r \<noteq> r_id rule" using add_locked_fresh [OF assms] q(2) by (metis imageI subsetD)
  then have "position (\<lambda>r. r_id r = r_id rule) (qs @ [rule]) = Some (length qs)" by (induction qs) auto
  moreover have "rule \<notin> set qs" using \<open>\<forall>r \<in> set qs. _\<close> by auto
  ultimately show ?thesis using q(1) by (auto simp: remove_locked_def)
qed

subsection \<open>The commands\<close>

lemma rule_line: "split_whitespace (''        ct state new queue num '' @ show_uint (n :: u16) @ '' bypass'') = queue_rule n"
proof -
  have t: "token w" if "w \<in> set (queue_rule n)" for w
    using that by (auto simp: queue_rule_def token_def printable_def dest: token_show_uint(1) [unfolded token_def, THEN conjunct2, rule_format])
  have "split_whitespace (join '' '' (queue_rule n)) = queue_rule n"
    using t by (rule split_whitespace_join)
  then show ?thesis by (simp add: queue_rule_def)
qed

lemma plain_words:
  "plain_word ''delete''" "plain_word ''flush''" "plain_word ''add''" "plain_word ''table''" "plain_word ''chain''"
  "plain_word ''rule''" "plain_word ''inet''" "plain_word ''travelmode''" "plain_word ''output''" "plain_word ''ct''"
  "plain_word ''state''" "plain_word ''new''" "plain_word ''queue''" "plain_word ''num''" "plain_word ''bypass''"
  by (simp_all add: plain_word_def token_def printable_def)

lemma rule_words_queue: "rule_words (queue_rule n)"
  by (simp add: rule_words_def queue_rule_def plain_words)

lemma parse_table_script:
  "parse_script (table_script with_rule n) = Some (''inet'', ''travelmode'', ''output'',
     \<lparr>nc_hook = [''type'', ''filter'', ''hook'', ''output'', ''priority'', ''0;'', ''policy'', ''accept;''],
      nc_rules = if with_rule then [queue_rule n] else []\<rparr>)"
proof -
  let ?rule = "''        ct state new queue num '' @ show_uint n @ '' bypass''"
  let ?hook = "''        type filter hook output priority 0; policy accept;''"
  let ?ls = "[''table inet travelmode {'', ''    chain output {'', ?hook] @ (if with_rule then [?rule] else []) @ [''    }'', ''}'']"
  have "table_script with_rule n = concat (map (\<lambda>l. l @ [NL]) ?ls)"
    by (simp add: table_script_def TABLE_def FAMILY_def CHAIN_def)
  moreover have "lines (concat (map (\<lambda>l. l @ [NL]) ?ls)) = ?ls"
  proof (rule lines_concat)
    show "NL \<notin> set l \<and> (l = [] \<or> last l \<noteq> CHR 0x0D)" if "l \<in> set ?ls" for l
      using that by (auto simp: NL_def is_dec_def split: if_splits)
  qed
  ultimately have l: "lines (table_script with_rule n) = ?ls" by (simp only:)
  have w: "split_whitespace ''table inet travelmode {'' = [''table'', ''inet'', ''travelmode'', ''{'']"
    "split_whitespace ''    chain output {'' = [''chain'', ''output'', ''{'']"
    "split_whitespace ?hook = [''type'', ''filter'', ''hook'', ''output'', ''priority'', ''0;'', ''policy'', ''accept;'']"
    "split_whitespace ''    }'' = [''}'']" "split_whitespace ''}'' = [''}'']" by code_simp+
  have h: "hook_words [''type'', ''filter'', ''hook'', ''output'', ''priority'', ''0;'', ''policy'', ''accept;'']" by code_simp
  show ?thesis
    unfolding parse_script_def l
    by (cases with_rule) (simp_all add: w [simplified] h rule_line [simplified] plain_words rule_words_queue families_def)
qed

lemma script_effect:
  "R (''inet'', ''travelmode'') = None \<Longrightarrow> nft_effect (NftScript (table_script with_rule n)) R =
     Some (R((''inet'', ''travelmode'') \<mapsto> our_table (if with_rule then [queue_rule n] else [])))"
  by (simp add: parse_table_script our_table_def)

lemma chain_effects:
  "R (''inet'', ''travelmode'') = Some T \<Longrightarrow> T ''output'' = Some ch \<Longrightarrow>
     nft_effect flush_chain R = Some (R((''inet'', ''travelmode'') \<mapsto> T(''output'' \<mapsto> ch\<lparr>nc_rules := []\<rparr>)))"
  "R (''inet'', ''travelmode'') = Some T \<Longrightarrow> T ''output'' = Some ch \<Longrightarrow>
     nft_effect (add_queue_rule n) R =
       Some (R((''inet'', ''travelmode'') \<mapsto> T(''output'' \<mapsto> ch\<lparr>nc_rules := nc_rules ch @ [queue_rule n]\<rparr>)))"
  using rule_words_queue [of n]
  by (simp_all add: flush_chain_def add_queue_rule_def args_effect_def families_def plain_words
      FAMILY_def TABLE_def CHAIN_def queue_rule_def)

lemma command_effects:
  "nft_effect delete_table R = Some (R((''inet'', ''travelmode'') := None))"
  "R (''inet'', ''travelmode'') = Some (our_table rules) \<Longrightarrow>
     nft_effect flush_chain R = Some (R((''inet'', ''travelmode'') \<mapsto> our_table []))"
  "R (''inet'', ''travelmode'') = Some (our_table rules) \<Longrightarrow>
     nft_effect (add_queue_rule n) R = Some (R((''inet'', ''travelmode'') \<mapsto> our_table (rules @ [queue_rule n])))"
  using chain_effects [of R "our_table rules"]
  by (simp_all add: delete_table_def args_effect_def families_def plain_words FAMILY_def TABLE_def our_table_def)

lemma delete_table_words: "delete_table = Nft [''delete'', ''table'', ''inet'', ''travelmode'']"
  by (simp add: delete_table_def FAMILY_def TABLE_def)

lemma delete_runs:
  assumes "nft_ok exec view"
  shows "view (snd (exec delete_table j)) =
    (if fst (exec delete_table j) then (view j)((''inet'', ''travelmode'') := None) else view j)"
  using nft_done [OF assms _ command_effects(1)] nft_failed [OF assms] by metis

lemma toggle_runs:
  assumes "nft_ok exec view" "view j (''inet'', ''travelmode'') = Some (our_table rules)"
  shows "view (snd (exec flush_chain j)) =
      (if fst (exec flush_chain j) then (view j)((''inet'', ''travelmode'') \<mapsto> our_table []) else view j)"
    and "view (snd (exec (add_queue_rule n) j)) =
      (if fst (exec (add_queue_rule n) j) then (view j)((''inet'', ''travelmode'') \<mapsto> our_table (rules @ [queue_rule n])) else view j)"
  using nft_done [OF assms(1) _ command_effects(2) [of "view j", OF assms(2)]]
    nft_done [OF assms(1) _ command_effects(3) [of "view j", OF assms(2)]] nft_failed [OF assms(1)] by metis+

lemma queued_toggles:
  assumes "nft_ok exec view"
  shows "fst (exec flush_chain k) \<Longrightarrow> queued (view k) = Some n \<Longrightarrow> queued (view (snd (exec flush_chain k))) = Some 0"
    and "fst (exec (add_queue_rule q) k) \<Longrightarrow> queued (view k) = Some n \<Longrightarrow>
      queued (view (snd (exec (add_queue_rule q) k))) = Some (n + 1)"
  using nft_done [OF assms, of flush_chain k] nft_done [OF assms, of "add_queue_rule q" k]
  by (auto simp: queued_def bind_eq_Some_conv chain_effects)

lemma fw_setup_kernel:
  "snd (fw_setup exec n paused k) = snd (exec (NftScript (table_script (\<not> paused) n)) (snd (exec delete_table k)))"
  by (simp add: fw_setup_def Let_def split: prod.split)

text \<open>Every command the daemon issues is about its own table.\<close>

definition our_command :: "nft_command \<Rightarrow> bool" where
  "our_command c \<longleftrightarrow> nft_target c = Some (''inet'', ''travelmode'')"

lemma our_commands:
  "our_command delete_table" "our_command flush_chain" "our_command (add_queue_rule n)"
  "our_command (NftScript (table_script with_rule n))"
  by (simp_all add: our_command_def parse_table_script delete_table_def flush_chain_def add_queue_rule_def families_def
      plain_words FAMILY_def TABLE_def CHAIN_def)

lemma our_command_others:
  "nft_ok exec view \<Longrightarrow> our_command c \<Longrightarrow> T \<noteq> (''inet'', ''travelmode'') \<Longrightarrow> view (snd (exec c i)) T = view i T"
  unfolding our_command_def by (rule nft_others)

section \<open>Properties\<close>

text \<open>A daemon that blocks one executable, which holds the only TCP socket on port 80.\<close>

definition demo_blocking :: DaemonState where
  "demo_blocking = (daemon_new (\<lambda>_. None) 0 0 (Inl NotFound) Map.empty config_default)
     \<lparr>ds_rules := demo_store, ds_attrib := \<lparr>at_inode_to_pid = [(777, 42)]\<rparr>,
      ds_processes := [(42, \<lparr>pi_pid = 42, pi_name = ''a'', pi_exe = Some ''/bin/a'', pi_user = None, pi_ppid = 1\<rparr>)]\<rparr>"

definition demo_os :: os_env where
  "demo_os = \<lparr>oe_proc = demo_env\<lparr>pe_fds := (\<lambda>_. Some [Some ''socket:[777]''])\<rparr>, oe_process = (\<lambda>_. None)\<rparr>"

definition demo_packet :: "u8 list" where
  "demo_packet = [0x45, 0, 0, 40, 0, 0, 0, 0, 64, 6, 0, 0, 10, 0, 0, 5, 93, 184, 216, 34, 0, 80, 1, 187, 0]"

lemma demo_packet_flow:
  "parse_packet demo_packet = Some (Some (Tcp, 80, V4 (Ipv4Addr 93 184 216 34), 443))"
  by (simp add: parse_packet_def parse_ip_header_def demo_packet_def idx_def protocol_of_def u16_be_def Let_def)

lemma demo_os_lookup: "fst (lookup (oe_proc demo_os) Tcp 80 \<lparr>at_inode_to_pid = [(777, 42)]\<rparr>) = Some 42"
proof -
  have "show_uint (777 :: u64) = ''777''" by code_simp
  then have "parse_uint ''777'' = Some (777 :: u64)" by (metis parse_uint_show)
  then have i: "socket_inode_of ''socket:[777]'' = Some 777"
    by (simp add: socket_inode_of_def strip_prefix_def strip_suffix_char_def)
  have "find_socket_inode (pe_net demo_env) Tcp 80 = Some 777" by (rule demo_find_inode)
  with i show ?thesis
    by (simp add: lookup_def demo_os_def pid_owns_inode_def)
qed

lemma demo_policy: "policy demo_os 5 demo_packet demo_blocking = Drop"
proof -
  have "is_blocked 5 ''/bin/a'' (ds_rules demo_blocking)"
    by (simp add: demo_blocking_def is_blocked_def demo_store_def demo_rule_def is_expired_def)
  moreover have "fst (lookup (oe_proc demo_os) Tcp 80 (ds_attrib demo_blocking)) = Some 42"
    using demo_os_lookup by (simp add: demo_blocking_def)
  moreover have "exe_of_pid demo_os demo_blocking 42 = Some ''/bin/a''"
    by (simp add: exe_of_pid_def demo_blocking_def)
  moreover have "\<not> ds_paused demo_blocking" by (simp add: demo_blocking_def daemon_new_def)
  ultimately show ?thesis unfolding policy_def demo_packet_flow by auto
qed



text \<open>C5: A block rule takes effect on the next packet of the executable and lifting it does too:
  once a block rule for a path is added, a TCP or UDP packet that is attributed to that path is
  dropped by the queue worker until the rule expires, unless filtering is paused; and the rule's id
  removes it, after which such a packet is accepted again.\<close>

theorem added_rule_blocks:
  assumes "add_locked ch t input (ds_rules s) = Some (rule, st')" and "store_wf (ds_rules s)"
    and "i_action input = Block" and "\<not> ds_paused s"
    and "parse_packet payload = Some (Some (proto, lport, raddr, rport))"
    and "fst (lookup (oe_proc env) proto lport (ds_attrib s)) = Some pid"
    and "exe_of_pid env s pid = Some exe" and "path_eq exe (i_exe_path input)"
  shows "\<exists>act s1 st'' s2.
    decide env now instant payload (s\<lparr>ds_rules := st'\<rparr>) = Some (if is_expired rule now then Accept else Drop, act, s1) \<and>
    remove_locked (r_id rule) st' = (Some rule, st'') \<and>
    decide env now instant payload (s\<lparr>ds_rules := st''\<rparr>) = Some (Accept, None, s2)"
proof -
  have k: "r_action rule = Block" "path_eq (r_exe_path rule) exe" "rule \<in> set (in_rules st')"
    using assms(1,3,8) by (auto simp: add_locked_Some path_eq_def)
  have o: "\<not> (r_action q = Block \<and> path_eq (r_exe_path q) exe)" if "q \<in> set (in_rules st')" "q \<noteq> rule" for q
    using that assms(1,3,8) by (auto simp: add_locked_Some key_of_def path_eq_def)
  have v: "\<exists>act s1. decide env now instant payload (s\<lparr>ds_rules := rs\<rparr>) =
      Some (if is_blocked now exe rs then Drop else Accept, act, s1) \<and> (is_blocked now exe rs \<or> act = None)" for rs
  proof -
    have "exe_of_pid env (s\<lparr>ds_rules := rs\<rparr>) pid = Some exe" using assms(7) by (simp add: exe_of_pid_def)
    then have p: "policy env now payload (s\<lparr>ds_rules := rs\<rparr>) = (if is_blocked now exe rs then Drop else Accept)"
      using assms(4-6) by (auto simp: policy_def)
    obtain v act s1 where d: "decide env now instant payload (s\<lparr>ds_rules := rs\<rparr>) = Some (v, act, s1)"
      using decide_total [of env now instant payload "s\<lparr>ds_rules := rs\<rparr>"] by auto
    from decide_verdict [OF d] decide_log [OF d] d show ?thesis unfolding p by (auto split: if_splits)
  qed
  obtain st'' where r: "remove_locked (r_id rule) st' = (Some rule, st'')" "rule \<notin> set (in_rules st'')"
    "set (in_rules st'') \<subseteq> set (in_rules st')"
    using added_rule_removable [OF assms(1,2)] by blast
  have "is_blocked now exe st' \<longleftrightarrow> \<not> is_expired rule now" "\<not> is_blocked now exe st''"
    using k o r(2,3) by (auto simp: is_blocked_def list_ex_iff)
  with v [of st'] v [of st''] r(1) show ?thesis by (auto split: if_splits)
qed

theorem added_rule_blocks_witness:
  "\<exists>rule st' act s1 st'' s2. add_locked demo_chrono 1 (demo_input ''/bin//a'' Block None) demo_store = Some (rule, st') \<and>
     decide demo_os 5 5 demo_packet (demo_blocking\<lparr>ds_rules := st'\<rparr>) = Some (Drop, act, s1) \<and>
     remove_locked (r_id rule) st' = (Some rule, st'') \<and>
     decide demo_os 5 5 demo_packet (demo_blocking\<lparr>ds_rules := st''\<rparr>) = Some (Accept, None, s2)"
proof -
  have b: "ds_rules demo_blocking = demo_store" "ds_attrib demo_blocking = \<lparr>at_inode_to_pid = [(777, 42)]\<rparr>"
      "\<not> ds_paused demo_blocking" "exe_of_pid demo_os demo_blocking 42 = Some ''/bin/a''"
    by (simp_all add: demo_blocking_def exe_of_pid_def daemon_new_def)
  obtain rule st' where a: "add_locked demo_chrono 1 (demo_input ''/bin//a'' Block None) (ds_rules demo_blocking) = Some (rule, st')"
      and e: "\<not> is_expired rule 5"
    by (auto simp: add_locked_def expiry_def demo_input_def is_expired_def Let_def)
  have w: "store_wf (ds_rules demo_blocking)" "i_action (demo_input ''/bin//a'' Block None) = Block"
      "path_eq ''/bin/a'' (i_exe_path (demo_input ''/bin//a'' Block None))"
    by (simp_all add: b demo_input_def path_eq_def)
  have l: "fst (lookup (oe_proc demo_os) Tcp 80 (ds_attrib demo_blocking)) = Some 42"
    using demo_os_lookup by (simp add: b)
  from added_rule_blocks [OF a w(1,2) b(3) demo_packet_flow l b(4) w(3), of 5 5] e a show ?thesis
    unfolding b(1) by auto
qed

text \<open>C28: The queue worker never dies of a packet: it gives every packet it received exactly the
  verdict of the policy at that moment, in order.  It ends exactly when the queue cannot be opened or
  bound or a later call on it fails, after the verdicts of the packets before that call, and
  filtering is reported as active exactly while it has not ended.\<close>

theorem queue_worker_verdicts:
  "\<exists>s'. queue_worker q es s =
     Some (if qs_open q \<and> qs_bind q then policy_verdicts s (takeWhile calls_ok es) else [], s',
       \<not> (qs_open q \<and> qs_bind q \<and> list_all calls_ok es)) \<and>
     same_policy s s' \<and> ds_filtering_active s' = (qs_open q \<and> qs_bind q \<and> list_all calls_ok es)"
proof (cases "qs_open q \<and> qs_bind q")
  case True
  let ?s = "s\<lparr>ds_filtering_active := True\<rparr>"
  have p: "policy_verdicts ?s xs = policy_verdicts s xs" for xs
    by (rule policy_verdicts_cong) (simp_all add: same_policy_def)
  obtain s' where "queue_messages es ?s = Some (policy_verdicts ?s (takeWhile calls_ok es), s', \<not> list_all calls_ok es)"
    "same_policy ?s s'" "ds_filtering_active s'"
    using queue_messages_verdicts [of es ?s] by auto
  with True show ?thesis
    by (auto simp: queue_worker_def queue_loop_def same_policy_def p)
qed (auto simp: queue_worker_def queue_loop_def same_policy_def)

theorem queue_worker_verdicts_witness:
  "\<exists>s'. queue_worker \<lparr>qs_open = True, qs_bind = True\<rparr> [Packet demo_os 5 5 demo_packet True, RecvFails]
     demo_blocking = Some ([Drop], s', True) \<and> \<not> ds_filtering_active s'"
proof -
  have "policy_verdicts demo_blocking [Packet demo_os 5 5 demo_packet True] = [Drop]"
    by (simp add: demo_policy)
  with queue_worker_verdicts [of "\<lparr>qs_open = True, qs_bind = True\<rparr>" "[Packet demo_os 5 5 demo_packet True, RecvFails]" demo_blocking]
  show ?thesis by auto
qed

text \<open>C29: The daemon's table: a successful setup where no table is left over leaves exactly the
  table \<open>inet travelmode\<close> with the one accepting output chain, whose only rule queues new
  connections to the configured queue and lets them bypass it when nobody listens, and no rule
  when paused.  From such a table, whatever its rules, a successful pause removes them all, a
  successful resume appends the queue rule (also when there is one, so that resuming twice queues
  every packet by two rules), and a successful teardown removes the table; what fails changes
  nothing.  No other table is ever touched, by any of the four, successful or not.\<close>

theorem firewall_table:
  assumes "nft_ok exec view"
    and "fw_setup exec n paused k = (Some fw, k')" and "view (snd (exec (Nft [''delete'', ''table'', ''inet'', ''travelmode'']) k)) (''inet'', ''travelmode'') = None"
    and "view j (''inet'', ''travelmode'') = Some (our_table rules)"
  shows "view k' = (view k)((''inet'', ''travelmode'') \<mapsto> our_table (if paused then [] else [queue_rule n])) \<and>
    view (snd (fw_pause exec fw j)) =
      (if fst (fw_pause exec fw j) then (view j)((''inet'', ''travelmode'') \<mapsto> our_table []) else view j) \<and>
    view (snd (fw_resume exec fw j)) =
      (if fst (fw_resume exec fw j) then (view j)((''inet'', ''travelmode'') \<mapsto> our_table (rules @ [queue_rule n])) else view j) \<and>
    view (fw_teardown exec fw j) =
      (if fst (exec (Nft [''delete'', ''table'', ''inet'', ''travelmode'']) j) then (view j)((''inet'', ''travelmode'') := None) else view j) \<and>
    (\<forall>T. T \<noteq> (''inet'', ''travelmode'') \<longrightarrow> (\<forall>i m p f. view (snd (fw_setup exec m p i)) T = view i T \<and>
       view (snd (fw_pause exec f i)) T = view i T \<and> view (snd (fw_resume exec f i)) T = view i T \<and>
       view (fw_teardown exec f i) T = view i T))"
proof -
  note law = assms(1)
  let ?our = "(''inet'', ''travelmode'')" let ?k1 = "snd (exec delete_table k)"
  let ?script = "NftScript (table_script (\<not> paused) n)"
  have ok: "fst (exec ?script ?k1)" and k': "k' = snd (exec ?script ?k1)" and fw: "fw_queue_num fw = n"
    using assms(2) by (auto simp: fw_setup_def Let_def split: prod.splits if_splits)
  have "view ?k1 ?our = None" using assms(3) by (simp add: delete_table_def FAMILY_def TABLE_def)
  from nft_done [OF law ok script_effect [of "view ?k1", OF this]]
  have "view k' = (view ?k1)(?our \<mapsto> our_table (if paused then [] else [queue_rule n]))"
    by (cases paused) (simp_all only: k' simp_thms if_True if_False)
  moreover have "view ?k1 = (view k)(?our := None)"
    using \<open>view ?k1 ?our = None\<close> our_command_others [OF law our_commands(1), of _ k] by (intro ext) auto
  ultimately have made: "view k' = (view k)(?our \<mapsto> our_table (if paused then [] else [queue_rule n]))"
    by simp
  have others: "\<forall>T. T \<noteq> ?our \<longrightarrow> (\<forall>i m p f. view (snd (fw_setup exec m p i)) T = view i T \<and>
      view (snd (fw_pause exec f i)) T = view i T \<and> view (snd (fw_resume exec f i)) T = view i T \<and>
      view (fw_teardown exec f i) T = view i T)"
    using our_command_others [OF law our_commands(1)] our_command_others [OF law our_commands(2)]
      our_command_others [OF law our_commands(3)] our_command_others [OF law our_commands(4)]
    unfolding fw_setup_kernel fw_pause_def fw_resume_def fw_teardown_def by simp
  show ?thesis
    unfolding fw_pause_def fw_resume_def fw_teardown_def fw delete_table_words [symmetric]
    using made others [unfolded fw_pause_def fw_resume_def fw_teardown_def] delete_runs [OF law, of j]
      toggle_runs(1) [of exec view j rules, OF law assms(4)] toggle_runs(2) [of exec view j rules n, OF law assms(4)]
    by (intro conjI)
qed

lemma demo_nft_simps:
  "demo_nft delete_table R = (if R (''inet'', ''travelmode'') = None then (False, R) else (True, R((''inet'', ''travelmode'') := None)))"
  "R (''inet'', ''travelmode'') = None \<Longrightarrow> demo_nft (NftScript (table_script with_rule n)) R =
     (True, R((''inet'', ''travelmode'') \<mapsto> our_table (if with_rule then [queue_rule n] else [])))"
  "R (''inet'', ''travelmode'') = Some (our_table rules) \<Longrightarrow>
     demo_nft flush_chain R = (True, R((''inet'', ''travelmode'') \<mapsto> our_table []))"
  "R (''inet'', ''travelmode'') = Some (our_table rules) \<Longrightarrow>
     demo_nft (add_queue_rule n) R = (True, R((''inet'', ''travelmode'') \<mapsto> our_table (rules @ [queue_rule n])))"
  using our_commands [unfolded our_command_def] command_effects [of R] script_effect [of R]
  by (simp_all add: demo_nft_def delete_table_def flush_chain_def add_queue_rule_def split: nft_command.split)

lemma demo_nft_chain:
  "R (''inet'', ''travelmode'') = Some T \<Longrightarrow> T ''output'' = Some ch \<Longrightarrow> fst (demo_nft flush_chain R)"
  "R (''inet'', ''travelmode'') = Some T \<Longrightarrow> T ''output'' = Some ch \<Longrightarrow> fst (demo_nft (add_queue_rule n) R)"
  using our_commands [unfolded our_command_def] chain_effects [of R T ch]
  by (simp_all add: demo_nft_def flush_chain_def add_queue_rule_def)

theorem firewall_table_witness:
  "\<exists>fw k j. fw_setup demo_nft 0 False Map.empty = (Some fw, k) \<and> k = [(''inet'', ''travelmode'') \<mapsto> our_table [queue_rule 0]] \<and>
     fw_pause demo_nft fw k = (True, j) \<and> j = [(''inet'', ''travelmode'') \<mapsto> our_table []]"
proof -
  obtain fw k where f: "fw_setup demo_nft 0 False Map.empty = (Some fw, k)"
    by (simp add: fw_setup_def demo_nft_simps)
  have d: "snd (demo_nft (Nft [''delete'', ''table'', ''inet'', ''travelmode'']) Map.empty) (''inet'', ''travelmode'') = None"
    using demo_nft_simps(1) [of Map.empty] by (simp add: delete_table_def FAMILY_def TABLE_def)
  have e: "[(''inet'', ''travelmode'') \<mapsto> our_table [queue_rule 0]] (''inet'', ''travelmode'') = Some (our_table [queue_rule 0])" by simp
  have p: "fst (fw_pause demo_nft fw [(''inet'', ''travelmode'') \<mapsto> our_table [queue_rule 0]])"
    by (simp add: fw_pause_def demo_nft_simps(3) [where rules = "[queue_rule 0]"])
  from firewall_table [of demo_nft "\<lambda>R. R" 0 False Map.empty fw k "[(''inet'', ''travelmode'') \<mapsto> our_table [queue_rule 0]]"
      "[queue_rule 0]", OF demo_nft_ok f d e] f p show ?thesis
    by (cases "fw_pause demo_nft fw k") auto
qed

end
