(* ===== verification/Dispatch.thy ===== *)
theory Dispatch
  imports Firewall Flowkill Conntrack
begin

text \<open>
  The daemon's request handling and background tasks (\<open>crates/daemon/src/main.rs\<close>).  Besides
  the shared state there are the processes the daemon runs (\<open>d_kill\<close>) and the tasks it has
  spawned to toggle the queue rule and that have not run yet (\<open>d_toggles\<close>).  The libraries
  and the outside world are a record; a step's clock and system call outcomes are inputs.
\<close>

section \<open>Definitions\<close>

record Daemon =
  d_state :: DaemonState
  d_kill :: kill_world
  d_toggles :: "bool list"

record externals =
  ex_chrono :: chrono
  ex_to_json :: "Persisted \<Rightarrow> string option"
  ex_from_json :: "string \<Rightarrow> Persisted option"
  ex_run :: "command \<Rightarrow> cmd_outcome"

type_synonym usages = "(string, AppUsage) hashmap"

record step_env =
  se_now :: time
  se_fs :: fs_outcome
  se_top_order :: "usages \<Rightarrow> usages"
  se_version :: string

subsection \<open>Usage per application\<close>

definition app_key :: "ConnectionInfo \<Rightarrow> string" where
  "app_key conn =
     (case c_exe conn of
        Some p \<Rightarrow> display p
      | None \<Rightarrow> (case c_process_name conn of Some n \<Rightarrow> n | None \<Rightarrow> ''unknown''))"

definition new_usage :: "ConnectionInfo \<Rightarrow> AppUsage" where
  "new_usage conn = \<lparr>au_name = (case c_process_name conn of Some n \<Rightarrow> n | None \<Rightarrow> ''unknown''),
     au_exe = c_exe conn, au_bytes_sent = 0, au_bytes_recv = 0, au_connections = 0, au_blocked = False\<rparr>"

definition add_usage :: "ConnectionInfo \<Rightarrow> usages \<Rightarrow> usages" where
  "add_usage conn apps =
     (let key = app_key conn;
          entry = (case map_of apps key of Some e \<Rightarrow> e | None \<Rightarrow> new_usage conn)
      in AList.update key
           (entry\<lparr>au_bytes_sent := au_bytes_sent entry + c_bytes_sent conn,
                  au_bytes_recv := au_bytes_recv entry + c_bytes_recv conn,
                  au_connections := au_connections entry + 1\<rparr>) apps)"

definition flag_blocked :: "time \<Rightarrow> Inner \<Rightarrow> AppUsage \<Rightarrow> AppUsage" where
  "flag_blocked now rules app =
     app\<lparr>au_blocked := (case au_exe app of None \<Rightarrow> False | Some exe \<Rightarrow> is_blocked now exe rules)\<rparr>"

definition usage_total :: "AppUsage \<Rightarrow> u64" where
  "usage_total a = au_bytes_sent a + au_bytes_recv a"

text \<open>\<open>sort_by_key\<close> is stable; \<open>Reverse\<close> turns the order around.\<close>

definition top_apps :: "(usages \<Rightarrow> usages) \<Rightarrow> time \<Rightarrow> DaemonState \<Rightarrow> AppUsage list" where
  "top_apps ord now s =
     (let apps = fold add_usage (map snd (ds_connections s)) [];
          apps = map (flag_blocked now (ds_rules s)) (map snd (ord apps))
      in sort_key (\<lambda>a. - int (unat (usage_total a))) apps)"

subsection \<open>Requests\<close>

definition empty_network :: NetworkInfo where
  "empty_network = \<lparr>ni_interfaces = [], ni_gateway = None, ni_dns_servers = [], ni_ssid = None,
     ni_metered = None, ni_primary_interface = None\<rparr>"

definition no_rule_message :: "u64 \<Rightarrow> string" where
  "no_rule_message i = ''no rule with id '' @ show_uint i"

fun dispatch :: "externals \<Rightarrow> step_env \<Rightarrow> Request \<Rightarrow> Daemon \<Rightarrow> (Response \<times> Daemon) may_panic" where
  "dispatch ex env Ping d = Some (Pong, d)"
| "dispatch ex env GetStatus d =
     (let s = d_state d in
      Some (RStatus \<lparr>s_version = se_version env, s_uptime_secs = uptime_secs (se_now env) s,
        s_paused = is_paused s, s_filtering_active = ds_filtering_active s,
        s_rules_count = rule_count (ds_rules s), s_tracked_connections = length (ds_connections s),
        s_tracked_processes = length (ds_processes s)\<rparr>, d))"
| "dispatch ex env GetNetwork d =
     Some (RNetwork (case ds_network (d_state d) of Some n \<Rightarrow> n | None \<Rightarrow> empty_network), d)"
| "dispatch ex env GetProcesses d = Some (RProcesses (map snd (ds_processes (d_state d))), d)"
| "dispatch ex env GetConnections d = Some (RConnections (map snd (ds_connections (d_state d))), d)"
| "dispatch ex env GetTop d = Some (RTop (top_apps (se_top_order env) (se_now env) (d_state d)), d)"
| "dispatch ex env ListRules d = Some (RRules (list_rules (ds_rules (d_state d))), d)"
| "dispatch ex env (AddRule input) d =
     (let s = d_state d in
      case add (ex_chrono ex) (ex_to_json ex) (se_fs env) (se_now env) input (ds_rules s, ds_disk s) of
        None \<Rightarrow> None
      | Some (stored, rules, disk) \<Rightarrow>
          (let s = publish (RuleAdded stored) (s\<lparr>ds_rules := rules, ds_disk := disk\<rparr>);
               w = (if r_action stored = Block
                    then snd (kill_flows_for_exe (ex_run ex) s (r_exe_path stored) (d_kill d)) else d_kill d)
           in Some (ROk, d\<lparr>d_state := s, d_kill := w\<rparr>)))"
| "dispatch ex env (RemoveRule i) d =
     (let s = d_state d in
      case remove (ex_to_json ex) (se_fs env) i (ds_rules s, ds_disk s) of
        (Some rule, rules, disk) \<Rightarrow>
          Some (ROk, d\<lparr>d_state := publish (RuleRemoved i) (s\<lparr>ds_rules := rules, ds_disk := disk\<rparr>)\<rparr>)
      | (None, rules, disk) \<Rightarrow>
          Some (RError (no_rule_message i), d\<lparr>d_state := s\<lparr>ds_rules := rules, ds_disk := disk\<rparr>\<rparr>))"
| "dispatch ex env (SetPaused paused) d =
     Some (ROk, d\<lparr>d_state := publish (PausedChanged paused) ((d_state d)\<lparr>ds_paused := paused\<rparr>),
       d_toggles := d_toggles d @ [paused]\<rparr>)"
| "dispatch ex env Subscribe d = Some (RError ''Subscribe is handled by the IPC layer'', d)"

subsection \<open>Background tasks\<close>

text \<open>A spawned toggle task, when it gets the firewall lock.\<close>

definition run_toggle :: "'k nft_exec \<Rightarrow> bool \<Rightarrow> Daemon \<Rightarrow> 'k \<Rightarrow> 'k" where
  "run_toggle exec paused d k =
     (case ds_firewall (d_state d) of
        None \<Rightarrow> k
      | Some fw \<Rightarrow> snd (if paused then fw_pause exec fw k else fw_resume exec fw k))"

definition reaper_tick :: "externals \<Rightarrow> fs_outcome \<Rightarrow> time \<Rightarrow> Daemon \<Rightarrow> Daemon" where
  "reaper_tick ex fo now d =
     (let s = d_state d; (ids, rules, disk) = reap_expired (ex_to_json ex) fo now (ds_rules s, ds_disk s)
      in d\<lparr>d_state := fold (\<lambda>i. publish (RuleRemoved i)) ids (s\<lparr>ds_rules := rules, ds_disk := disk\<rparr>)\<rparr>)"

definition refresh_network :: "NetworkInfo \<Rightarrow> Daemon \<Rightarrow> Daemon" where
  "refresh_network snapshot d = d\<lparr>d_state := (d_state d)\<lparr>ds_network := Some snapshot\<rparr>\<rparr>"

text \<open>The first poll of the tracker, then the blocks that were persisted are enforced.\<close>

definition first_poll :: "externals \<Rightarrow> proc_env \<Rightarrow> poll_input \<Rightarrow> Daemon \<Rightarrow> Daemon" where
  "first_poll ex env i d =
     (let s = d_state d;
          s = s\<lparr>ds_attrib := refresh env (ds_attrib s)\<rparr>;
          s = poll_once i s
      in d\<lparr>d_state := s, d_kill := kill_flows_for_block_rules (ex_run ex) s (d_kill d)\<rparr>)"

definition start_firewall :: "'k nft_exec \<Rightarrow> Daemon \<times> 'k \<Rightarrow> Daemon \<times> 'k" where
  "start_firewall exec = (\<lambda>(d, k).
     let s = d_state d; (fw, k) = fw_setup exec (cf_queue_num (ds_config s)) (is_paused s) k
     in (d\<lparr>d_state := s\<lparr>ds_firewall := fw\<rparr>\<rparr>, k))"

text \<open>Shutdown: the table is removed, the socket file unlinked (\<open>removed\<close> is whether \<open>remove_file\<close>
  succeeds), the rules saved.\<close>

definition shutdown :: "externals \<Rightarrow> 'k nft_exec \<Rightarrow> fs_outcome \<Rightarrow> bool \<Rightarrow> path option \<Rightarrow> Daemon \<times> 'k \<times> (path \<Rightarrow> nat option)
    \<Rightarrow> Daemon \<times> 'k \<times> (path \<Rightarrow> nat option)" where
  "shutdown ex exec fo removed socket_path = (\<lambda>(d, k, sockets).
     let s = d_state d;
         k = (case ds_firewall s of None \<Rightarrow> k | Some fw \<Rightarrow> fw_teardown exec fw k);
         s = s\<lparr>ds_firewall := None\<rparr>;
         sockets = (case socket_path of None \<Rightarrow> sockets | Some p \<Rightarrow> if removed then sockets(p := None) else sockets);
         s = s\<lparr>ds_disk := save (ex_to_json ex) fo (ds_rules s, ds_disk s)\<rparr>
     in (d\<lparr>d_state := s\<rparr>, k, sockets))"

section \<open>Lemmas\<close>

subsection \<open>Usage\<close>

definition usage_key :: "AppUsage \<Rightarrow> string" where
  "usage_key a = (case au_exe a of Some p \<Rightarrow> display p | None \<Rightarrow> au_name a)"

lemma usage_key_new [simp]: "usage_key (new_usage c) = app_key c"
  by (simp add: usage_key_def new_usage_def app_key_def split: option.split)

lemma usage_key_update [simp]:
  "usage_key (a\<lparr>au_bytes_sent := x, au_bytes_recv := y, au_connections := z\<rparr>) = usage_key a"
  "usage_key (flag_blocked now st a) = usage_key a"
  by (simp_all add: usage_key_def flag_blocked_def split: option.split)

text \<open>What the map holds after folding a list of flows into it.\<close>

definition usage_of :: "ConnectionInfo list \<Rightarrow> string \<Rightarrow> AppUsage \<Rightarrow> bool" where
  "usage_of cs k a \<longleftrightarrow>
     (let own = filter (\<lambda>c. app_key c = k) cs in
      own \<noteq> [] \<and> usage_key a = k \<and>
      au_name a = au_name (new_usage (hd own)) \<and> au_exe a = c_exe (hd own) \<and>
      au_bytes_sent a = sum_list (map c_bytes_sent own) \<and>
      au_bytes_recv a = sum_list (map c_bytes_recv own) \<and>
      au_connections a = of_nat (length own))"

lemma add_usage_get:
  "map_of (add_usage c apps) k =
     (if k = app_key c
      then (let e = (case map_of apps k of Some e \<Rightarrow> e | None \<Rightarrow> new_usage c) in
        Some (e\<lparr>au_bytes_sent := au_bytes_sent e + c_bytes_sent c, au_bytes_recv := au_bytes_recv e + c_bytes_recv c,
          au_connections := au_connections e + 1\<rparr>))
      else map_of apps k)"
  by (auto simp: add_usage_def Let_def update_conv')

lemma add_usage_wf: "hm_wf m \<Longrightarrow> hm_wf (add_usage c m)"
  by (simp add: add_usage_def Let_def distinct_update)

lemma fold_add_usage:
  "hm_wf (fold add_usage cs []) \<and>
   (case map_of (fold add_usage cs []) k of
      None \<Rightarrow> filter (\<lambda>c. app_key c = k) cs = []
    | Some a \<Rightarrow> usage_of cs k a)"
proof (induction cs rule: rev_induct)
  case (snoc c cs)
  have wf: "hm_wf (fold add_usage (cs @ [c]) [])"
    using snoc add_usage_wf by auto
  show ?case
  proof (cases "k = app_key c")
    case True
    show ?thesis
    proof (cases "map_of (fold add_usage cs []) k")
      case None
      with snoc wf True show ?thesis
        by (simp add: add_usage_get Let_def usage_of_def) (simp add: new_usage_def)
    next
      case (Some a)
      with snoc have u: "usage_of cs k a" by simp
      then have "filter (\<lambda>c. app_key c = k) cs \<noteq> []" by (simp add: usage_of_def Let_def)
      with Some u wf True show ?thesis
        by (simp add: add_usage_get Let_def usage_of_def)
    qed
  next
    case False
    have m: "map_of (fold add_usage (cs @ [c]) []) k = map_of (fold add_usage cs []) k"
      using False by (simp add: add_usage_get)
    have f: "filter (\<lambda>c. app_key c = k) (cs @ [c]) = filter (\<lambda>c. app_key c = k) cs"
      using False by auto
    show ?thesis unfolding m usage_of_def f
      using snoc wf unfolding usage_of_def by (intro conjI conjunct2 [OF snoc]) auto
  qed
qed simp

section \<open>Properties\<close>

definition demo_ex :: externals where
  "demo_ex = \<lparr>ex_chrono = demo_chrono, ex_to_json = (\<lambda>_. Some ''{}''), ex_from_json = (\<lambda>_. None),
     ex_run = (\<lambda>_. Succeeded)\<rparr>"

definition demo_se :: step_env where
  "demo_se = \<lparr>se_now = 7, se_fs = all_ok, se_top_order = rev, se_version = ''0.1.0''\<rparr>"

definition demo_d :: Daemon where
  "demo_d = \<lparr>d_state = demo_daemon\<lparr>ds_rules := demo_store\<rparr>, d_kill = \<lparr>kw_available = Some True, kw_trace = []\<rparr>,
     d_toggles = []\<rparr>"

text \<open>The table of usages: one entry per application.\<close>

lemma usage_table:
  fixes flows :: "ConnectionInfo list"
  defines "m \<equiv> fold add_usage flows []"
  shows "hm_wf m" "(k, x) \<in> set m \<Longrightarrow> usage_of flows k x" "(k, x) \<in> set m \<Longrightarrow> usage_key x = k"
    "fst ` set m = app_key ` set flows"
proof -
  show wf: "hm_wf m" using fold_add_usage unfolding m_def by blast
  show u: "usage_of flows k x" if "(k, x) \<in> set m" for k x
    using fold_add_usage [of flows k] wf that unfolding m_def by simp
  then show "usage_key x = k" if "(k, x) \<in> set m" for k x
    using that by (fastforce simp: usage_of_def Let_def)
  have "k \<in> fst ` set m \<longleftrightarrow> k \<in> app_key ` set flows" for k
  proof -
    have "k \<in> fst ` set m \<longleftrightarrow> map_of m k \<noteq> None"
      by (metis domIff dom_map_of_conv_image_fst)
    also have "\<dots> \<longleftrightarrow> filter (\<lambda>c. app_key c = k) flows \<noteq> []"
      using fold_add_usage [of flows k] unfolding m_def by (auto simp: usage_of_def Let_def split: option.splits)
    also have "\<dots> \<longleftrightarrow> k \<in> app_key ` set flows" by (auto simp: filter_empty_conv)
    finally show ?thesis .
  qed
  then show "fst ` set m = app_key ` set flows" by blast
qed

lemma top_apps_mset:
  assumes "\<forall>m. mset (ord m) = mset m"
  shows "mset (top_apps ord now s) =
    mset (map (flag_blocked now (ds_rules s)) (map snd (fold add_usage (map snd (ds_connections s)) [])))"
proof -
  have "mset (ord m) = mset m" for m using assms by blast
  then show ?thesis by (simp add: top_apps_def Let_def del: map_map)
qed

text \<open>C32: The usage list has exactly one entry per application among the tracked flows; its
  counters are the sums over the application's flows and its count is their number; it is
  marked blocked exactly when its executable is; and the entries come in descending order of
  traffic, whatever order the hash maps are iterated in.\<close>

theorem top_apps_correct:
  assumes "\<forall>m. mset (ord m) = mset m"
  shows "(let apps = top_apps ord now s; flows = map snd (ds_connections s) in
    sorted_wrt (\<lambda>a b. usage_total b \<le> usage_total a) apps \<and>
    distinct (map usage_key apps) \<and>
    usage_key ` set apps = app_key ` set flows \<and>
    list_all (\<lambda>a. usage_of flows (usage_key a) a \<and>
      au_blocked a = (case au_exe a of None \<Rightarrow> False | Some exe \<Rightarrow> is_blocked now exe (ds_rules s))) apps)"
proof -
  let ?flows = "map snd (ds_connections s)"
  let ?m = "fold add_usage ?flows []"
  let ?flag = "flag_blocked now (ds_rules s)"
  let ?apps = "top_apps ord now s"
  note m = usage_table [where flows = ?flows] and a = top_apps_mset [OF assms, of now s]
  have keys: "map usage_key (map ?flag (map snd ?m)) = map fst ?m"
    using m(3) by (auto simp: comp_def)
  have "sorted (map (\<lambda>a. - int (unat (usage_total a))) ?apps)"
    by (simp add: top_apps_def Let_def)
  then have "sorted_wrt (\<lambda>a b. usage_total b \<le> usage_total a) ?apps"
    by (simp add: sorted_wrt_map word_le_def)
  moreover have "distinct (map usage_key ?apps)"
  proof -
    have "mset (map usage_key ?apps) = mset (map usage_key (map ?flag (map snd ?m)))"
      unfolding mset_map a ..
    then have "mset (map usage_key ?apps) = mset (map fst ?m)" unfolding keys .
    from mset_eq_imp_distinct_iff [OF this] m(1) show ?thesis by simp
  qed
  moreover have s: "set ?apps = ?flag ` snd ` set ?m"
    using mset_eq_setD [OF a] by (simp add: image_image)
  moreover have "usage_key ` set ?apps = app_key ` set ?flows"
    using arg_cong [OF keys, of set] m(4) unfolding s by (simp add: image_image)
  moreover have "usage_of ?flows (usage_key b) b \<and>
      au_blocked b = (case au_exe b of None \<Rightarrow> False | Some exe \<Rightarrow> is_blocked now exe (ds_rules s))"
    if "b \<in> set ?apps" for b
  proof -
    from that s obtain k x where x: "(k, x) \<in> set ?m" "b = ?flag x" by auto
    from m(2) [OF x(1)] m(3) [OF x(1)] x(2) show ?thesis
      by (simp add: usage_of_def Let_def) (simp add: flag_blocked_def)
  qed
  ultimately show ?thesis by (simp add: Let_def list_all_iff)
qed

theorem top_apps_correct_witness:
  "\<exists>a. top_apps rev 7 (d_state demo_d) \<noteq> [] \<and> a \<in> set (top_apps rev 7 (d_state demo_d)) \<and>
     usage_key a = ''/bin/b'' \<and> au_bytes_sent a = 1 \<and> au_connections a = 1 \<and> au_blocked a"
proof -
  let ?apps = "top_apps rev 7 (d_state demo_d)"
  let ?flows = "map snd (ds_connections (d_state demo_d))"
  have t: "usage_key ` set ?apps = app_key ` set ?flows"
    "list_all (\<lambda>a. usage_of ?flows (usage_key a) a \<and>
      au_blocked a = (case au_exe a of None \<Rightarrow> False | Some exe \<Rightarrow> is_blocked 7 exe (ds_rules (d_state demo_d)))) ?apps"
    using top_apps_correct [of rev 7 "d_state demo_d"] by (simp_all add: Let_def)
  have f: "?flows = [demo_conn ''a'' Tcp 1 (Some ''/bin/a''), demo_conn ''b'' Udp 2 (Some ''/bin/b''),
      demo_conn ''c'' Udp 3 (Some ''/bin//a''), demo_conn ''d'' Tcp 4 None]"
    by (simp add: demo_d_def demo_daemon_def)
  have k: "app_key (demo_conn key p port (Some e)) = e" "app_key (demo_conn key p port None) = ''unknown''" for key p port e
    by (simp_all add: app_key_def demo_conn_def display_def)
  have "''/bin/b'' \<in> usage_key ` set ?apps" unfolding t(1) f by (simp add: k)
  then obtain a where a: "a \<in> set ?apps" "usage_key a = ''/bin/b''" by force
  with t(2) have u: "usage_of ?flows ''/bin/b'' a"
    "au_blocked a = (case au_exe a of None \<Rightarrow> False | Some exe \<Rightarrow> is_blocked 7 exe (ds_rules (d_state demo_d)))"
    by (auto simp: list_all_iff)
  have "filter (\<lambda>c. app_key c = ''/bin/b'') ?flows = [demo_conn ''b'' Udp 2 (Some ''/bin/b'')]"
    unfolding f by (simp add: k)
  with u(1) have "au_exe a = Some ''/bin/b''" "au_bytes_sent a = 1" "au_connections a = 1"
    by (simp_all add: usage_of_def Let_def demo_conn_def)
  moreover have "is_blocked 7 ''/bin/b'' (ds_rules (d_state demo_d))"
    by (simp add: demo_d_def demo_daemon_def is_blocked_def demo_store_def demo_rule_def is_expired_def)
  ultimately show ?thesis using a u(2) by auto
qed

text \<open>C33: Adding a rule over the socket: the request succeeds when the rule has no lifetime or one
  that \<open>chrono\<close> can represent (its seconds read as a signed 64-bit number, at most 9223372036854775 in
  size), and otherwise its handler panics.  When it succeeds, the rule stored has the fields of the
  input, the next id and the expiry its lifetime gives; it is in the index under its executable and
  action and nothing else is changed there, one event announces it, the store is written, a block at once
  runs the kill commands of every tracked flow of the executable, and the rest of the daemon is
  untouched.  The 64-bit id counter is assumed not to have reached its end.\<close>

theorem add_rule_request:
  assumes "chrono_ok (ex_chrono ex)"
    and "store_wf (ds_rules (d_state d))" and "in_next_id (ds_rules (d_state d)) \<noteq> - 1"
  shows "if (case i_ttl_secs input of None \<Rightarrow> False | Some ttl \<Rightarrow> \<bar>sint ttl\<bar> > 9223372036854775)
    then dispatch ex env (AddRule input) d = None
    else (\<exists>rule d'. dispatch ex env (AddRule input) d = Some (ROk, d') \<and>
      rule = \<lparr>r_id = in_next_id (ds_rules (d_state d)), r_name = i_name input, r_exe_path = i_exe_path input,
        r_action = i_action input, r_persistent = i_persistent input,
        r_expires_at = (case i_ttl_secs input of None \<Rightarrow> None
          | Some ttl \<Rightarrow> checked_add_signed (ex_chrono ex) (se_now env) (sint ttl * 1000000000)),
        r_profile = ''default'', r_updated_at = se_now env\<rparr> \<and>
      rule_index (ds_rules (d_state d')) = (rule_index (ds_rules (d_state d)))((components (i_exe_path input), i_action input) \<mapsto> rule) \<and>
      store_wf (ds_rules (d_state d')) \<and>
      d_state d' = (d_state d)\<lparr>ds_rules := ds_rules (d_state d'), ds_events := ds_events (d_state d) @ [RuleAdded rule],
        ds_disk := save_locked (ex_to_json ex) (se_fs env) (ds_rules (d_state d')) (ds_disk (d_state d))\<rparr> \<and>
      d_toggles d' = d_toggles d \<and>
      kw_trace (d_kill d') = kw_trace (d_kill d) @
        (let victims = matching_flows (ds_connections (d_state d)) (i_exe_path input) in
         if i_action input = Block
         then probe (d_kill d) victims @ concat (map (flow_commands (available_now (ex_run ex) (d_kill d))) victims) else []))"
proof (cases "case i_ttl_secs input of None \<Rightarrow> False | Some ttl \<Rightarrow> \<bar>sint ttl\<bar> > 9223372036854775")
  case True
  then have "expiry (ex_chrono ex) (se_now env) (i_ttl_secs input) = None"
    using expiry_ok(2) [OF assms(1)] by (cases "i_ttl_secs input") auto
  with True show ?thesis by (auto simp: add_def add_locked_def Let_def split: option.splits)
next
  case False
  let ?s = "d_state d"
  have e: "expiry (ex_chrono ex) (se_now env) (i_ttl_secs input) = Some (case i_ttl_secs input of None \<Rightarrow> None
      | Some ttl \<Rightarrow> checked_add_signed (ex_chrono ex) (se_now env) (sint ttl * 1000000000))"
    using False expiry_ok(1) [OF assms(1)] by (cases "i_ttl_secs input") (auto simp: expiry_def)
  then obtain rule rules where l: "add_locked (ex_chrono ex) (se_now env) input (ds_rules ?s) = Some (rule, rules)"
    by (auto simp: add_locked_def Let_def)
  let ?dk = "save_locked (ex_to_json ex) (se_fs env) rules (ds_disk ?s)"
  let ?s' = "publish (RuleAdded rule) (?s\<lparr>ds_rules := rules, ds_disk := ?dk\<rparr>)"
  let ?w = "if i_action input = Block
       then snd (kill_flows_for_exe (ex_run ex) ?s' (i_exe_path input) (d_kill d)) else d_kill d"
  have r: "rule = \<lparr>r_id = in_next_id (ds_rules (d_state d)), r_name = i_name input, r_exe_path = i_exe_path input,
        r_action = i_action input, r_persistent = i_persistent input,
        r_expires_at = (case i_ttl_secs input of None \<Rightarrow> None
          | Some ttl \<Rightarrow> checked_add_signed (ex_chrono ex) (se_now env) (sint ttl * 1000000000)),
        r_profile = ''default'', r_updated_at = se_now env\<rparr>"
    using l e by (auto simp: add_locked_Some)
  have d: "dispatch ex env (AddRule input) d = Some (ROk, d\<lparr>d_state := ?s', d_kill := ?w\<rparr>)"
    using l r by (simp add: add_def Let_def)
  have k: "key_of rule = (components (i_exe_path input), i_action input)" by (simp add: r)
  have kill: "kw_trace (snd (kill_flows_for_exe run s exe w)) =
      kw_trace w @ probe w (matching_flows (ds_connections s) exe) @
      concat (map (flow_commands (available_now run w)) (matching_flows (ds_connections s) exe))" for run s exe w
    using kill_flows_trace [of run "matching_flows (ds_connections s) exe" 0 w]
    by (simp add: kill_flows_for_exe_def probe_def Let_def del: kill_flows.simps)
  show ?thesis
    unfolding if_not_P [OF False]
    using d r add_locked_wf [OF l assms(2,3)] add_locked_index [OF l assms(2), unfolded k] kill
    by (intro exI [of _ rule] exI [of _ "d\<lparr>d_state := ?s', d_kill := ?w\<rparr>"] conjI) (simp_all add: publish_def Let_def)
qed

theorem add_rule_request_witness:
  "\<exists>d'. dispatch demo_ex demo_se (AddRule (demo_input ''/bin/a'' Block (Some 60))) demo_d = Some (ROk, d') \<and>
     length (kw_trace (d_kill d')) = 3"
proof -
  let ?i = "demo_input ''/bin/a'' Block (Some 60)"
  have s: "ds_rules (d_state demo_d) = demo_store" "ds_connections (d_state demo_d) = ds_connections demo_daemon"
    "kw_trace (d_kill demo_d) = []" "available_now (ex_run demo_ex) (d_kill demo_d) = True" "kw_available (d_kill demo_d) = Some True"
    by (simp_all add: demo_d_def available_now_def)
  have w: "store_wf (ds_rules (d_state demo_d))" "in_next_id (ds_rules (d_state demo_d)) \<noteq> - 1"
    unfolding s by simp (simp add: demo_store_def)
  have c: "chrono_ok (ex_chrono demo_ex)" by (simp add: demo_ex_def demo_chrono_ok)
  from add_rule_request [OF c w, of ?i demo_se] show ?thesis
    unfolding s by (auto simp: demo_input_def demo_matching probe_def s flow_commands_def demo_conn_def Let_def
      simp del: dispatch.simps)
qed

text \<open>No request but one can crash its handler: a request panics only when it adds a rule
  whose lifetime \<open>chrono\<close> cannot represent, and queries change nothing at all.\<close>

theorem dispatch_total:
  "(dispatch ex env req d = None \<longleftrightarrow>
      (\<exists>input. req = AddRule input \<and> expiry (ex_chrono ex) (se_now env) (i_ttl_secs input) = None)) \<and>
   (case req of AddRule _ \<Rightarrow> True | RemoveRule _ \<Rightarrow> True | SetPaused _ \<Rightarrow> True
    | _ \<Rightarrow> \<exists>resp. dispatch ex env req d = Some (resp, d))"
proof (cases req)
  case (AddRule input)
  then show ?thesis
    using add_locked_panic_iff [of "ex_chrono ex" "se_now env" input "ds_rules (d_state d)"]
    by (auto simp: Let_def add_def split: option.splits)
qed (auto simp: Let_def split: option.splits prod.splits)

text \<open>The reaper announces every rule it drops, once and in order, and nothing else; what it
  leaves is the store without the expired rules.\<close>

theorem reaper_announces:
  "ds_events (d_state (reaper_tick ex fo now d)) = ds_events (d_state d) @
     map RuleRemoved (map r_id (filter (\<lambda>r. is_expired r now) (in_rules (ds_rules (d_state d))))) \<and>
   in_rules (ds_rules (d_state (reaper_tick ex fo now d))) =
     filter (\<lambda>r. \<not> is_expired r now) (in_rules (ds_rules (d_state d))) \<and>
   ds_connections (d_state (reaper_tick ex fo now d)) = ds_connections (d_state d)"
proof -
  have p: "ds_events (fold (\<lambda>i. publish (RuleRemoved i)) ids s) = ds_events s @ map RuleRemoved ids \<and>
      ds_rules (fold (\<lambda>i. publish (RuleRemoved i)) ids s) = ds_rules s \<and>
      ds_connections (fold (\<lambda>i. publish (RuleRemoved i)) ids s) = ds_connections s" for ids s
    by (induction ids arbitrary: s) (simp_all add: frame_simps)
  show ?thesis
    by (simp add: reaper_tick_def reap_expired_def reap_locked_def Let_def p)
qed

end
