(* ===== verification/System.thy ===== *)
theory System
  imports Dispatch
begin

text \<open>
  The daemon as a whole: requests, polls (the first one among them), scans, verdicts, the reaper, the
  network refresh, the queue worker's start and end, and the spawned toggle tasks, interleaved.  Each handler runs under the locks of the state it touches and is one
  step.  The tasks that \<open>SetPaused\<close> spawns run later; \<open>tokio::spawn\<close> does not order them, so
  any pending one may be next, and with \<open>fifo\<close> only the oldest.
\<close>

section \<open>Definitions\<close>

record 'k System =
  sy_daemon :: Daemon
  sy_users :: UserCache
  sy_kernel :: 'k

definition update_state :: "(DaemonState \<Rightarrow> DaemonState) \<Rightarrow> 'k System \<Rightarrow> 'k System" where
  "update_state f s = s\<lparr>sy_daemon := (sy_daemon s)\<lparr>d_state := f (d_state (sy_daemon s))\<rparr>\<rparr>"

definition remove_nth :: "nat \<Rightarrow> 'a list \<Rightarrow> 'a list" where
  "remove_nth i xs = take i xs @ drop (Suc i) xs"

text \<open>One poll of the process scanner on the shared state.\<close>

definition scan_processes :: "scan_input \<Rightarrow> 'k System \<Rightarrow> 'k System" where
  "scan_processes i s =
     (case scan_once i (ds_processes (d_state (sy_daemon s)), sy_users s) of
        (events, procs, users) \<Rightarrow>
          (update_state (\<lambda>st. fold publish events (st\<lparr>ds_processes := procs\<rparr>)) s)\<lparr>sy_users := users\<rparr>)"

definition toggle :: "'k nft_exec \<Rightarrow> nat \<Rightarrow> 'k System \<Rightarrow> 'k System" where
  "toggle exec i s =
     (let d = sy_daemon s in
      s\<lparr>sy_daemon := d\<lparr>d_toggles := remove_nth i (d_toggles d)\<rparr>,
        sy_kernel := run_toggle exec (d_toggles d ! i) d (sy_kernel s)\<rparr>)"

inductive sys_step :: "externals \<Rightarrow> 'k nft_exec \<Rightarrow> bool \<Rightarrow> 'k System \<Rightarrow> 'k System \<Rightarrow> bool"
  for ex exec fifo where
  request: "dispatch ex env req (sy_daemon s) = Some (resp, d') \<Longrightarrow>
     \<forall>input. req = AddRule input \<longrightarrow> in_next_id (ds_rules (d_state (sy_daemon s))) \<noteq> - 1 \<Longrightarrow>
     sys_step ex exec fifo s (s\<lparr>sy_daemon := d'\<rparr>)"
| toggle: "i < length (d_toggles (sy_daemon s)) \<Longrightarrow> fifo \<longrightarrow> i = 0 \<Longrightarrow>
     sys_step ex exec fifo s (toggle exec i s)"
| reap: "sys_step ex exec fifo s (s\<lparr>sy_daemon := reaper_tick ex fo now (sy_daemon s)\<rparr>)"
| poll: "poll_ok i \<Longrightarrow> sys_step ex exec fifo s (update_state (poll_once i) s)"
| scan: "orders_ok i \<Longrightarrow> sys_step ex exec fifo s (scan_processes i s)"
| packet: "decide env now instant payload (d_state (sy_daemon s)) = Some (v, act, st') \<Longrightarrow>
     sys_step ex exec fifo s (update_state (\<lambda>_. st') s)"
| network: "sys_step ex exec fifo s (s\<lparr>sy_daemon := refresh_network snapshot (sy_daemon s)\<rparr>)"
| start: "poll_ok i \<Longrightarrow> sys_step ex exec fifo s (s\<lparr>sy_daemon := first_poll ex penv i (sy_daemon s)\<rparr>)"
| worker: "sys_step ex exec fifo s (update_state (\<lambda>st. st\<lparr>ds_filtering_active := b\<rparr>) s)"

inductive_cases sys_stepE: "sys_step ex exec fifo s s'"

definition reaches :: "externals \<Rightarrow> 'k nft_exec \<Rightarrow> bool \<Rightarrow> 'k System \<Rightarrow> 'k System \<Rightarrow> bool" where
  "reaches ex exec fifo = (sys_step ex exec fifo)\<^sup>*\<^sup>*"

section \<open>Specification\<close>

text \<open>The invariant of the shared state: the rule store has one rule per executable and action
  with ids below the counter, every connection is stored under its own key and every
  process under its own pid, and the caches have distinct keys.\<close>

definition state_wf :: "DaemonState \<Rightarrow> bool" where
  "state_wf st \<longleftrightarrow> store_wf (ds_rules st) \<and> conns_wf (ds_connections st) \<and>
     processes_wf (ds_processes st) \<and> attrib_wf (ds_attrib st)"

text \<open>The pause flag and the kernel: with nothing pending they agree, and otherwise the
  youngest pending task is the one that will make them agree.\<close>

definition pause_inv :: "('k \<Rightarrow> nat option) \<Rightarrow> 'k System \<Rightarrow> bool" where
  "pause_inv queues s \<longleftrightarrow>
     (let d = sy_daemon s; paused = ds_paused (d_state d) in
      ds_firewall (d_state d) \<noteq> None \<and>
      (\<exists>n. queues (sy_kernel s) = Some n \<and>
         (if d_toggles d = [] then 0 < n \<longleftrightarrow> \<not> paused else last (d_toggles d) = paused)))"

text \<open>Both toggles succeed while the chain is there.\<close>

definition toggles_work :: "'k nft_exec \<Rightarrow> ('k \<Rightarrow> nat option) \<Rightarrow> bool" where
  "toggles_work exec queues \<longleftrightarrow> (\<forall>k. queues k \<noteq> None \<longrightarrow>
     fst (exec flush_chain k) \<and> (\<forall>q. fst (exec (add_queue_rule q) k)))"

section \<open>Lemmas\<close>

subsection \<open>The state\<close>

lemma fold_publish_frame [frame_simps]:
  "ds_rules (fold publish es st) = ds_rules st" "ds_connections (fold publish es st) = ds_connections st"
  "ds_processes (fold publish es st) = ds_processes st" "ds_attrib (fold publish es st) = ds_attrib st"
  "ds_paused (fold publish es st) = ds_paused st" "ds_firewall (fold publish es st) = ds_firewall st"
  by (induction es arbitrary: st) (simp_all add: publish_def)

lemma publish_all: "fold (\<lambda>i. publish (RuleRemoved i)) is st = fold publish (map RuleRemoved is) st"
  by (induction "is" arbitrary: st) simp_all

lemma attribute_wf:
  "attrib_wf (ds_attrib st) \<Longrightarrow> attrib_wf (ds_attrib (snd (attribute env proto port st)))"
  by (simp add: attribute_state lookup_wf)

lemma visit_flow_keeps:
  "ds_rules (visit_flow now env kf st) = ds_rules st \<and> ds_processes (visit_flow now env kf st) = ds_processes st \<and>
   ds_paused (visit_flow now env kf st) = ds_paused st \<and> ds_firewall (visit_flow now env kf st) = ds_firewall st \<and>
   (attrib_wf (ds_attrib st) \<longrightarrow> attrib_wf (ds_attrib (visit_flow now env kf st)))"
proof -
  obtain key k p a lp r rp sent recv where kf: "kf = (key, k, p, a, lp, r, rp, sent, recv)" by (cases kf) auto
  obtain att st1 where at: "attribute (env key) p lp st = (att, st1)" by (cases "attribute (env key) p lp st")
  then have "st1 = st\<lparr>ds_attrib := snd (lookup (oe_proc (env key)) p lp (ds_attrib st))\<rparr>"
    using attribute_state [of "env key" p lp st] by simp
  with at lookup_wf [of "ds_attrib st" "oe_proc (env key)" p lp] show ?thesis
    by (cases att) (auto simp: kf publish_def Let_def split: option.split)
qed

lemma close_flow_keeps:
  "ds_rules (close_flow k st) = ds_rules st \<and> ds_processes (close_flow k st) = ds_processes st \<and>
   ds_paused (close_flow k st) = ds_paused st \<and> ds_firewall (close_flow k st) = ds_firewall st \<and>
   ds_attrib (close_flow k st) = ds_attrib st"
  by (simp add: close_flow_def publish_def)

lemma fold_visit_keeps:
  "ds_rules (fold (visit_flow now env) kfs st) = ds_rules st \<and>
   ds_processes (fold (visit_flow now env) kfs st) = ds_processes st \<and>
   ds_paused (fold (visit_flow now env) kfs st) = ds_paused st \<and>
   ds_firewall (fold (visit_flow now env) kfs st) = ds_firewall st \<and>
   (attrib_wf (ds_attrib st) \<longrightarrow> attrib_wf (ds_attrib (fold (visit_flow now env) kfs st)))"
  by (induction kfs arbitrary: st) (simp_all add: visit_flow_keeps)

lemma fold_close_keeps:
  "ds_rules (fold close_flow ks st) = ds_rules st \<and> ds_processes (fold close_flow ks st) = ds_processes st \<and>
   ds_paused (fold close_flow ks st) = ds_paused st \<and> ds_firewall (fold close_flow ks st) = ds_firewall st \<and>
   ds_attrib (fold close_flow ks st) = ds_attrib st"
  by (induction ks arbitrary: st) (simp_all add: close_flow_keeps)

lemma poll_once_keeps:
  "ds_rules (poll_once i st) = ds_rules st \<and> ds_processes (poll_once i st) = ds_processes st \<and>
   ds_paused (poll_once i st) = ds_paused st \<and> ds_firewall (poll_once i st) = ds_firewall st \<and>
   (attrib_wf (ds_attrib st) \<longrightarrow> attrib_wf (ds_attrib (poll_once i st)))"
  by (simp add: poll_once_def Let_def fold_visit_keeps fold_close_keeps split: option.split)

lemma poll_once_wf: "state_wf st \<Longrightarrow> state_wf (poll_once i st)"
  using poll_once_keeps [of i st] poll_once_follows [of st i] by (simp add: state_wf_def)

lemma state_wf_refresh: "state_wf st \<Longrightarrow> state_wf (st\<lparr>ds_attrib := refresh env (ds_attrib st)\<rparr>)"
  by (simp add: state_wf_def attrib_wf_def refresh_def scan_wf)

lemma decide_keeps:
  assumes "decide env now instant payload st = Some (v, act, st')"
  shows "ds_firewall st' = ds_firewall st \<and>
    (ds_attrib st' = ds_attrib st \<or>
     (\<exists>proto port. ds_attrib st' = snd (lookup (oe_proc env) proto port (ds_attrib st))))"
proof (cases "ds_paused st")
  case True
  with assms show ?thesis by (simp add: decide_def is_paused_def)
next
  case False
  obtain r where r: "parse_packet payload = Some r" using parse_packet_returns by blast
  show ?thesis
  proof (cases r)
    case None
    with assms False r show ?thesis by (simp add: decide_def is_paused_def)
  next
    case (Some x)
    obtain proto lport raddr rport where x: "x = (proto, lport, raddr, rport)" by (cases x) auto
    let ?at = "snd (lookup (oe_proc env) proto lport (ds_attrib st))"
    obtain pid name exe where "attribute env proto lport st = ((pid, name, exe), st\<lparr>ds_attrib := ?at\<rparr>)"
      using attribute_state [of env proto lport st] by (cases "attribute env proto lport st") auto
    with assms False r Some x have "ds_firewall st' = ds_firewall st \<and> ds_attrib st' = ?at"
      by (auto simp: decide_def is_paused_def Let_def split: option.splits if_splits prod.splits)
    then show ?thesis by blast
  qed
qed

lemma decide_wf:
  "decide env now instant payload st = Some (v, act, st') \<Longrightarrow> state_wf st \<Longrightarrow> state_wf st'"
  using decide_frame [of env now instant payload st v act st'] decide_keeps [of env now instant payload st v act st']
  by (auto simp: state_wf_def lookup_wf)

lemma add_wf:
  "add ch to_json fo now input (r, dk) = Some (rule, r', dk') \<Longrightarrow> store_wf r \<Longrightarrow> in_next_id r \<noteq> - 1 \<Longrightarrow> store_wf r'"
  by (auto simp: add_def intro: add_locked_wf split: option.splits)

lemma remove_wf: "remove to_json fo i (r, dk) = (res, r', dk') \<Longrightarrow> store_wf r \<Longrightarrow> store_wf r'"
  using remove_locked_wf [of r i]
  by (auto simp: remove_def split: prod.splits option.splits)

lemma dispatch_wf:
  assumes "dispatch ex env req d = Some (resp, d')" "state_wf (d_state d)"
    and "\<forall>input. req = AddRule input \<longrightarrow> in_next_id (ds_rules (d_state d)) \<noteq> - 1"
  shows "state_wf (d_state d')"
  using assms
  by (cases req) (auto simp: Let_def state_wf_def publish_def intro: add_wf remove_wf split: option.splits prod.splits)

lemma reaper_wf: "state_wf (d_state d) \<Longrightarrow> state_wf (d_state (reaper_tick ex fo now d))"
  using reap_locked_wf [of "ds_rules (d_state d)" now]
  by (cases "reap_locked now (ds_rules (d_state d))")
    (simp add: reaper_tick_def reap_expired_def Let_def state_wf_def publish_all frame_simps)

lemma scan_processes_wf:
  assumes "state_wf (d_state (sy_daemon s))" "orders_ok i"
  shows "state_wf (d_state (sy_daemon (scan_processes i s)))"
proof -
  obtain es procs users where e: "scan_once i (ds_processes (d_state (sy_daemon s)), sy_users s) = (es, procs, users)"
    by (cases "scan_once i (ds_processes (d_state (sy_daemon s)), sy_users s)") auto
  have "processes_wf procs"
    using scan_daemon_wf [of "(ds_processes (d_state (sy_daemon s)), sy_users s)" i] assms(1) e
    by (simp add: scan_daemon_def state_wf_def)
  with assms(1) show ?thesis
    by (simp add: scan_processes_def e update_state_def state_wf_def frame_simps)
qed

lemma sys_step_wf:
  "sys_step ex exec fifo s s' \<Longrightarrow> state_wf (d_state (sy_daemon s)) \<Longrightarrow> state_wf (d_state (sy_daemon s'))"
proof (induction rule: sys_step.induct)
  case (request env req s resp d')
  then show ?case using dispatch_wf by simp
next
  case (reap s fo now)
  then show ?case by (simp add: reaper_wf)
next
  case (poll i s)
  then show ?case by (simp add: update_state_def poll_once_wf)
next
  case (scan i s)
  then show ?case by (simp add: scan_processes_wf)
next
  case (packet env now instant payload s v act st')
  then show ?case using decide_wf by (simp add: update_state_def)
next
  case (network s snapshot)
  then show ?case by (simp add: refresh_network_def state_wf_def)
next
  case (start i s penv)
  then show ?case by (simp add: first_poll_def Let_def poll_once_wf state_wf_refresh)
next
  case (worker s b)
  then show ?case by (simp add: update_state_def state_wf_def)
qed (simp_all add: toggle_def Let_def)

subsection \<open>The pause flag\<close>

text \<open>What the two commands make of the rules that are there, when they succeed.\<close>

definition counts_rules :: "'k nft_exec \<Rightarrow> ('k \<Rightarrow> nat option) \<Rightarrow> bool" where
  "counts_rules exec queues \<longleftrightarrow> (\<forall>k n.
     (fst (exec flush_chain k) \<longrightarrow> queues k = Some n \<longrightarrow> queues (snd (exec flush_chain k)) = Some 0) \<and>
     (\<forall>q. fst (exec (add_queue_rule q) k) \<longrightarrow> queues k = Some n \<longrightarrow> queues (snd (exec (add_queue_rule q) k)) = Some (n + 1)))"

lemma nft_counts_rules: "nft_ok exec view \<Longrightarrow> counts_rules exec (\<lambda>k. queued (view k))"
  using queued_toggles by (auto simp: counts_rules_def)

lemma run_toggle_queues:
  assumes "counts_rules exec queues" "queues k = Some n" "ds_firewall (d_state d) = Some fw"
    and "fst (if paused then fw_pause exec fw k else fw_resume exec fw k)"
  shows "queues (run_toggle exec paused d k) = Some (if paused then 0 else n + 1)"
  using assms by (cases paused) (auto simp: run_toggle_def fw_pause_def fw_resume_def counts_rules_def)

lemma dispatch_pause:
  assumes "dispatch ex env req d = Some (resp, d')"
  shows "ds_firewall (d_state d') = ds_firewall (d_state d) \<and>
    (case req of
       SetPaused p \<Rightarrow> ds_paused (d_state d') = p \<and> d_toggles d' = d_toggles d @ [p]
     | _ \<Rightarrow> ds_paused (d_state d') = ds_paused (d_state d) \<and> d_toggles d' = d_toggles d)"
  using assms
  by (cases req) (auto simp: Let_def publish_def split: option.splits prod.splits)

lemma toggle_kernel:
  "sy_kernel (toggle exec i s) = run_toggle exec (d_toggles (sy_daemon s) ! i) (sy_daemon s) (sy_kernel s)"
  by (simp add: toggle_def Let_def)

lemma pause_inv_frame:
  assumes "pause_inv queues s" "d_toggles (sy_daemon s') = d_toggles (sy_daemon s)" "sy_kernel s' = sy_kernel s"
    and "ds_paused (d_state (sy_daemon s')) = ds_paused (d_state (sy_daemon s))"
    and "ds_firewall (d_state (sy_daemon s')) = ds_firewall (d_state (sy_daemon s))"
  shows "pause_inv queues s'"
  using assms(1) unfolding pause_inv_def Let_def assms(2-5) .

lemma sys_step_pause_inv:
  assumes "sys_step ex exec True s s'" "counts_rules exec queues" "toggles_work exec queues" "pause_inv queues s"
  shows "pause_inv queues s'"
  using assms(1,4)
proof (induction rule: sys_step.induct)
  case (request env req s resp d')
  note p = dispatch_pause [OF request(1)]
  show ?case
  proof (cases "\<exists>b. req = SetPaused b")
    case True
    with p request(3) show ?thesis by (auto simp: pause_inv_def Let_def)
  next
    case False
    with p have "ds_paused (d_state d') = ds_paused (d_state (sy_daemon s)) \<and> d_toggles d' = d_toggles (sy_daemon s)"
      by (cases req) auto
    with p request(3) show ?thesis by (intro pause_inv_frame [OF request(3)]) auto
  qed
next
  case (toggle i s)
  let ?d = "sy_daemon s"
  obtain t ts where ts: "d_toggles ?d = t # ts" "i = 0" using toggle by (cases "d_toggles ?d") auto
  obtain n fw where n: "queues (sy_kernel s) = Some n" "ds_firewall (d_state ?d) = Some fw"
    using toggle(3) by (auto simp: pause_inv_def Let_def)
  have "fst (if t then fw_pause exec fw (sy_kernel s) else fw_resume exec fw (sy_kernel s))"
    using assms(3) n(1) by (simp add: toggles_work_def fw_pause_def fw_resume_def)
  from run_toggle_queues [OF assms(2) n this] toggle(3) n(2) show ?case
    by (auto simp: pause_inv_def toggle_def remove_nth_def ts Let_def)
next
  case (reap s fo now)
  then show ?case
    by (intro pause_inv_frame [OF reap])
      (simp_all add: reaper_tick_def Let_def publish_all frame_simps split: prod.split)
next
  case (poll i s)
  show ?case using poll_once_keeps [of i "d_state (sy_daemon s)"]
    by (intro pause_inv_frame [OF poll(2)]) (simp_all add: update_state_def)
next
  case (scan i s)
  show ?case
    by (intro pause_inv_frame [OF scan(2)])
      (simp_all add: scan_processes_def update_state_def frame_simps split: prod.split)
next
  case (packet env now instant payload s v act st')
  from decide_keeps [OF packet(1)] decide_frame [OF packet(1)] show ?case
    by (intro pause_inv_frame [OF packet(2)]) (simp_all add: update_state_def)
next
  case (network s snapshot)
  then show ?case by (intro pause_inv_frame [OF network]) (simp_all add: refresh_network_def)
next
  case (start i s penv)
  show ?case using poll_once_keeps [of i "(d_state (sy_daemon s))\<lparr>ds_attrib := refresh penv (ds_attrib (d_state (sy_daemon s)))\<rparr>"]
    by (intro pause_inv_frame [OF start(2)]) (simp_all add: first_poll_def Let_def)
next
  case (worker s b)
  show ?case by (intro pause_inv_frame [OF worker]) (simp_all add: update_state_def)
qed

lemma reaches_induct:
  "reaches ex exec fifo s s' \<Longrightarrow> P s \<Longrightarrow> (\<And>x y. sys_step ex exec fifo x y \<Longrightarrow> P x \<Longrightarrow> P y) \<Longrightarrow> P s'"
  unfolding reaches_def by (induction rule: rtranclp_induct) auto

section \<open>Properties\<close>

definition demo_system :: "ruleset System" where
  "demo_system = \<lparr>sy_daemon = demo_d\<lparr>d_state := (d_state demo_d)\<lparr>ds_firewall := Some \<lparr>fw_queue_num = 0\<rparr>\<rparr>\<rparr>,
     sy_users = user_cache_new, sy_kernel = [(''inet'', ''travelmode'') \<mapsto> our_table [queue_rule 0]]\<rparr>"

text \<open>C6: Whatever requests, polls, scans, verdicts and background tasks are interleaved, the
  shared state stays well formed: one rule per executable and action with distinct ids below
  the counter (as long as the 64-bit counter has not run out), every connection under its
  own key, every process under its own pid, and caches with distinct keys.\<close>

theorem system_invariant:
  assumes "reaches ex exec fifo s s'" and "state_wf (d_state (sy_daemon s))"
  shows "state_wf (d_state (sy_daemon s'))"
  using assms by (rule reaches_induct) (rule sys_step_wf)

theorem system_invariant_witness:
  "state_wf (d_state (sy_daemon (update_state (poll_once demo_poll) demo_system)))"
proof (rule system_invariant)
  show "reaches demo_ex demo_nft True demo_system (update_state (poll_once demo_poll) demo_system)"
    unfolding reaches_def by (rule r_into_rtranclp) (rule sys_step.poll [OF demo_poll_ok])
  show "state_wf (d_state (sy_daemon demo_system))"
    by (simp add: demo_system_def demo_d_def demo_daemon_def state_wf_def daemon_new_def attributor_new_def
        attrib_wf_def conns_wf_def demo_conn_def processes_wf_def)
qed

text \<open>If the spawned toggle tasks run in the order they were spawned and \<open>nft\<close> carries them out, then whenever none
  is pending the kernel agrees with the pause flag: packets are queued exactly when
  filtering is not paused.\<close>

theorem pause_agrees_fifo:
  assumes "nft_ok exec view" and "toggles_work exec (\<lambda>k. queued (view k))" and "reaches ex exec True s s'"
    and "pause_inv (\<lambda>k. queued (view k)) s" and "d_toggles (sy_daemon s') = []"
  shows "\<exists>n. queued (view (sy_kernel s')) = Some n \<and> (0 < n \<longleftrightarrow> \<not> ds_paused (d_state (sy_daemon s')))"
proof -
  have "pause_inv (\<lambda>k. queued (view k)) s'"
    using assms(3,4) by (rule reaches_induct) (rule sys_step_pause_inv [OF _ nft_counts_rules [OF assms(1)] assms(2)])
  with assms(5) show ?thesis by (auto simp: pause_inv_def Let_def)
qed

lemma demo_system_pause: "pause_inv queued demo_system"
  by (simp add: demo_system_def demo_d_def demo_daemon_def pause_inv_def daemon_new_def queued_def our_table_def Let_def)

lemma demo_toggles_work: "toggles_work demo_nft queued"
  unfolding toggles_work_def
proof (intro allI impI conjI)
  fix R :: ruleset and q
  assume "queued R \<noteq> None"
  then obtain T ch where "R (''inet'', ''travelmode'') = Some T" "T ''output'' = Some ch" by (auto simp: queued_def bind_eq_Some_conv)
  then show "fst (demo_nft flush_chain R)" "fst (demo_nft (add_queue_rule q) R)"
    by (simp_all add: demo_nft_chain)
qed

theorem pause_agrees_fifo_witness:
  "\<exists>s'. reaches demo_ex demo_nft True demo_system s' \<and> d_toggles (sy_daemon s') = [] \<and>
     ds_paused (d_state (sy_daemon s')) \<and> queued (sy_kernel s') = Some 0"
proof -
  obtain d where d: "dispatch demo_ex demo_se (SetPaused True) (sy_daemon demo_system) = Some (ROk, d)"
    by simp
  let ?s1 = "demo_system\<lparr>sy_daemon := d\<rparr>"
  have t: "d_toggles d = [True]" "ds_paused (d_state d)"
    using d by (auto simp: demo_system_def demo_d_def publish_def)
  have 1: "sys_step demo_ex demo_nft True demo_system ?s1"
    by (rule sys_step.request [OF d]) simp
  have 2: "sys_step demo_ex demo_nft True ?s1 (toggle demo_nft 0 ?s1)"
    by (rule sys_step.toggle) (simp_all add: t)
  have r: "reaches demo_ex demo_nft True demo_system (toggle demo_nft 0 ?s1)"
    unfolding reaches_def using 1 2 by (meson converse_rtranclp_into_rtranclp r_into_rtranclp)
  have e: "d_toggles (sy_daemon (toggle demo_nft 0 ?s1)) = []" "ds_paused (d_state (sy_daemon (toggle demo_nft 0 ?s1)))"
    by (simp_all add: toggle_def Let_def t remove_nth_def)
  with pause_agrees_fifo [of demo_nft "\<lambda>R. R", OF demo_nft_ok demo_toggles_work r demo_system_pause e(1)] r show ?thesis by auto
qed

text \<open>C30: The order of the tasks is not guaranteed, and without it the flag and the kernel can
  disagree for good: from a daemon that filters, pausing and then resuming can end with no
  task pending, filtering reported as on, and no packet queued any more, although \<open>nft\<close> carried
  out both commands.\<close>

theorem pause_race:
  assumes "nft_ok exec view" and "pause_inv (\<lambda>k. queued (view k)) s" and "d_toggles (sy_daemon s) = []"
    and "ds_firewall (d_state (sy_daemon s)) = Some fw"
    and "fw_resume exec fw (sy_kernel s) = (True, k1)" and "fw_pause exec fw k1 = (True, k2)"
  shows "\<exists>s'. reaches ex exec False s s' \<and> d_toggles (sy_daemon s') = [] \<and>
    \<not> ds_paused (d_state (sy_daemon s')) \<and> sy_kernel s' = k2 \<and> queued (view k2) = Some 0"
proof -
  obtain d1 where d1: "dispatch ex env (SetPaused True) (sy_daemon s) = Some (ROk, d1)" for env by simp
  obtain d2 where d2: "dispatch ex env (SetPaused False) d1 = Some (ROk, d2)" for env by simp
  let ?s1 = "s\<lparr>sy_daemon := d1\<rparr>" and ?s2 = "s\<lparr>sy_daemon := d2\<rparr>"
  let ?s3 = "toggle exec 1 ?s2" let ?s4 = "toggle exec 0 ?s3"
  have t: "d_toggles d2 = [True, False]" "\<not> ds_paused (d_state d2)"
    "ds_firewall (d_state d2) = Some fw"
    using d1 d2 assms(3,4) by (auto simp: publish_def)
  obtain n where n: "queued (view (sy_kernel s)) = Some n"
    using assms(2) by (auto simp: pause_inv_def Let_def)
  have "sys_step ex exec False s ?s1" by (rule sys_step.request [OF d1]) simp
  moreover have "sys_step ex exec False ?s1 ?s2"
    using sys_step.request [of ex undefined "SetPaused False" ?s1 ROk d2 exec False] d2 by simp
  moreover have "sys_step ex exec False ?s2 ?s3" by (rule sys_step.toggle) (simp_all add: t)
  moreover have "sys_step ex exec False ?s3 ?s4"
    by (rule sys_step.toggle) (simp_all add: toggle_def Let_def t remove_nth_def)
  ultimately have r: "reaches ex exec False s ?s4"
    unfolding reaches_def by (meson converse_rtranclp_into_rtranclp rtranclp.rtrancl_refl)
  have k: "sy_kernel ?s4 = k2"
    using assms(5,6) by (simp add: toggle_def Let_def t remove_nth_def run_toggle_def)
  have "queued (view k1) = Some (n + 1)"
    using queued_toggles(2) [OF assms(1) _ n, of "fw_queue_num fw"] assms(5) by (simp add: fw_resume_def)
  then have "queued (view k2) = Some 0"
    using queued_toggles(1) [OF assms(1), of k1] assms(6) by (simp add: fw_pause_def)
  moreover have "d_toggles (sy_daemon ?s4) = []" "\<not> ds_paused (d_state (sy_daemon ?s4))"
    by (simp_all add: toggle_def Let_def t remove_nth_def)
  ultimately show ?thesis using r k by blast
qed

theorem pause_race_witness:
  "\<exists>s'. reaches demo_ex demo_nft False demo_system s' \<and> d_toggles (sy_daemon s') = [] \<and>
     \<not> ds_paused (d_state (sy_daemon s')) \<and> queued (sy_kernel s') = Some 0"
proof -
  have s: "d_toggles (sy_daemon demo_system) = []" "ds_firewall (d_state (sy_daemon demo_system)) = Some \<lparr>fw_queue_num = 0\<rparr>"
    by (simp_all add: demo_system_def demo_d_def)
  have k: "sy_kernel demo_system (''inet'', ''travelmode'') = Some (our_table [queue_rule 0])"
    by (simp add: demo_system_def)
  obtain k1 where k1: "fw_resume demo_nft \<lparr>fw_queue_num = 0\<rparr> (sy_kernel demo_system) = (True, k1)"
    "k1 (''inet'', ''travelmode'') = Some (our_table [queue_rule 0, queue_rule 0])"
    using demo_nft_simps(4) [of "sy_kernel demo_system" "[queue_rule 0]" 0] k by (simp add: fw_resume_def)
  obtain k2 where k2: "fw_pause demo_nft \<lparr>fw_queue_num = 0\<rparr> k1 = (True, k2)"
    using demo_nft_simps(3) [of k1] k1(2) by (simp add: fw_pause_def)
  from pause_race [of demo_nft "\<lambda>R. R" demo_system, OF demo_nft_ok demo_system_pause s k1(1) k2, of demo_ex] show ?thesis by auto
qed

end
