(* ===== verification/GuiState.thy ===== *)
theory GuiState
  imports CoreTypes RustMap Machines
begin

text \<open>
  The state the GUI renders (\<open>crates/gui/src/state.rs\<close>): snapshots and daemon events are
  folded into it.  The applications are a \<open>BTreeMap\<close> (they are rendered in key order), the
  connections a hash map beside the order they arrived in.
\<close>

section \<open>Definitions\<close>

definition MAX_CONNECTIONS :: nat where "MAX_CONNECTIONS = 500"

record AppEntry =
  ap_name :: string
  ap_exe :: "path option"
  ap_bytes_sent :: u64
  ap_bytes_recv :: u64
  ap_connections :: u32
  ap_blocked :: bool
  ap_block_rule_id :: "u64 option"
  ap_speed_up :: u64
  ap_speed_down :: u64
  ap_prev_sent :: u64
  ap_prev_recv :: u64

definition default_app :: "string \<Rightarrow> path option \<Rightarrow> AppEntry" where
  "default_app name exe = \<lparr>ap_name = name, ap_exe = exe, ap_bytes_sent = 0, ap_bytes_recv = 0, ap_connections = 0,
     ap_blocked = False, ap_block_rule_id = None, ap_speed_up = 0, ap_speed_down = 0, ap_prev_sent = 0, ap_prev_recv = 0\<rparr>"

definition is_allowed :: "AppEntry \<Rightarrow> bool" where
  "is_allowed app = (\<not> ap_blocked app)"

type_synonym apps = "(string, AppEntry) btreemap"

record ClientState =
  cs_connected :: bool
  cs_status :: "Status option"
  cs_network :: "NetworkInfo option"
  cs_rules :: "Rule list"
  cs_paused :: bool
  cs_apps :: apps
  cs_conns :: "(string, ConnectionInfo) hashmap"
  cs_conn_order :: "string list"
  cs_total_up :: u64
  cs_total_down :: u64
  cs_speed_up :: u64
  cs_speed_down :: u64
  cs_prev_total_up :: u64
  cs_prev_total_down :: u64

definition client_default :: ClientState where
  "client_default = \<lparr>cs_connected = False, cs_status = None, cs_network = None, cs_rules = [], cs_paused = False,
     cs_apps = [], cs_conns = [], cs_conn_order = [], cs_total_up = 0, cs_total_down = 0, cs_speed_up = 0,
     cs_speed_down = 0, cs_prev_total_up = 0, cs_prev_total_down = 0\<rparr>"

subsection \<open>Ordering and keys\<close>

datatype Ordering = Less | Equal | Greater

definition cmp :: "'a::linorder \<Rightarrow> 'a \<Rightarrow> Ordering" where
  "cmp a b = (if a < b then Less else if a = b then Equal else Greater)"

definition then_with :: "Ordering \<Rightarrow> Ordering \<Rightarrow> Ordering" where
  "then_with a b = (if a = Equal then b else a)"

fun cmp_rows :: "u64 \<times> u64 \<times> string \<Rightarrow> u64 \<times> u64 \<times> string \<Rightarrow> Ordering" where
  "cmp_rows (a0, a1, a2) (b0, b1, b2) = then_with (then_with (cmp b0 a0) (cmp b1 a1)) (cmp a2 b2)"

definition gui_app_key :: "path option \<Rightarrow> string \<Rightarrow> string" where
  "gui_app_key exe name = (case exe of Some p \<Rightarrow> display p | None \<Rightarrow> ''name:'' @ name)"

definition conn_name :: "ConnectionInfo \<Rightarrow> string" where
  "conn_name conn = (case c_process_name conn of Some n \<Rightarrow> n | None \<Rightarrow> ''unknown'')"

subsection \<open>Rules and applications\<close>

definition block_rule_for :: "Rule list \<Rightarrow> AppEntry \<Rightarrow> Rule option" where
  "block_rule_for rules app =
     (case ap_exe app of
        None \<Rightarrow> None
      | Some exe \<Rightarrow> List.find (\<lambda>r. r_action r = Block \<and> path_eq (r_exe_path r) exe) rules)"

definition apply_rule_flags :: "Rule list \<Rightarrow> AppEntry \<Rightarrow> AppEntry" where
  "apply_rule_flags rules app =
     (let rule = block_rule_for rules app
      in app\<lparr>ap_blocked := (rule \<noteq> None), ap_block_rule_id := map_option r_id rule\<rparr>)"

definition entry_or_insert :: "string \<Rightarrow> AppEntry \<Rightarrow> apps \<Rightarrow> apps" where
  "entry_or_insert key app m = (case map_of m key of Some _ \<Rightarrow> m | None \<Rightarrow> bt_insert key app m)"

definition list_blocked :: "Rule \<Rightarrow> apps \<Rightarrow> apps" where
  "list_blocked rule m =
     (if r_action rule = Block
      then entry_or_insert (gui_app_key (Some (r_exe_path rule)) (r_name rule))
        (default_app (r_name rule) (Some (r_exe_path rule))) m
      else m)"

definition refresh_rule_flags :: "ClientState \<Rightarrow> ClientState" where
  "refresh_rule_flags st =
     (let apps = fold list_blocked (cs_rules st) (cs_apps st);
          apps = map (\<lambda>(k, a). (k, apply_rule_flags (cs_rules st) a)) apps;
          empty_apps = map fst (filter (\<lambda>(k, a). ap_connections a = 0 \<and> \<not> ap_blocked a) apps)
      in st\<lparr>cs_apps := fold AList.delete empty_apps apps\<rparr>)"

subsection \<open>Connections\<close>

function enforce_cap :: "string list \<Rightarrow> (string, ConnectionInfo) hashmap
    \<Rightarrow> string list \<times> (string, ConnectionInfo) hashmap" where
  "enforce_cap order conns =
     (if length conns \<le> MAX_CONNECTIONS then (order, conns)
      else (case order of
          [] \<Rightarrow> (order, conns)
        | oldest # rest \<Rightarrow> enforce_cap rest (AList.delete oldest conns)))"
  by pat_completeness auto
termination
  by (relation "measure (\<lambda>(order, _). length order)") auto

declare enforce_cap.simps [simp del]

definition enforce_conn_cap :: "ClientState \<Rightarrow> ClientState" where
  "enforce_conn_cap st =
     (let (order, conns) = enforce_cap (cs_conn_order st) (cs_conns st)
      in st\<lparr>cs_conn_order := order, cs_conns := conns\<rparr>)"

definition upsert_conn :: "ConnectionInfo \<Rightarrow> bool \<Rightarrow> ClientState \<Rightarrow> ClientState" where
  "upsert_conn conn is_open st =
     (let (old_sent, old_recv, existed) = (case map_of (cs_conns st) (c_key conn) of
            Some old \<Rightarrow> (c_bytes_sent old, c_bytes_recv old, True)
          | None \<Rightarrow> (0, 0, False));
          sent = saturating_sub (c_bytes_sent conn) old_sent;
          recv = saturating_sub (c_bytes_recv conn) old_recv;
          key = gui_app_key (c_exe conn) (conn_name conn);
          apps = entry_or_insert key (default_app (conn_name conn) (c_exe conn)) (cs_apps st);
          app = the (map_of apps key);
          app = app\<lparr>ap_bytes_sent := ap_bytes_sent app + sent, ap_bytes_recv := ap_bytes_recv app + recv\<rparr>;
          app = (if is_open \<and> \<not> existed then app\<lparr>ap_connections := ap_connections app + 1\<rparr> else app);
          app = apply_rule_flags (cs_rules st) app
      in enforce_conn_cap (st\<lparr>
           cs_total_up := cs_total_up st + sent,
           cs_total_down := cs_total_down st + recv,
           cs_apps := bt_insert key app apps,
           cs_conn_order := (if existed then cs_conn_order st else cs_conn_order st @ [c_key conn]),
           cs_conns := AList.update (c_key conn) conn (cs_conns st)\<rparr>))"

definition remove_conn :: "string \<Rightarrow> ClientState \<Rightarrow> ClientState" where
  "remove_conn key st =
     (case map_of (cs_conns st) key of
        None \<Rightarrow> st
      | Some conn \<Rightarrow>
          (let akey = gui_app_key (c_exe conn) (conn_name conn);
               st = st\<lparr>cs_conns := AList.delete key (cs_conns st),
                       cs_conn_order := filter (\<lambda>k. k \<noteq> key) (cs_conn_order st)\<rparr>
           in (case map_of (cs_apps st) akey of
                 None \<Rightarrow> st
               | Some app \<Rightarrow>
                   (let app = app\<lparr>ap_connections := saturating_sub (ap_connections app) 1\<rparr>
                    in if ap_connections app = 0 \<and> \<not> ap_blocked app
                       then st\<lparr>cs_apps := AList.delete akey (cs_apps st)\<rparr>
                       else st\<lparr>cs_apps := bt_insert akey app (cs_apps st)\<rparr>))))"

subsection \<open>The reducer\<close>

fun apply_event :: "Event \<Rightarrow> ClientState \<Rightarrow> ClientState" where
  "apply_event (ConnectionOpened conn) st = upsert_conn conn True st"
| "apply_event (ConnectionUpdated conn) st = upsert_conn conn False st"
| "apply_event (ConnectionClosed key) st = remove_conn key st"
| "apply_event (RuleAdded rule) st =
     refresh_rule_flags (st\<lparr>cs_rules := filter (\<lambda>r. r_id r \<noteq> r_id rule) (cs_rules st) @ [rule]\<rparr>)"
| "apply_event (RuleRemoved i) st =
     refresh_rule_flags (st\<lparr>cs_rules := filter (\<lambda>r. r_id r \<noteq> i) (cs_rules st)\<rparr>)"
| "apply_event (PausedChanged paused) st = st\<lparr>cs_paused := paused\<rparr>"
| "apply_event (NetworkChanged network) st = st\<lparr>cs_network := Some network\<rparr>"
| "apply_event (ProcessStarted _) st = st"
| "apply_event (ProcessExited _) st = st"

definition snapshot_app :: "AppUsage \<Rightarrow> AppEntry" where
  "snapshot_app usage = (default_app (au_name usage) (au_exe usage))
     \<lparr>ap_bytes_sent := au_bytes_sent usage, ap_bytes_recv := au_bytes_recv usage,
      ap_connections := au_connections usage\<rparr>"

definition snapshot_conn :: "ConnectionInfo \<Rightarrow> ClientState \<Rightarrow> ClientState" where
  "snapshot_conn conn st = st\<lparr>
     cs_total_up := cs_total_up st + c_bytes_sent conn,
     cs_total_down := cs_total_down st + c_bytes_recv conn,
     cs_conn_order := cs_conn_order st @ [c_key conn],
     cs_conns := AList.update (c_key conn) conn (cs_conns st)\<rparr>"

definition sample_app :: "AppEntry \<Rightarrow> AppEntry" where
  "sample_app app = app\<lparr>ap_prev_sent := ap_bytes_sent app, ap_prev_recv := ap_bytes_recv app\<rparr>"

definition map_apps :: "(AppEntry \<Rightarrow> AppEntry) \<Rightarrow> apps \<Rightarrow> apps" where
  "map_apps f m = map (\<lambda>(k, a). (k, f a)) m"

definition apply_snapshot :: "Status \<Rightarrow> NetworkInfo \<Rightarrow> AppUsage list \<Rightarrow> ConnectionInfo list \<Rightarrow> Rule list
    \<Rightarrow> ClientState \<Rightarrow> ClientState" where
  "apply_snapshot status network usages conns rules st =
     (let st = st\<lparr>cs_connected := True, cs_paused := s_paused status, cs_status := Some status,
            cs_network := Some network, cs_rules := rules, cs_conns := [], cs_conn_order := [],
            cs_total_up := 0, cs_total_down := 0\<rparr>;
          st = fold snapshot_conn conns st;
          st = st\<lparr>cs_apps := fold (\<lambda>u. bt_insert (gui_app_key (au_exe u) (au_name u)) (snapshot_app u)) usages []\<rparr>;
          st = refresh_rule_flags st
      in st\<lparr>cs_prev_total_up := cs_total_up st, cs_prev_total_down := cs_total_down st,
            cs_apps := map_apps sample_app (cs_apps st)\<rparr>)"

definition tick_app :: "AppEntry \<Rightarrow> AppEntry" where
  "tick_app app = sample_app (app\<lparr>
     ap_speed_up := saturating_sub (ap_bytes_sent app) (ap_prev_sent app),
     ap_speed_down := saturating_sub (ap_bytes_recv app) (ap_prev_recv app)\<rparr>)"

definition tick :: "ClientState \<Rightarrow> ClientState" where
  "tick st = st\<lparr>
     cs_speed_up := saturating_sub (cs_total_up st) (cs_prev_total_up st),
     cs_speed_down := saturating_sub (cs_total_down st) (cs_prev_total_down st),
     cs_prev_total_up := cs_total_up st,
     cs_prev_total_down := cs_total_down st,
     cs_apps := map_apps tick_app (cs_apps st),
     cs_status := map_option (\<lambda>s. s\<lparr>s_uptime_secs := s_uptime_secs s + 1\<rparr>) (cs_status st)\<rparr>"

definition active_app_count :: "ClientState \<Rightarrow> nat" where
  "active_app_count st = length (filter (\<lambda>(k, a). ap_connections a > 0) (cs_apps st))"

definition blocked_app_count :: "ClientState \<Rightarrow> nat" where
  "blocked_app_count st = length (filter (\<lambda>(k, a). ap_blocked a) (cs_apps st))"

section \<open>Specification\<close>

text \<open>The connections and their arrival order are the same set, each once; every application is
  stored under its key, and its flags are those the rules give it.\<close>

definition conns_ok :: "ClientState \<Rightarrow> bool" where
  "conns_ok st \<longleftrightarrow> hm_wf (cs_conns st) \<and> (\<forall>(k, c) \<in> set (cs_conns st). c_key c = k) \<and>
     distinct (cs_conn_order st) \<and> set (cs_conn_order st) = fst ` set (cs_conns st)"

definition apps_ok :: "ClientState \<Rightarrow> bool" where
  "apps_ok st \<longleftrightarrow> bt_wf (cs_apps st) \<and>
     (\<forall>(k, a) \<in> set (cs_apps st). gui_app_key (ap_exe a) (ap_name a) = k \<and> apply_rule_flags (cs_rules st) a = a)"

section \<open>Lemmas\<close>

subsection \<open>The cap\<close>

lemma length_delete: "hm_wf m \<Longrightarrow> k \<in> fst ` set m \<Longrightarrow> length (AList.delete k m) = length m - 1"
proof -
  assume m: "hm_wf m" "k \<in> fst ` set m"
  then obtain v where "map_of m k = Some v" by (metis domD dom_map_of_conv_image_fst)
  from hm.mset_remove [OF m(1) this] have "size (mset m) = Suc (size (mset (AList.delete k m)))" by simp
  then show ?thesis by simp
qed

lemma dom_delete: "fst ` set (AList.delete k m) = fst ` set m - {k}"
  using arg_cong [OF AList.delete_keys [of k m], of set] by simp

lemma enforce_cap_ok:
  assumes "hm_wf conns" "distinct order" "set order = fst ` set conns" "enforce_cap order conns = (order', conns')"
  shows "hm_wf conns' \<and> distinct order' \<and> set order' = fst ` set conns' \<and>
    length conns' = min (length conns) MAX_CONNECTIONS \<and>
    order' = drop (length conns - MAX_CONNECTIONS) order \<and>
    conns' = filter (\<lambda>(k, c). k \<in> set order') conns"
  using assms
proof (induction order conns arbitrary: order' conns' rule: enforce_cap.induct)
  case (1 order conns)
  have len: "length order = length conns"
    using "1.prems" by (metis distinct_card length_map set_map)
  show ?case
  proof (cases "length conns \<le> MAX_CONNECTIONS")
    case True
    then have "(order', conns') = (order, conns)" using "1.prems"(4) by (simp add: enforce_cap.simps)
    moreover have "filter (\<lambda>(k, c). k \<in> set order) conns = conns"
      using "1.prems"(3) by (force simp: filter_id_iff)
    ultimately show ?thesis using True "1.prems" by simp
  next
    case False
    then obtain oldest rest where o: "order = oldest # rest" using len by (cases order) auto
    let ?c = "AList.delete oldest conns"
    have e: "enforce_cap rest ?c = (order', conns')"
      using "1.prems"(4) False o by (simp add: enforce_cap.simps [of "oldest # rest" conns])
    have l: "length ?c = length conns - 1"
      using "1.prems" o by (intro length_delete) auto
    have s: "set rest = fst ` set ?c"
      unfolding dom_delete using "1.prems"(2,3) o by auto
    note ih = "1.IH" [OF False o _ _ s e]
    have r: "hm_wf conns' \<and> distinct order' \<and> set order' = fst ` set conns' \<and>
        length conns' = min (length ?c) MAX_CONNECTIONS \<and>
        order' = drop (length ?c - MAX_CONNECTIONS) rest \<and> conns' = filter (\<lambda>(k, c). k \<in> set order') ?c"
      by (rule ih) (use "1.prems"(1,2) o in \<open>simp_all add: distinct_delete\<close>)
    have "oldest \<notin> set order'"
      using r "1.prems"(2) o by (metis distinct.simps(2) in_set_dropD)
    then have "filter (\<lambda>(k, c). k \<in> set order') ?c = filter (\<lambda>(k, c). k \<in> set order') conns"
      by (auto simp: AList.delete_eq intro: filter_cong)
    moreover have "drop (length conns - MAX_CONNECTIONS) order = drop (length ?c - MAX_CONNECTIONS) rest"
    proof -
      have "length conns - MAX_CONNECTIONS = Suc (length ?c - MAX_CONNECTIONS)" using False l by simp
      then show ?thesis by (simp add: o)
    qed
    ultimately show ?thesis using r l False by auto
  qed
qed

lemma upsert_conn_conns:
  assumes "conns_ok st"
  shows "conns_ok (upsert_conn conn is_open st) \<and> length (cs_conns (upsert_conn conn is_open st)) \<le> MAX_CONNECTIONS"
proof -
  let ?k = "c_key conn"
  let ?existed = "map_of (cs_conns st) ?k \<noteq> None"
  let ?order = "if ?existed then cs_conn_order st else cs_conn_order st @ [?k]"
  let ?conns = "AList.update ?k conn (cs_conns st)"
  obtain order' conns' where e: "enforce_cap ?order ?conns = (order', conns')" by (meson surj_pair)
  have u: "cs_conns (upsert_conn conn is_open st) = conns'" "cs_conn_order (upsert_conn conn is_open st) = order'"
    using e by (cases "map_of (cs_conns st) ?k"; simp add: upsert_conn_def enforce_conn_cap_def Let_def)+
  have wf: "hm_wf ?conns" using assms by (simp add: conns_ok_def distinct_update)
  have dom: "fst ` set ?conns = insert ?k (fst ` set (cs_conns st))" by (simp add: dom_update)
  have ex: "?existed \<longleftrightarrow> ?k \<in> fst ` set (cs_conns st)"
    by (metis domIff dom_map_of_conv_image_fst)
  have o: "distinct ?order" "set ?order = fst ` set ?conns"
    using assms ex dom by (auto simp: conns_ok_def)
  note c = enforce_cap_ok [OF wf o e]
  have keys: "c_key b = a" if "(a, b) \<in> set ?conns" for a b
  proof -
    have "map_of ?conns a = Some b" using that wf by simp
    then have "a = ?k \<and> b = conn \<or> map_of (cs_conns st) a = Some b" by (auto simp: update_conv' split: if_splits)
    with assms show ?thesis by (auto simp: conns_ok_def)
  qed
  obtain P where "conns' = filter P ?conns" using c by blast
  then have sub: "set conns' \<subseteq> set ?conns" by auto
  have "\<forall>(k, c) \<in> set conns'. c_key c = k" using keys sub by auto
  moreover have "length conns' \<le> MAX_CONNECTIONS" using c by (metis min.cobounded2)
  moreover have "hm_wf conns'" "distinct order'" "set order' = fst ` set conns'" using c by blast+
  ultimately show ?thesis unfolding conns_ok_def u by blast
qed

lemma remove_conn_conns: "conns_ok st \<Longrightarrow> conns_ok (remove_conn key st)"
proof (cases "map_of (cs_conns st) key")
  case (Some conn)
  let ?st1 = "st\<lparr>cs_conns := AList.delete key (cs_conns st), cs_conn_order := filter (\<lambda>k. k \<noteq> key) (cs_conn_order st)\<rparr>"
  assume ok: "conns_ok st"
  have "cs_conns (remove_conn key st) = cs_conns ?st1 \<and> cs_conn_order (remove_conn key st) = cs_conn_order ?st1"
    by (simp add: remove_conn_def Some Let_def split: option.split)
  moreover have "set (AList.delete key (cs_conns st)) \<subseteq> set (cs_conns st)"
    by (auto simp: AList.delete_eq)
  then have "conns_ok ?st1"
    using ok by (auto simp: conns_ok_def distinct_delete dom_delete)
  ultimately show ?thesis by (simp add: conns_ok_def)
qed (simp add: remove_conn_def)

lemma refresh_rule_flags_frame [frame_simps]:
  "cs_conns (refresh_rule_flags st) = cs_conns st" "cs_conn_order (refresh_rule_flags st) = cs_conn_order st"
  "cs_rules (refresh_rule_flags st) = cs_rules st" "cs_total_up (refresh_rule_flags st) = cs_total_up st"
  "cs_total_down (refresh_rule_flags st) = cs_total_down st" "cs_paused (refresh_rule_flags st) = cs_paused st"
  by (simp_all add: refresh_rule_flags_def Let_def)

lemma conns_ok_frame [frame_simps]:
  "conns_ok (st\<lparr>cs_rules := rules\<rparr>) = conns_ok st" "conns_ok (st\<lparr>cs_paused := b\<rparr>) = conns_ok st"
  "conns_ok (st\<lparr>cs_network := n\<rparr>) = conns_ok st" "conns_ok (refresh_rule_flags st) = conns_ok st"
  by (simp_all add: conns_ok_def frame_simps)

lemma apply_event_conns: "conns_ok st \<Longrightarrow> conns_ok (apply_event e st)"
  by (cases e) (simp_all add: upsert_conn_conns remove_conn_conns frame_simps)

subsection \<open>The applications\<close>

lemma block_rule_for_cong: "ap_exe a = ap_exe b \<Longrightarrow> block_rule_for rules a = block_rule_for rules b"
  by (simp add: block_rule_for_def)

lemma apply_rule_flags_fields [simp]:
  "ap_exe (apply_rule_flags rules a) = ap_exe a" "ap_name (apply_rule_flags rules a) = ap_name a"
  "ap_connections (apply_rule_flags rules a) = ap_connections a"
  "ap_bytes_sent (apply_rule_flags rules a) = ap_bytes_sent a"
  "ap_blocked (apply_rule_flags rules a) \<longleftrightarrow> block_rule_for rules a \<noteq> None"
  "ap_block_rule_id (apply_rule_flags rules a) = map_option r_id (block_rule_for rules a)"
  by (simp_all add: apply_rule_flags_def Let_def)

lemma apply_rule_flags_iff:
  "apply_rule_flags rules a = a \<longleftrightarrow>
     (ap_blocked a \<longleftrightarrow> block_rule_for rules a \<noteq> None) \<and>
     ap_block_rule_id a = map_option r_id (block_rule_for rules a)"
proof
  assume *: "apply_rule_flags rules a = a"
  show "(ap_blocked a \<longleftrightarrow> block_rule_for rules a \<noteq> None) \<and> ap_block_rule_id a = map_option r_id (block_rule_for rules a)"
    using apply_rule_flags_fields(5,6) [of rules a] unfolding * by blast
qed (simp add: apply_rule_flags_def Let_def)

lemma apply_rule_flags_idem [simp]: "apply_rule_flags rules (apply_rule_flags rules a) = apply_rule_flags rules a"
  by (simp add: apply_rule_flags_iff block_rule_for_cong [of "apply_rule_flags rules a" a])

lemma block_rule_for_Some:
  "block_rule_for rules a = Some r \<Longrightarrow>
     r \<in> set rules \<and> r_action r = Block \<and> (\<exists>exe. ap_exe a = Some exe \<and> path_eq (r_exe_path r) exe)"
  by (auto simp: block_rule_for_def find_Some_iff split: option.splits)

lemma block_rule_for_None:
  "block_rule_for rules a = None \<longleftrightarrow>
     (\<forall>r \<in> set rules. \<forall>exe. r_action r = Block \<longrightarrow> ap_exe a = Some exe \<longrightarrow> \<not> path_eq (r_exe_path r) exe)"
  by (auto simp: block_rule_for_def find_None_iff split: option.splits)

lemma bt_wf_map: "bt_wf m \<Longrightarrow> bt_wf (map (\<lambda>(k, a). (k, f k a)) m)"
  by (simp add: bt_wf_def comp_def split_beta)

lemma entry_or_insert_get:
  "bt_wf m \<Longrightarrow> map_of (entry_or_insert key app m) =
     (if map_of m key = None then (map_of m)(key \<mapsto> app) else map_of m)"
  by (auto simp: entry_or_insert_def bt.get_insert split: option.split)

lemma entry_or_insert_wf: "bt_wf m \<Longrightarrow> bt_wf (entry_or_insert key app m)"
  by (auto simp: entry_or_insert_def bt_wf_insert split: option.split)

definition keyed :: "apps \<Rightarrow> bool" where
  "keyed m \<longleftrightarrow> (\<forall>k a. map_of m k = Some a \<longrightarrow> gui_app_key (ap_exe a) (ap_name a) = k)"

lemma list_blocked_fold:
  assumes "bt_wf m" "keyed m"
  shows "bt_wf (fold list_blocked rules m) \<and> keyed (fold list_blocked rules m) \<and>
    (\<forall>k a. map_of m k = Some a \<longrightarrow> map_of (fold list_blocked rules m) k = Some a) \<and>
    (\<forall>r \<in> set rules. r_action r = Block \<longrightarrow> map_of (fold list_blocked rules m) (display (r_exe_path r)) \<noteq> None)"
  using assms
proof (induction rules arbitrary: m)
  case (Cons r rules)
  have "bt_wf (list_blocked r m)" "keyed (list_blocked r m)"
    "\<forall>k a. map_of m k = Some a \<longrightarrow> map_of (list_blocked r m) k = Some a"
    "r_action r = Block \<longrightarrow> map_of (list_blocked r m) (display (r_exe_path r)) \<noteq> None"
    using Cons.prems
    by (auto simp: list_blocked_def entry_or_insert_wf entry_or_insert_get keyed_def gui_app_key_def default_app_def
        split: if_splits)
  with Cons.IH [of "list_blocked r m"] show ?case by fastforce
qed simp

lemma apps_ok_alt:
  "apps_ok st \<longleftrightarrow> bt_wf (cs_apps st) \<and> keyed (cs_apps st) \<and>
     (\<forall>k a. map_of (cs_apps st) k = Some a \<longrightarrow> apply_rule_flags (cs_rules st) a = a)"
proof (cases "bt_wf (cs_apps st)")
  case True
  have "(\<forall>x \<in> set (cs_apps st). P x) \<longleftrightarrow> (\<forall>k a. map_of (cs_apps st) k = Some a \<longrightarrow> P (k, a))" for P
    using bt.in_entries_iff [OF True] by (metis prod.exhaust)
  then show ?thesis using True unfolding apps_ok_def keyed_def by simp blast
qed (simp add: apps_ok_def)

lemma map_of_map_val: "map_of (map (\<lambda>(k, a). (k, f a)) m) k = map_option f (map_of m k)"
  by (induction m) auto

lemma fold_delete_wf: "bt_wf m \<Longrightarrow> bt_wf (fold AList.delete ks m)"
  by (induction ks arbitrary: m) (simp_all add: bt_wf_delete)

lemma refresh_rule_flags_get:
  assumes "bt_wf (cs_apps st)" "keyed (cs_apps st)"
  shows "bt_wf (cs_apps (refresh_rule_flags st)) \<and>
    map_of (cs_apps (refresh_rule_flags st)) k =
    (case map_of (fold list_blocked (cs_rules st) (cs_apps st)) k of
       None \<Rightarrow> None
     | Some a \<Rightarrow> if ap_connections a = 0 \<and> block_rule_for (cs_rules st) a = None then None
         else Some (apply_rule_flags (cs_rules st) a))"
proof -
  let ?m = "fold list_blocked (cs_rules st) (cs_apps st)"
  let ?m' = "map (\<lambda>(k, a). (k, apply_rule_flags (cs_rules st) a)) ?m"
  let ?ks = "map fst (filter (\<lambda>(k, a). ap_connections a = 0 \<and> \<not> ap_blocked a) ?m')"
  have wf: "bt_wf ?m'" using list_blocked_fold [OF assms] by (intro bt_wf_map) simp
  have d: "map_of (fold AList.delete ?ks ?m') k = (if k \<in> set ?ks then None else map_of ?m' k)"
    by (rule fun_cong [OF conjunct2 [OF bt.fold_remove [OF wf, of ?ks]]])
  have ks: "k \<in> set ?ks \<longleftrightarrow> (\<exists>a. map_of ?m' k = Some a \<and> ap_connections a = 0 \<and> \<not> ap_blocked a)"
    using bt.in_entries_iff [OF wf] by (auto simp: image_iff)
  have "cs_apps (refresh_rule_flags st) = fold AList.delete ?ks ?m'"
    by (simp add: refresh_rule_flags_def Let_def)
  then show ?thesis
    using d ks fold_delete_wf [OF wf, of ?ks]
    by (auto simp: map_of_map_val split: option.split)
qed

lemma refresh_rule_flags_ok:
  assumes "bt_wf (cs_apps st)" "keyed (cs_apps st)"
  shows "apps_ok (refresh_rule_flags st)"
proof -
  note l = list_blocked_fold [OF assms, of "cs_rules st"]
  show ?thesis
    unfolding apps_ok_alt frame_simps
    using refresh_rule_flags_get [OF assms] l
    by (auto simp: keyed_def split: option.splits if_splits)
qed

lemma upsert_conn_apps:
  assumes "apps_ok st"
  shows "apps_ok (upsert_conn conn is_open st)"
proof -
  let ?key = "gui_app_key (c_exe conn) (conn_name conn)"
  let ?apps = "entry_or_insert ?key (default_app (conn_name conn) (c_exe conn)) (cs_apps st)"
  have wf: "bt_wf ?apps" "keyed ?apps"
    using assms by (auto simp: apps_ok_alt entry_or_insert_wf entry_or_insert_get keyed_def default_app_def)
  have other: "apply_rule_flags (cs_rules st) a = a" if "map_of ?apps k = Some a" "k \<noteq> ?key" for k a
    using that assms by (auto simp: apps_ok_alt entry_or_insert_get split: if_splits)
  have "map_of ?apps ?key \<noteq> None"
    using assms by (simp add: apps_ok_alt entry_or_insert_get)
  then obtain app where app: "map_of ?apps ?key = Some app" by blast
  then have k: "gui_app_key (ap_exe app) (ap_name app) = ?key" using wf(2) by (simp add: keyed_def)
  obtain app' where a: "cs_apps (upsert_conn conn is_open st) = bt_insert ?key (apply_rule_flags (cs_rules st) app') ?apps"
    and e: "ap_exe app' = ap_exe app" "ap_name app' = ap_name app"
    and r: "cs_rules (upsert_conn conn is_open st) = cs_rules st"
    by (cases "map_of (cs_conns st) (c_key conn)"; cases is_open)
      (auto simp: upsert_conn_def enforce_conn_cap_def Let_def app split: prod.splits)
  show ?thesis
    unfolding apps_ok_alt a r
    using wf other k e by (auto simp: bt_wf_insert bt.get_insert keyed_def split: if_splits)
qed

lemma remove_conn_apps:
  assumes "apps_ok st"
  shows "apps_ok (remove_conn key st)"
proof -
  have c: "apply_rule_flags rules (a\<lparr>ap_connections := n\<rparr>) = a\<lparr>ap_connections := n\<rparr>"
    if "apply_rule_flags rules a = a" for rules a n
    using that by (simp add: apply_rule_flags_iff block_rule_for_cong [of "a\<lparr>ap_connections := n\<rparr>" a])
  show ?thesis
    using assms
    by (auto simp: remove_conn_def Let_def apps_ok_alt bt_wf_delete bt_wf_insert bt.get_insert bt.get_remove
        keyed_def c split: option.split)
qed

lemma apps_ok_frame [frame_simps]:
  "apps_ok (st\<lparr>cs_paused := b\<rparr>) = apps_ok st" "apps_ok (st\<lparr>cs_network := n\<rparr>) = apps_ok st"
  by (simp_all add: apps_ok_def)

lemma apply_event_apps: "apps_ok st \<Longrightarrow> apps_ok (apply_event e st)"
  by (cases e) (simp_all add: upsert_conn_apps remove_conn_apps frame_simps refresh_rule_flags_ok apps_ok_alt [of st])

interpretation gui: machine apply_event "\<lambda>_. True" "\<lambda>st. conns_ok st \<and> apps_ok st"
  by unfold_locales (simp add: apply_event_conns apply_event_apps)

subsection \<open>Totals\<close>

definition live_sum :: "(ConnectionInfo \<Rightarrow> u64) \<Rightarrow> ClientState \<Rightarrow> u64" where
  "live_sum f st = sum_list (map (f \<circ> snd) (cs_conns st))"

lemma sum_update:
  fixes f :: "ConnectionInfo \<Rightarrow> u64"
  assumes "hm_wf m"
  shows "sum_list (map (f \<circ> snd) (AList.update k c m)) =
    sum_list (map (f \<circ> snd) m) + f c - (case map_of m k of None \<Rightarrow> 0 | Some old \<Rightarrow> f old)"
proof (cases "map_of m k")
  case None
  have "sum_mset (image_mset (f \<circ> snd) (mset (AList.update k c m))) = f c + sum_mset (image_mset (f \<circ> snd) (mset m))"
    using hm.mset_insert_new [OF assms None, of c] by simp
  then show ?thesis by (simp add: None sum_mset_sum_list flip: mset_map)
next
  case (Some old)
  have "f old + sum_mset (image_mset (f \<circ> snd) (mset (AList.update k c m))) =
      f c + sum_mset (image_mset (f \<circ> snd) (mset m))"
    using arg_cong [OF hm.mset_overwrite [OF assms Some, of c], of "\<lambda>M. sum_mset (image_mset (f \<circ> snd) M)"] by simp
  then show ?thesis by (simp add: Some sum_mset_sum_list algebra_simps flip: mset_map)
qed

lemma sum_delete:
  fixes f :: "ConnectionInfo \<Rightarrow> u64"
  assumes "hm_wf m" "map_of m k = Some v"
  shows "sum_list (map (f \<circ> snd) m) = f v + sum_list (map (f \<circ> snd) (AList.delete k m))"
proof -
  have "sum_mset (image_mset (f \<circ> snd) (mset m)) = f v + sum_mset (image_mset (f \<circ> snd) (mset (AList.delete k m)))"
    using hm.mset_remove [OF assms] by simp
  then show ?thesis by (simp add: sum_mset_sum_list flip: mset_map)
qed

text \<open>An event whose flow does not go backwards and for which there is room.\<close>

definition flow_counts_up :: "ConnectionInfo \<Rightarrow> ClientState \<Rightarrow> bool" where
  "flow_counts_up c st \<longleftrightarrow> (case map_of (cs_conns st) (c_key c) of
     Some old \<Rightarrow> c_bytes_sent old \<le> c_bytes_sent c \<and> c_bytes_recv old \<le> c_bytes_recv c
   | None \<Rightarrow> length (cs_conns st) < MAX_CONNECTIONS)"

fun counts_up :: "Event \<Rightarrow> ClientState \<Rightarrow> bool" where
  "counts_up (ConnectionOpened c) st = flow_counts_up c st"
| "counts_up (ConnectionUpdated c) st = flow_counts_up c st"
| "counts_up _ st = True"

fun closed_by :: "(ConnectionInfo \<Rightarrow> u64) \<Rightarrow> Event \<Rightarrow> ClientState \<Rightarrow> u64" where
  "closed_by f (ConnectionClosed key) st = (case map_of (cs_conns st) key of None \<Rightarrow> 0 | Some c \<Rightarrow> f c)"
| "closed_by f _ st = 0"

lemma enforce_cap_small: "length conns \<le> MAX_CONNECTIONS \<Longrightarrow> enforce_cap order conns = (order, conns)"
  by (simp add: enforce_cap.simps)

lemma upsert_totals:
  assumes "conns_ok st"
  shows "cs_total_up (upsert_conn c is_open st) = cs_total_up st +
      saturating_sub (c_bytes_sent c) (case map_of (cs_conns st) (c_key c) of None \<Rightarrow> 0 | Some old \<Rightarrow> c_bytes_sent old)"
    and "cs_total_down (upsert_conn c is_open st) = cs_total_down st +
      saturating_sub (c_bytes_recv c) (case map_of (cs_conns st) (c_key c) of None \<Rightarrow> 0 | Some old \<Rightarrow> c_bytes_recv old)"
  by (cases "map_of (cs_conns st) (c_key c)"; simp add: upsert_conn_def enforce_conn_cap_def Let_def split: prod.split)+

lemma upsert_conns_small:
  assumes "conns_ok st" "flow_counts_up c st" "length (cs_conns st) \<le> MAX_CONNECTIONS"
  shows "cs_conns (upsert_conn c is_open st) = AList.update (c_key c) c (cs_conns st)"
proof -
  have "length (AList.update (c_key c) c (cs_conns st)) \<le> MAX_CONNECTIONS"
    using hm.length_insert [of "cs_conns st" "c_key c" c] assms
    by (auto simp: conns_ok_def flow_counts_up_def split: option.splits)
  then show ?thesis
    by (cases "map_of (cs_conns st) (c_key c)"; simp add: upsert_conn_def enforce_conn_cap_def Let_def enforce_cap_small)
qed

lemma upsert_settled:
  assumes "conns_ok st" "flow_counts_up c st" "length (cs_conns st) \<le> MAX_CONNECTIONS"
  shows "cs_total_up (upsert_conn c is_open st) - live_sum c_bytes_sent (upsert_conn c is_open st) =
      cs_total_up st - live_sum c_bytes_sent st"
    and "cs_total_down (upsert_conn c is_open st) - live_sum c_bytes_recv (upsert_conn c is_open st) =
      cs_total_down st - live_sum c_bytes_recv st"
proof -
  have wf: "hm_wf (cs_conns st)" using assms(1) by (simp add: conns_ok_def)
  have s: "saturating_sub (c_bytes_sent c) (case map_of (cs_conns st) (c_key c) of None \<Rightarrow> 0 | Some old \<Rightarrow> c_bytes_sent old)
      = c_bytes_sent c - (case map_of (cs_conns st) (c_key c) of None \<Rightarrow> 0 | Some old \<Rightarrow> c_bytes_sent old)"
    "saturating_sub (c_bytes_recv c) (case map_of (cs_conns st) (c_key c) of None \<Rightarrow> 0 | Some old \<Rightarrow> c_bytes_recv old)
      = c_bytes_recv c - (case map_of (cs_conns st) (c_key c) of None \<Rightarrow> 0 | Some old \<Rightarrow> c_bytes_recv old)"
    using assms(2) by (auto simp: flow_counts_up_def saturating_sub_def split: option.splits)
  show "cs_total_up (upsert_conn c is_open st) - live_sum c_bytes_sent (upsert_conn c is_open st) =
      cs_total_up st - live_sum c_bytes_sent st"
    by (simp add: live_sum_def upsert_totals [OF assms(1)] upsert_conns_small [OF assms] sum_update [OF wf] s)
  show "cs_total_down (upsert_conn c is_open st) - live_sum c_bytes_recv (upsert_conn c is_open st) =
      cs_total_down st - live_sum c_bytes_recv st"
    by (simp add: live_sum_def upsert_totals [OF assms(1)] upsert_conns_small [OF assms] sum_update [OF wf] s)
qed

lemma delete_absent: "map_of m k = None \<Longrightarrow> AList.delete k m = m"
  by (induction m) (auto split: if_splits)

lemma remove_conn_fields:
  "cs_conns (remove_conn key st) = AList.delete key (cs_conns st)"
  "cs_total_up (remove_conn key st) = cs_total_up st" "cs_total_down (remove_conn key st) = cs_total_down st"
  "cs_rules (remove_conn key st) = cs_rules st"
  by (auto simp: remove_conn_def Let_def delete_absent split: option.split)

lemma event_settled:
  assumes "conns_ok st" "counts_up e st" "length (cs_conns st) \<le> MAX_CONNECTIONS"
  shows "cs_total_up (apply_event e st) - live_sum c_bytes_sent (apply_event e st) =
      cs_total_up st - live_sum c_bytes_sent st + closed_by c_bytes_sent e st"
    and "cs_total_down (apply_event e st) - live_sum c_bytes_recv (apply_event e st) =
      cs_total_down st - live_sum c_bytes_recv st + closed_by c_bytes_recv e st"
    and "length (cs_conns (apply_event e st)) \<le> MAX_CONNECTIONS"
proof -
  have wf: "hm_wf (cs_conns st)" using assms(1) by (simp add: conns_ok_def)
  have d: "live_sum f (remove_conn key st) =
      live_sum f st - (case map_of (cs_conns st) key of None \<Rightarrow> 0 | Some c \<Rightarrow> f c)" for f key
  proof (cases "map_of (cs_conns st) key")
    case None
    then have "remove_conn key st = st" by (simp add: remove_conn_def)
    with None show ?thesis by simp
  next
    case (Some c)
    with sum_delete [OF wf Some, of f] show ?thesis by (simp add: live_sum_def remove_conn_fields)
  qed
  have l: "live_sum f (refresh_rule_flags st') = live_sum f st'" for f st'
    by (simp add: live_sum_def frame_simps)
  have r: "live_sum f (st\<lparr>cs_rules := x\<rparr>) = live_sum f st" "live_sum f (st\<lparr>cs_paused := b\<rparr>) = live_sum f st"
    "live_sum f (st\<lparr>cs_network := n\<rparr>) = live_sum f st" for f x b n
    by (simp_all add: live_sum_def)
  have m: "length (AList.delete k (cs_conns st)) \<le> MAX_CONNECTIONS" for k
    using AList.length_delete_le [of k "cs_conns st"] assms(3) by simp
  show "cs_total_up (apply_event e st) - live_sum c_bytes_sent (apply_event e st) =
      cs_total_up st - live_sum c_bytes_sent st + closed_by c_bytes_sent e st"
    using assms(2) by (cases e) (simp_all add: upsert_settled [OF assms(1) _ assms(3)] d remove_conn_fields l r frame_simps)
  show "cs_total_down (apply_event e st) - live_sum c_bytes_recv (apply_event e st) =
      cs_total_down st - live_sum c_bytes_recv st + closed_by c_bytes_recv e st"
    using assms(2) by (cases e) (simp_all add: upsert_settled [OF assms(1) _ assms(3)] d remove_conn_fields l r frame_simps)
  show "length (cs_conns (apply_event e st)) \<le> MAX_CONNECTIONS"
    using assms(3) m upsert_conn_conns [OF assms(1)]
    by (cases e) (simp_all add: remove_conn_fields frame_simps)
qed

section \<open>Runs of events\<close>

primrec counts_up_run :: "Event list \<Rightarrow> ClientState \<Rightarrow> bool" where
  "counts_up_run [] st = True"
| "counts_up_run (e # es) st = (counts_up e st \<and> counts_up_run es (apply_event e st))"

primrec closed_run :: "(ConnectionInfo \<Rightarrow> u64) \<Rightarrow> Event list \<Rightarrow> ClientState \<Rightarrow> u64" where
  "closed_run f [] st = 0"
| "closed_run f (e # es) st = closed_by f e st + closed_run f es (apply_event e st)"

lemma run_settled:
  assumes "conns_ok st" "counts_up_run es st" "length (cs_conns st) \<le> MAX_CONNECTIONS"
  shows "cs_total_up (fold apply_event es st) - live_sum c_bytes_sent (fold apply_event es st) =
      cs_total_up st - live_sum c_bytes_sent st + closed_run c_bytes_sent es st \<and>
    cs_total_down (fold apply_event es st) - live_sum c_bytes_recv (fold apply_event es st) =
      cs_total_down st - live_sum c_bytes_recv st + closed_run c_bytes_recv es st"
  using assms
proof (induction es arbitrary: st)
  case (Cons e es)
  then have e: "counts_up e st" "counts_up_run es (apply_event e st)" by simp_all
  show ?case
    using Cons.IH [OF apply_event_conns [OF Cons.prems(1)] e(2) event_settled(3) [OF Cons.prems(1) e(1) Cons.prems(3)]]
      event_settled(1,2) [OF Cons.prems(1) e(1) Cons.prems(3)]
    by (simp add: algebra_simps)
qed simp

lemma length_conns_run:
  "conns_ok st \<Longrightarrow> length (cs_conns (fold apply_event es st)) \<le> max (length (cs_conns st)) MAX_CONNECTIONS"
proof (induction es arbitrary: st)
  case (Cons e es)
  have "length (cs_conns (apply_event e st)) \<le> max (length (cs_conns st)) MAX_CONNECTIONS"
    using upsert_conn_conns [OF Cons.prems] AList.length_delete_le [of _ "cs_conns st"]
    by (cases e) (simp_all add: frame_simps remove_conn_fields le_max_iff_disj)
  with Cons.IH [OF apply_event_conns [OF Cons.prems], of e] show ?case by simp
qed simp

subsection \<open>The snapshot\<close>

lemma update_absent: "k \<notin> fst ` set m \<Longrightarrow> AList.update k v m = m @ [(k, v)]"
  by (induction m) auto

lemma conns_ok_snapshot_conn:
  assumes "conns_ok st" "c_key c \<notin> fst ` set (cs_conns st)"
  shows "conns_ok (snapshot_conn c st)"
  using assms by (auto simp: conns_ok_def snapshot_conn_def update_absent)

lemma snapshot_conns:
  assumes "distinct (map fst (cs_conns st) @ map c_key conns)" "conns_ok st"
  shows "cs_conns (fold snapshot_conn conns st) = cs_conns st @ map (\<lambda>c. (c_key c, c)) conns \<and>
    conns_ok (fold snapshot_conn conns st) \<and>
    cs_total_up (fold snapshot_conn conns st) = cs_total_up st + sum_list (map c_bytes_sent conns) \<and>
    cs_total_down (fold snapshot_conn conns st) = cs_total_down st + sum_list (map c_bytes_recv conns) \<and>
    cs_rules (fold snapshot_conn conns st) = cs_rules st \<and>
    cs_conn_order (fold snapshot_conn conns st) = cs_conn_order st @ map c_key conns"
  using assms
proof (induction conns arbitrary: st)
  case (Cons c conns)
  have new: "c_key c \<notin> fst ` set (cs_conns st)" using Cons.prems(1) by auto
  have f: "cs_conns (snapshot_conn c st) = cs_conns st @ [(c_key c, c)]"
    "cs_total_up (snapshot_conn c st) = cs_total_up st + c_bytes_sent c"
    "cs_total_down (snapshot_conn c st) = cs_total_down st + c_bytes_recv c"
    "cs_rules (snapshot_conn c st) = cs_rules st" "cs_conn_order (snapshot_conn c st) = cs_conn_order st @ [c_key c]"
    using new by (simp_all add: snapshot_conn_def update_absent)
  show ?case
    using Cons.IH [of "snapshot_conn c st"] Cons.prems conns_ok_snapshot_conn [OF Cons.prems(2) new]
    by (simp add: f add.assoc)
qed simp

lemma snapshot_apps:
  assumes "bt_wf m" "keyed m"
  shows "bt_wf (fold (\<lambda>u. bt_insert (gui_app_key (au_exe u) (au_name u)) (snapshot_app u)) usages m) \<and>
    keyed (fold (\<lambda>u. bt_insert (gui_app_key (au_exe u) (au_name u)) (snapshot_app u)) usages m)"
  using assms
proof (induction usages arbitrary: m)
  case (Cons u usages)
  have "keyed (bt_insert (gui_app_key (au_exe u) (au_name u)) (snapshot_app u) m)"
    using Cons.prems by (simp add: keyed_def bt.get_insert snapshot_app_def default_app_def)
  with Cons.IH [OF bt_wf_insert [OF Cons.prems(1)] this] show ?case by simp
qed simp

lemma sample_app_fields [simp]:
  "ap_exe (sample_app a) = ap_exe a" "ap_name (sample_app a) = ap_name a" "ap_blocked (sample_app a) = ap_blocked a"
  "ap_block_rule_id (sample_app a) = ap_block_rule_id a" "ap_connections (sample_app a) = ap_connections a"
  by (simp_all add: sample_app_def)

lemma apps_ok_sample:
  assumes "apps_ok st"
  shows "apps_ok (st\<lparr>cs_prev_total_up := u, cs_prev_total_down := d, cs_apps := map_apps sample_app (cs_apps st)\<rparr>)"
proof -
  have s: "apply_rule_flags rules (sample_app a) = sample_app a" if "apply_rule_flags rules a = a" for rules a
    using that by (simp add: apply_rule_flags_iff block_rule_for_cong [of "sample_app a" a])
  show ?thesis
    using assms bt_wf_map [of "cs_apps st" "\<lambda>_. sample_app"]
    by (auto simp: apps_ok_alt map_apps_def map_of_map_val keyed_def s)
qed

lemma live_sum_snapshot: "live_sum f (st\<lparr>cs_conns := map (\<lambda>c. (c_key c, c)) conns\<rparr>) = sum_list (map f conns)"
  by (simp add: live_sum_def comp_def)

lemma apply_snapshot_ok:
  fixes st0 :: ClientState and status network usages conns rules
  assumes "distinct (map c_key conns)"
  defines "st \<equiv> apply_snapshot status network usages conns rules st0"
  shows "conns_ok st" "apps_ok st" "cs_conns st = map (\<lambda>c. (c_key c, c)) conns" "cs_rules st = rules"
    "cs_total_up st = sum_list (map c_bytes_sent conns)" "cs_total_down st = sum_list (map c_bytes_recv conns)"
    "cs_conn_order st = map c_key conns"
proof -
  let ?st1 = "st0\<lparr>cs_connected := True, cs_paused := s_paused status, cs_status := Some status,
            cs_network := Some network, cs_rules := rules, cs_conns := [], cs_conn_order := [],
            cs_total_up := 0, cs_total_down := 0\<rparr>"
  let ?apps = "fold (\<lambda>u. bt_insert (gui_app_key (au_exe u) (au_name u)) (snapshot_app u)) usages []"
  let ?st2 = "fold snapshot_conn conns ?st1"
  let ?st3 = "refresh_rule_flags (?st2\<lparr>cs_apps := ?apps\<rparr>)"
  have st: "st = ?st3\<lparr>cs_prev_total_up := cs_total_up ?st3, cs_prev_total_down := cs_total_down ?st3,
      cs_apps := map_apps sample_app (cs_apps ?st3)\<rparr>"
    by (simp add: st_def apply_snapshot_def Let_def)
  have "conns_ok ?st1" by (simp add: conns_ok_def)
  from snapshot_conns [of ?st1 conns, OF _ this] assms(1)
  have c: "cs_conns ?st2 = map (\<lambda>c. (c_key c, c)) conns" "conns_ok ?st2" "cs_rules ?st2 = rules"
    "cs_total_up ?st2 = sum_list (map c_bytes_sent conns)" "cs_total_down ?st2 = sum_list (map c_bytes_recv conns)"
    "cs_conn_order ?st2 = map c_key conns"
    by simp_all
  have "bt_wf ?apps" "keyed ?apps" using snapshot_apps [of "[]" usages] by (simp_all add: keyed_def bt_wf_def)
  then have "apps_ok ?st3" by (intro refresh_rule_flags_ok) simp_all
  then show "apps_ok st" unfolding st by (rule apps_ok_sample)
  show "conns_ok st" unfolding st using c(2) by (simp add: conns_ok_def frame_simps)
  show "cs_conns st = map (\<lambda>c. (c_key c, c)) conns" "cs_rules st = rules"
    "cs_total_up st = sum_list (map c_bytes_sent conns)" "cs_total_down st = sum_list (map c_bytes_recv conns)"
    "cs_conn_order st = map c_key conns"
    unfolding st using c by (simp_all add: frame_simps)
qed

section \<open>Properties\<close>

text \<open>C36: Starting from any snapshot with distinct flow keys and folding any events, the
  connections and their arrival order stay the same set with each key once; the applications
  stay sorted and stored under their own key, and each shows as blocked exactly when a block
  rule names its executable, with that rule's id.  Events keep the connection list within
  the cap, unless the snapshot itself was larger.\<close>

theorem gui_state_invariant:
  assumes "distinct (map c_key conns)"
  shows "let st = fold apply_event es (apply_snapshot status network usages conns rules st0) in
    distinct (cs_conn_order st) \<and> set (cs_conn_order st) = fst ` set (cs_conns st) \<and>
    distinct (map fst (cs_conns st)) \<and> (\<forall>k c. map_of (cs_conns st) k = Some c \<longrightarrow> c_key c = k) \<and>
    sorted (map fst (cs_apps st)) \<and> distinct (map fst (cs_apps st)) \<and>
    (\<forall>k a. map_of (cs_apps st) k = Some a \<longrightarrow> gui_app_key (ap_exe a) (ap_name a) = k \<and>
       (is_allowed a \<longleftrightarrow> block_rule_for (cs_rules st) a = None) \<and>
       ap_block_rule_id a = map_option r_id (block_rule_for (cs_rules st) a)) \<and>
    length (cs_conns st) \<le> max (length conns) MAX_CONNECTIONS"
proof -
  let ?snap = "apply_snapshot status network usages conns rules st0"
  let ?st = "fold apply_event es ?snap"
  note snap = apply_snapshot_ok [OF assms, of status network usages rules st0]
  have ok: "conns_ok ?st" "apps_ok ?st" using gui.run_inv [of ?snap es] snap(1,2) by (simp_all add: list_all_iff)
  have l: "length (cs_conns ?st) \<le> max (length conns) MAX_CONNECTIONS"
    using length_conns_run [OF snap(1), of es] snap(3) by simp
  have a: "gui_app_key (ap_exe a) (ap_name a) = k \<and> (is_allowed a \<longleftrightarrow> block_rule_for (cs_rules ?st) a = None) \<and>
      ap_block_rule_id a = map_option r_id (block_rule_for (cs_rules ?st) a)"
    if "map_of (cs_apps ?st) k = Some a" for k a
    using ok(2) that by (auto simp: apps_ok_alt keyed_def apply_rule_flags_iff is_allowed_def)
  show ?thesis
    using ok(1) ok(2) l a unfolding Let_def by (auto simp: conns_ok_def apps_ok_def bt_wf_def strict_sorted_iff dest: map_of_SomeD)
qed

definition sample_flow :: "string \<Rightarrow> u64 \<Rightarrow> u64 \<Rightarrow> ConnectionInfo" where
  "sample_flow key up down = \<lparr>c_key = key, c_protocol = Tcp, c_local_addr = V4 (Ipv4Addr 10 0 0 5), c_local_port = 1, c_remote_addr = V4 (Ipv4Addr 10 0 0 5),
     c_remote_port = 443, c_bytes_sent = up, c_bytes_recv = down, c_pid = None, c_process_name = Some ''curl'',
     c_exe = Some ''/usr/bin/curl'', c_started = 0, c_last_seen = 0\<rparr>"

definition sample_status :: Status where
  "sample_status = \<lparr>s_version = ''0.1.0'', s_uptime_secs = 3, s_paused = False, s_filtering_active = True,
     s_rules_count = 0, s_tracked_connections = 2, s_tracked_processes = 1\<rparr>"

definition sample_network :: NetworkInfo where
  "sample_network = \<lparr>ni_interfaces = [], ni_gateway = None, ni_dns_servers = [], ni_ssid = None, ni_metered = None,
     ni_primary_interface = None\<rparr>"

theorem gui_state_invariant_witness:
  "let conns = [sample_flow ''a'' 5 7, sample_flow ''b'' 0 1];
       st = fold apply_event [ConnectionClosed ''a''] (apply_snapshot sample_status sample_network [] conns [] client_default)
   in distinct (cs_conn_order st) \<and> length (cs_conns st) \<le> max (length conns) MAX_CONNECTIONS"
proof -
  have "distinct (map c_key [sample_flow ''a'' 5 7, sample_flow ''b'' 0 1])" by (simp add: sample_flow_def)
  from gui_state_invariant [OF this, of "[ConnectionClosed ''a'']" sample_status sample_network "[]" "[]" client_default]
  show ?thesis unfolding Let_def by blast
qed

text \<open>The session totals are exactly the bytes of the live flows plus those of the flows
  closed since the snapshot, as long as no flow's counters go backwards and a new flow finds
  room under the cap.\<close>

theorem gui_totals:
  fixes st0 :: ClientState and status network usages conns rules
  defines "snap \<equiv> apply_snapshot status network usages conns rules st0"
  assumes "distinct (map c_key conns)" "length conns \<le> MAX_CONNECTIONS" "counts_up_run es snap"
  shows "let st = fold apply_event es snap in
    cs_total_up st = live_sum c_bytes_sent st + closed_run c_bytes_sent es snap \<and>
    cs_total_down st = live_sum c_bytes_recv st + closed_run c_bytes_recv es snap"
proof -
  note s = apply_snapshot_ok [OF assms(2), of status network usages rules st0, folded snap_def]
  have l: "live_sum f snap = sum_list (map f conns)" for f by (simp add: live_sum_def s(3) comp_def)
  have "length (cs_conns snap) \<le> MAX_CONNECTIONS" using s(3) assms(3) by simp
  from run_settled [OF s(1) assms(4) this] show ?thesis
    by (simp add: Let_def l s(5,6) algebra_simps)
qed

theorem gui_totals_witness:
  "let snap = apply_snapshot sample_status sample_network [] [sample_flow ''a'' 5 7] [] client_default;
       es = [ConnectionUpdated (sample_flow ''a'' 9 8), ConnectionOpened (sample_flow ''b'' 0 1), ConnectionClosed ''a''];
       st = fold apply_event es snap
   in cs_total_up st = live_sum c_bytes_sent st + closed_run c_bytes_sent es snap \<and>
      cs_total_down st = live_sum c_bytes_recv st + closed_run c_bytes_recv es snap"
proof -
  let ?snap = "apply_snapshot sample_status sample_network [] [sample_flow ''a'' 5 7] [] client_default"
  let ?es = "[ConnectionUpdated (sample_flow ''a'' 9 8), ConnectionOpened (sample_flow ''b'' 0 1), ConnectionClosed ''a'']"
  have "counts_up_run ?es ?snap" by code_simp
  with gui_totals [of "[sample_flow ''a'' 5 7]" ?es sample_status sample_network "[]" "[]" client_default]
  show ?thesis by (simp add: Let_def MAX_CONNECTIONS_def)
qed

text \<open>C40: At the cap, opening one more flow forgets the oldest one, and the program that
  owned it keeps counting it: its entry is unchanged, or, when it also owns the new flow, its count goes
  up by one; and the later close of the forgotten flow changes nothing, so that the count never
  comes down again.  If the evicted flow is reported again instead, all its bytes, sent and
  received, are added to the session totals a second time.\<close>

theorem cap_eviction:
  assumes "conns_ok st" "apps_ok st" "length (cs_conns st) = MAX_CONNECTIONS" "cs_conn_order st = oldest # rest"
    and "map_of (cs_conns st) oldest = Some o1" "map_of (cs_conns st) (c_key c) = None"
  defines "st1 \<equiv> apply_event (ConnectionOpened c) st" and "owner \<equiv> gui_app_key (c_exe o1) (conn_name o1)"
  shows "map_of (cs_conns st1) oldest = None \<and> length (cs_conns st1) = MAX_CONNECTIONS \<and>
    cs_total_up st1 = cs_total_up st + c_bytes_sent c \<and> cs_total_down st1 = cs_total_down st + c_bytes_recv c \<and>
    (if owner \<noteq> gui_app_key (c_exe c) (conn_name c) then map_of (cs_apps st1) owner = map_of (cs_apps st) owner
     else map_option ap_connections (map_of (cs_apps st1) owner) =
       Some ((case map_of (cs_apps st) owner of None \<Rightarrow> 0 | Some a \<Rightarrow> ap_connections a) + 1)) \<and>
    apply_event (ConnectionClosed oldest) st1 = st1 \<and>
    cs_total_up (apply_event (ConnectionUpdated o1) st1) = cs_total_up st + c_bytes_sent c + c_bytes_sent o1 \<and>
    cs_total_down (apply_event (ConnectionUpdated o1) st1) = cs_total_down st + c_bytes_recv c + c_bytes_recv o1"
proof -
  let ?order = "cs_conn_order st @ [c_key c]"
  let ?conns = "AList.update (c_key c) c (cs_conns st)"
  have wf: "hm_wf ?conns" using assms(1) by (simp add: conns_ok_def distinct_update)
  have l: "length ?conns = Suc MAX_CONNECTIONS"
    using hm.length_insert [of "cs_conns st" "c_key c" c] assms(1,3,6) by (simp add: conns_ok_def)
  have o: "distinct ?order" "set ?order = fst ` set ?conns"
    using assms(1,6) by (auto simp: conns_ok_def dom_update map_of_eq_None_iff)
  obtain order' conns' where e: "enforce_cap ?order ?conns = (order', conns')" by (meson surj_pair)
  note cap = enforce_cap_ok [OF wf o e]
  have d: "order' = rest @ [c_key c]" using cap l assms(4) by simp
  have u: "cs_conns st1 = conns'"
    using e assms(6) by (simp add: st1_def upsert_conn_def enforce_conn_cap_def Let_def)
  have "oldest \<notin> set order'" using o(1) d assms(4) by simp
  then have gone: "map_of (cs_conns st1) oldest = None"
    using conjunct1 [OF conjunct2 [OF conjunct2 [OF cap]]] unfolding u map_of_eq_None_iff by blast
  have key: "c_key o1 = oldest" using assms(1,5) by (auto simp: conns_ok_def dest: map_of_SomeD)
  have ok: "conns_ok st1" unfolding st1_def by (rule apply_event_conns [OF assms(1)])
  have t: "cs_total_up st1 = cs_total_up st + c_bytes_sent c" "cs_total_down st1 = cs_total_down st + c_bytes_recv c"
    using upsert_totals [OF assms(1), of c True] assms(6) by (simp_all add: st1_def saturating_sub_def)
  have "cs_total_up (apply_event (ConnectionUpdated o1) st1) = cs_total_up st + c_bytes_sent c + c_bytes_sent o1"
    "cs_total_down (apply_event (ConnectionUpdated o1) st1) = cs_total_down st + c_bytes_recv c + c_bytes_recv o1"
    using upsert_totals [OF ok, of o1 False] gone by (simp_all add: key t saturating_sub_def)
  moreover have "apply_event (ConnectionClosed oldest) st1 = st1" using gone by (simp add: remove_conn_def)
  moreover have "length (cs_conns st1) = MAX_CONNECTIONS"
    using conjunct1 [OF conjunct2 [OF conjunct2 [OF conjunct2 [OF cap]]]] l by (simp add: u)
  moreover have bt: "bt_wf (cs_apps st)" using assms(2) by (auto simp: apps_ok_def)
  have "map_of (cs_apps st1) k = map_of (cs_apps st) k" if "k \<noteq> gui_app_key (c_exe c) (conn_name c)" for k
    using that bt by (simp add: st1_def upsert_conn_def enforce_conn_cap_def Let_def assms(6) bt.get_insert
        entry_or_insert_wf entry_or_insert_get split: prod.split)
  moreover have "map_option ap_connections (map_of (cs_apps st1) (gui_app_key (c_exe c) (conn_name c))) =
      Some ((case map_of (cs_apps st) (gui_app_key (c_exe c) (conn_name c)) of None \<Rightarrow> 0 | Some a \<Rightarrow> ap_connections a) + 1)"
    using bt by (simp add: st1_def upsert_conn_def enforce_conn_cap_def Let_def assms(6) bt.get_insert
        entry_or_insert_wf entry_or_insert_get default_app_def split: prod.split option.split)
  ultimately show ?thesis using gone t by (cases "owner = gui_app_key (c_exe c) (conn_name c)") simp_all
qed

theorem cap_eviction_witness:
  "let conns = map (\<lambda>i. sample_flow (replicate i CHR ''x'') 5 7) [0..<MAX_CONNECTIONS];
       st = apply_snapshot sample_status sample_network [] conns [] client_default;
       st1 = apply_event (ConnectionOpened (sample_flow ''new'' 1 1)) st
   in cs_total_up (apply_event (ConnectionUpdated (sample_flow [] 5 7)) st1) = cs_total_up st + 1 + 5 \<and>
      cs_total_down (apply_event (ConnectionUpdated (sample_flow [] 5 7)) st1) = cs_total_down st + 1 + 7 \<and>
      apply_event (ConnectionClosed []) st1 = st1"
proof -
  define conns where "conns = map (\<lambda>i. sample_flow (replicate i CHR ''x'') 5 7) [0..<MAX_CONNECTIONS]"
  let ?st = "apply_snapshot sample_status sample_network [] conns [] client_default"
  have n: "[0..<MAX_CONNECTIONS] = 0 # [1..<MAX_CONNECTIONS]" using upt_conv_Cons [of 0 MAX_CONNECTIONS] by (simp add: MAX_CONNECTIONS_def del: upt_rec_numeral)
  have k: "map c_key conns = [] # map (\<lambda>i. replicate i CHR ''x'') [1..<MAX_CONNECTIONS]"
    by (simp add: conns_def n sample_flow_def comp_def)
  have "inj (\<lambda>i. replicate i CHR ''x'')" by (rule injI) (metis length_replicate)
  then have d: "distinct (map c_key conns)"
    unfolding k by (auto simp: distinct_map intro: inj_on_subset)
  note ok = apply_snapshot_ok [OF d, of sample_status sample_network "[]" "[]" client_default]
  have new: "map_of (cs_conns ?st) ''new'' = None"
  proof -
    have "''new'' \<noteq> replicate i CHR ''x''" for i by (cases i) auto
    then have "''new'' \<notin> set (map c_key conns)" by (auto simp: conns_def sample_flow_def)
    then show ?thesis by (simp add: ok(3) map_of_eq_None_iff image_image)
  qed
  have old: "map_of (cs_conns ?st) [] = Some (sample_flow [] 5 7)"
    unfolding ok(3) by (simp add: conns_def n sample_flow_def)
  have l: "length (cs_conns ?st) = MAX_CONNECTIONS" unfolding ok(3) by (simp add: conns_def)
  have key: "c_key (sample_flow ''new'' 1 1) = ''new''" by (simp add: sample_flow_def)
  have new': "map_of (cs_conns ?st) (c_key (sample_flow ''new'' 1 1)) = None" using new by (simp only: key)
  from cap_eviction [OF ok(1,2) l ok(7) [unfolded k] old new'] show ?thesis
    unfolding Let_def conns_def [symmetric] by (simp add: sample_flow_def)
qed

text \<open>After a rule event every program with a block rule is listed, as blocked, with the id
  of the first block rule for it, and a program that is neither blocked nor holds a connection
  is no longer listed.\<close>

theorem rule_events_listed:
  assumes "apps_ok st" "r \<in> set (cs_rules st')" "r_action r = Block" "take 5 (r_exe_path r) \<noteq> ''name:''"
    and "st' = apply_event (RuleAdded rule) st \<or> st' = apply_event (RuleRemoved i) st"
  shows "\<exists>a r1. map_of (cs_apps st') (display (r_exe_path r)) = Some a \<and> ap_exe a = Some (r_exe_path r) \<and> \<not> is_allowed a \<and>
      ap_block_rule_id a = Some (r_id r1) \<and> r1 \<in> set (cs_rules st') \<and> r_action r1 = Block \<and> path_eq (r_exe_path r1) (r_exe_path r) \<and>
    (\<forall>k b. map_of (cs_apps st') k = Some b \<longrightarrow> \<not> is_allowed b \<or> ap_connections b > 0)"
proof -
  obtain rules where st': "st' = refresh_rule_flags (st\<lparr>cs_rules := rules\<rparr>)" using assms(5) by auto
  let ?st = "st\<lparr>cs_rules := rules\<rparr>"
  let ?m = "fold list_blocked rules (cs_apps st)"
  have rules: "cs_rules st' = rules" by (simp add: st' frame_simps)
  have wf: "bt_wf (cs_apps ?st)" "keyed (cs_apps ?st)" using assms(1) by (simp_all add: apps_ok_alt)
  note l = list_blocked_fold [OF wf, of rules]
  note g = refresh_rule_flags_get [OF wf, folded st']
  obtain a where a: "map_of ?m (display (r_exe_path r)) = Some a"
    using l assms(2,3) rules by fastforce
  then have k: "gui_app_key (ap_exe a) (ap_name a) = display (r_exe_path r)" using l by (simp add: keyed_def)
  have exe: "ap_exe a = Some (r_exe_path r)"
  proof (cases "ap_exe a")
    case None
    with k have "r_exe_path r = ''name:'' @ ap_name a" by (simp add: gui_app_key_def display_def)
    with assms(4) show ?thesis by simp
  qed (use k in \<open>simp add: gui_app_key_def display_def\<close>)
  have "block_rule_for rules a \<noteq> None"
    using assms(2,3) exe rules by (auto simp: block_rule_for_None intro: path_eq_refl)
  then obtain r1 where r1: "block_rule_for rules a = Some r1" by blast
  have "map_of (cs_apps st') (display (r_exe_path r)) = Some (apply_rule_flags rules a)"
    using g a r1 by simp
  moreover have "\<not> is_allowed b \<or> ap_connections b > 0" if "map_of (cs_apps st') k = Some b" for k b
    using that g [of k] by (auto simp: is_allowed_def word_neq_0_conv split: option.splits if_splits)
  ultimately show ?thesis
    using block_rule_for_Some [OF r1] exe r1 by (fastforce simp: rules is_allowed_def)
qed

definition sample_rule :: "u64 \<Rightarrow> path \<Rightarrow> Rule" where
  "sample_rule i exe = \<lparr>r_id = i, r_name = ''curl'', r_exe_path = exe, r_action = Block, r_persistent = True,
     r_expires_at = None, r_profile = ''default'', r_updated_at = 0\<rparr>"

theorem rule_events_listed_witness:
  "\<exists>a. map_of (cs_apps (apply_event (RuleAdded (sample_rule 3 ''/bin/curl'')) client_default)) ''/bin/curl'' = Some a \<and>
     \<not> is_allowed a"
proof -
  let ?st = "apply_event (RuleAdded (sample_rule 3 ''/bin/curl'')) client_default"
  have "apps_ok client_default" by (simp add: apps_ok_def client_default_def bt_wf_def)
  moreover have "sample_rule 3 ''/bin/curl'' \<in> set (cs_rules ?st)" by (simp add: frame_simps)
  ultimately show ?thesis
    using rule_events_listed [of client_default "sample_rule 3 ''/bin/curl''" ?st "sample_rule 3 ''/bin/curl''" 0]
    by (auto simp: sample_rule_def display_def)
qed

text \<open>The order of the live lists is a strict total order on rows: bytes descending, then
  the second counter descending, then the name; rows only tie when they are equal.\<close>

theorem cmp_rows_order:
  "(cmp_rows a b = Equal \<longleftrightarrow> a = b) \<and> (cmp_rows a b = Less \<longleftrightarrow> cmp_rows b a = Greater) \<and>
   (\<not> (cmp_rows a b = Less \<and> cmp_rows b c = Less \<and> cmp_rows a c \<noteq> Less)) \<and>
   (cmp_rows a b = Less \<longleftrightarrow> fst a > fst b \<or> fst a = fst b \<and>
      (fst (snd a) > fst (snd b) \<or> fst (snd a) = fst (snd b) \<and> snd (snd a) < snd (snd b)))"
proof -
  obtain a0 a1 a2 where a: "a = (a0, a1, a2)" by (cases a)
  obtain b0 b1 b2 where b: "b = (b0, b1, b2)" by (cases b)
  obtain c0 c1 c2 where c: "c = (c0, c1, c2)" by (cases c)
  have less: "cmp_rows a b = Less \<longleftrightarrow> fst a > fst b \<or> fst a = fst b \<and>
      (fst (snd a) > fst (snd b) \<or> fst (snd a) = fst (snd b) \<and> snd (snd a) < snd (snd b))" for a b
    by (cases a; cases b) (auto simp: cmp_def then_with_def)
  have "cmp_rows a b = Equal \<longleftrightarrow> a = b" "cmp_rows a b = Less \<longleftrightarrow> cmp_rows b a = Greater"
    by (auto simp: a b cmp_def then_with_def)
  moreover have "\<not> (cmp_rows a b = Less \<and> cmp_rows b c = Less \<and> cmp_rows a c \<noteq> Less)"
    unfolding less by (auto simp: a b c)
  ultimately show ?thesis using less by blast
qed

end
