(* ===== verification/GuiListing.thy ===== *)
theory GuiListing
  imports GuiState
begin

text \<open>
  Every block rule the GUI knows has an application in its list, whatever snapshots and events it
  has folded: \<open>refresh_rule_flags\<close> lists it, and a blocked application is never dropped
  (\<open>crates/gui/src/state.rs\<close>).  The one exception are paths that look like the keys of applications without
  an executable.
\<close>

section \<open>Specification\<close>

definition listable :: "Rule \<Rightarrow> bool" where
  "listable r \<longleftrightarrow> r_action r = Block \<and> take 5 (r_exe_path r) \<noteq> ''name:''"

definition rules_listed :: "ClientState \<Rightarrow> bool" where
  "rules_listed st \<longleftrightarrow> (\<forall>r \<in> set (cs_rules st). listable r \<longrightarrow> map_of (cs_apps st) (r_exe_path r) \<noteq> None)"

section \<open>Lemmas\<close>

lemma key_exe:
  assumes "gui_app_key exe name = path" "take 5 path \<noteq> ''name:''"
  shows "exe = Some path"
proof (cases exe)
  case None
  with assms(1) have "path = ''name:'' @ name" by (simp add: gui_app_key_def display_def)
  with assms(2) show ?thesis by simp
qed (use assms(1) in \<open>simp add: gui_app_key_def display_def\<close>)

text \<open>An application listed for a block rule has the rule's executable, and so is blocked.\<close>

lemma listed_blocked:
  assumes "keyed apps" "map_of apps (r_exe_path r) = Some a" "listable r" "r \<in> set rules"
  shows "ap_exe a = Some (r_exe_path r)" "block_rule_for rules a \<noteq> None"
proof -
  show exe: "ap_exe a = Some (r_exe_path r)"
    using assms(1-3) key_exe [of "ap_exe a" "ap_name a"] by (simp add: keyed_def listable_def)
  show "block_rule_for rules a \<noteq> None"
    using assms(3,4) exe by (auto simp: block_rule_for_None listable_def intro: path_eq_refl)
qed

lemma refresh_listed:
  assumes "bt_wf (cs_apps st)" "keyed (cs_apps st)"
  shows "rules_listed (refresh_rule_flags st)"
  unfolding rules_listed_def frame_simps
proof (intro ballI impI)
  fix r assume r: "r \<in> set (cs_rules st)" "listable r"
  let ?m = "fold list_blocked (cs_rules st) (cs_apps st)"
  note l = list_blocked_fold [OF assms, of "cs_rules st"]
  obtain a where a: "map_of ?m (r_exe_path r) = Some a"
    using l r by (auto simp: listable_def display_def)
  have "block_rule_for (cs_rules st) a \<noteq> None" using listed_blocked(2) [OF _ a r(2,1)] l by blast
  with a show "map_of (cs_apps (refresh_rule_flags st)) (r_exe_path r) \<noteq> None"
    using refresh_rule_flags_get [OF assms, of "r_exe_path r"] by simp
qed

lemma snapshot_listed: "rules_listed (apply_snapshot status network usages conns rules st)"
proof -
  let ?apps = "fold (\<lambda>u. bt_insert (gui_app_key (au_exe u) (au_name u)) (snapshot_app u)) usages []"
  have "bt_wf ?apps" "keyed ?apps" using snapshot_apps [of "[]" usages] by (simp_all add: keyed_def bt_wf_def)
  then have "rules_listed (refresh_rule_flags (st'\<lparr>cs_apps := ?apps\<rparr>))" for st' :: ClientState
    by (intro refresh_listed) simp_all
  then show ?thesis
    by (simp add: apply_snapshot_def Let_def rules_listed_def map_apps_def map_of_map_val)
qed

lemma upsert_listed:
  assumes "apps_ok st" "rules_listed st"
  shows "rules_listed (upsert_conn conn b st)"
proof -
  let ?key = "gui_app_key (c_exe conn) (conn_name conn)"
  let ?apps = "entry_or_insert ?key (default_app (conn_name conn) (c_exe conn)) (cs_apps st)"
  have wf: "bt_wf (cs_apps st)" using assms(1) by (simp add: apps_ok_def)
  obtain app' where "cs_apps (upsert_conn conn b st) = bt_insert ?key app' ?apps" "cs_rules (upsert_conn conn b st) = cs_rules st"
    by (auto simp: upsert_conn_def enforce_conn_cap_def Let_def split_def)
  with assms(2) wf show ?thesis
    by (auto simp: rules_listed_def bt.get_insert entry_or_insert_get entry_or_insert_wf)
qed

lemma remove_listed:
  assumes "apps_ok st" "rules_listed st"
  shows "rules_listed (remove_conn key st)"
proof -
  have ok: "bt_wf (cs_apps st)" "keyed (cs_apps st)" using assms(1) by (simp_all add: apps_ok_alt)
  have blocked: "ap_blocked a" if "map_of (cs_apps st) (r_exe_path r) = Some a" "listable r" "r \<in> set (cs_rules st)" for r a
    using listed_blocked(2) [OF ok(2) that] assms(1) that(1) by (auto simp: apps_ok_alt apply_rule_flags_iff)
  have rules: "cs_rules (remove_conn key st) = cs_rules st"
    by (simp add: remove_conn_def Let_def split: option.split)
  have "map_of (cs_apps (remove_conn key st)) (r_exe_path r) \<noteq> None" if r: "listable r" "r \<in> set (cs_rules st)" for r
  proof -
    obtain a where a: "map_of (cs_apps st) (r_exe_path r) = Some a" using assms(2) r by (auto simp: rules_listed_def)
    with blocked [OF a r] ok(1) show ?thesis
      by (auto simp: remove_conn_def Let_def bt.get_insert bt.get_remove split: option.split)
  qed
  then show ?thesis by (simp add: rules_listed_def rules)
qed

lemma event_listed:
  assumes "apps_ok st" "rules_listed st"
  shows "rules_listed (apply_event e st)"
  using assms refresh_listed
  by (cases e) (simp_all add: upsert_listed remove_listed apps_ok_alt, simp_all add: rules_listed_def)

lemma fold_event_listed: "apps_ok st \<Longrightarrow> rules_listed st \<Longrightarrow> rules_listed (fold apply_event es st)"
  by (induction es arbitrary: st) (simp_all add: event_listed apply_event_apps del: apply_event.simps)

end
