(* ===== verification/IpcServer.thy ===== *)
theory IpcServer
  imports Framing Dispatch "HOL-Library.Sublist"
begin

text \<open>
  The daemon's socket server (\<open>crates/daemon/src/ipc.rs\<close>): one request and one response per
  connection, or a stream of events after \<^term>\<open>Subscribe\<close>.  The JSON codecs are parameters
  (\<open>dec\<close> for requests, \<open>enc\<close> for responses); what \<open>accept\<close> and the broadcast channel return is
  a list.
\<close>

section \<open>Definitions\<close>

subsection \<open>Binding the socket\<close>

text \<open>The sockets of the file system with their permission bits; \<open>umask_mode\<close> is what a new
  socket gets.\<close>

type_synonym sockets = "path \<Rightarrow> nat option"

record serve_env =
  sv_mkdir :: bool
  sv_remove :: bool
  sv_bind :: bool
  sv_chmod :: bool
  sv_umask_mode :: nat

text \<open>\<open>0o666\<close>.\<close>

definition socket_mode :: nat where "socket_mode = 6 * 64 + 6 * 8 + 6"

definition set_permissions :: "bool \<Rightarrow> path \<Rightarrow> sockets \<Rightarrow> sockets" where
  "set_permissions ok path s = (if ok then s(path \<mapsto> socket_mode) else s)"

definition serve :: "serve_env \<Rightarrow> Config \<Rightarrow> sockets \<Rightarrow> path option \<times> sockets" where
  "serve env config s =
     (let path = cf_socket_path config in
      if has_parent path \<and> \<not> sv_mkdir env then (None, s)
      else if s path \<noteq> None \<and> \<not> sv_remove env then (None, s)
      else (let s = s(path := None) in
        if \<not> sv_bind env then (None, s)
        else (Some path, set_permissions (sv_chmod env) path (s(path \<mapsto> sv_umask_mode env)))))"

subsection \<open>One client\<close>

text \<open>What \<open>recv\<close> on the broadcast channel returns.\<close>

datatype recv_result = Got Event | Lagged nat | SenderGone

text \<open>The loop ends with an error, or is still waiting for the next event (\<^term>\<open>None\<close>).\<close>

fun stream_events :: "(Response \<Rightarrow> bytes option) \<Rightarrow> recv_result list \<Rightarrow> writer \<Rightarrow> writer \<times> IpcError option" where
  "stream_events enc [] w = (w, None)"
| "stream_events enc (Got event # rs) w =
     (case write_frame enc (REvent event) w of
        (w, Inl e) \<Rightarrow> (w, Some e)
      | (w, Inr _) \<Rightarrow> stream_events enc rs w)"
| "stream_events enc (Lagged n # rs) w = stream_events enc rs w"
| "stream_events enc (SenderGone # rs) w = (w, Some Closed)"

record client_io =
  io_reader :: reader
  io_writer :: writer
  io_events :: "recv_result list"
  io_step :: step_env

definition handle_client :: "externals \<Rightarrow> (bytes \<Rightarrow> Request option) \<Rightarrow> (Response \<Rightarrow> bytes option) \<Rightarrow> client_io
    \<Rightarrow> Daemon \<Rightarrow> (writer \<times> IpcError option \<times> Daemon) may_panic" where
  "handle_client ex dec enc c d =
     (case read_frame dec (io_reader c) of
        Inl e \<Rightarrow> Some (io_writer c, Some e, d)
      | Inr (request, _) \<Rightarrow>
          if request = Subscribe then
            (case stream_events enc (io_events c) (io_writer c) of (w, r) \<Rightarrow> Some (w, r, d))
          else (case dispatch ex (io_step c) request d of
              None \<Rightarrow> None
            | Some (response, d) \<Rightarrow>
                (case write_frame enc response (io_writer c) of
                   (w, Inr _) \<Rightarrow> Some (w, Some Closed, d)
                 | (w, Inl e) \<Rightarrow> Some (w, Some e, d))))"

text \<open>The accept loop: every connection is served by a task of its own, whose requests interleave with
  those of the others as steps of \<open>System\<close>; a failing accept is slept on, and nothing ends the loop.\<close>

datatype accept_result = Accepted client_io | AcceptFails

datatype accept_effect = SpawnClient client_io | SleepMillis nat

fun accept_loop :: "accept_result list \<Rightarrow> accept_effect list" where
  "accept_loop [] = []"
| "accept_loop (Accepted c # as) = SpawnClient c # accept_loop as"
| "accept_loop (AcceptFails # as) = SleepMillis 100 # accept_loop as"

section \<open>Specification\<close>

text \<open>What is documented of the broadcast channel: a receiver gets every event sent after it
  subscribed, in order, except that when it falls behind it is told how many it missed.  The
  channel does not close while the daemon holds the sender.\<close>

fun delivers :: "Event list \<Rightarrow> recv_result list \<Rightarrow> bool" where
  "delivers es [] = True"
| "delivers es (Got e # rs) = (case es of [] \<Rightarrow> False | e' # es \<Rightarrow> e' = e \<and> delivers es rs)"
| "delivers es (Lagged n # rs) = (0 < n \<and> n \<le> length es \<and> delivers (drop n es) rs)"
| "delivers es (SenderGone # rs) = False"

fun received :: "recv_result list \<Rightarrow> Event list" where
  "received [] = []"
| "received (Got e # rs) = e # received rs"
| "received (_ # rs) = received rs"

fun skipped :: "recv_result list \<Rightarrow> nat" where
  "skipped [] = 0"
| "skipped (Lagged n # rs) = n + skipped rs"
| "skipped (_ # rs) = skipped rs"

section \<open>Lemmas\<close>

lemma delivers_subseq: "delivers es rs \<Longrightarrow> \<exists>rest. subseq (received rs) es \<and> subseq (received rs @ rest) es \<and>
    length es = length (received rs) + skipped rs + length rest"
proof (induction es rs rule: delivers.induct)
  case (1 es)
  show ?case by (rule exI [of _ es]) simp
next
  case (2 es e rs)
  then obtain es' where es: "es = e # es'" "delivers es' rs" by (cases es) auto
  with 2 show ?case by auto
next
  case (3 es n rs)
  then obtain rest where r: "subseq (received rs @ rest) (drop n es)" "subseq (received rs) (drop n es)"
    "length (drop n es) = length (received rs) + skipped rs + length rest" by auto
  have "subseq (drop n es) es" by (metis append_take_drop_id list_emb_append2 subseq_order.order_refl)
  with r 3 show ?case by (intro exI [of _ rest]) (auto intro: subseq_order.trans)
qed simp

lemma delivers_no_lag: "delivers es rs \<Longrightarrow> skipped rs = 0 \<Longrightarrow> \<exists>rest. es = received rs @ rest"
  by (induction es rs rule: delivers.induct) (auto split: list.splits)

lemma stream_events_frames:
  assumes "\<And>e. e \<in> set (received rs) \<Longrightarrow> enc (REvent e) = Some (body e)" "wr_limit w = None" "SenderGone \<notin> set rs"
  shows "stream_events enc rs w =
    (w\<lparr>wr_out := wr_out w @ concat (map (\<lambda>e. frame_of (body e)) (received rs))\<rparr>, None)"
  using assms by (induction enc rs w rule: stream_events.induct) (simp_all add: write_frame_ok)

lemma delivers_not_gone: "delivers es rs \<Longrightarrow> SenderGone \<notin> set rs"
  by (induction es rs rule: delivers.induct) (auto split: list.splits)

end
