(* ===== verification/GuiClient.thy ===== *)
theory GuiClient
  imports IpcServer GuiState
begin

text \<open>
  The GUI's connection to the daemon (\<open>crates/gui/src/client.rs\<close>): one request per connection,
  the session that subscribes, fetches a snapshot and then forwards events while it serves the
  UI's commands, and the loop that reconnects.  The JSON codecs and the texts of library errors
  are parameters.
\<close>

section \<open>Definitions\<close>

record Snapshot =
  sn_status :: Status
  sn_network :: NetworkInfo
  sn_top :: "AppUsage list"
  sn_conns :: "ConnectionInfo list"
  sn_rules :: "Rule list"

datatype ClientMsg =
    Connected Snapshot
  | Disconnected
  | EventMsg Event
  | CommandFailed string

datatype GuiCmd =
    PauseCmd bool
  | BlockCmd string path
  | UnblockCmd u64
  | Reconnect
  | RefreshTrayIcon

text \<open>The codec of the GUI's side, and the \<open>Display\<close> and \<open>Debug\<close> texts.\<close>

record codec =
  co_enc :: "Request \<Rightarrow> bytes option"
  co_dec :: "bytes \<Rightarrow> Response option"
  co_error :: "IpcError \<Rightarrow> string"
  co_debug :: "Response \<Rightarrow> string"

text \<open>A connection attempt: the error's text, or the stream: how it takes what is written, and
  what the daemon sends back once it has read that.\<close>

datatype connection = Refused string | Stream writer "bytes \<Rightarrow> reader"

subsection \<open>One request\<close>

definition connect :: "path \<Rightarrow> connection \<Rightarrow> string + (writer \<times> (bytes \<Rightarrow> reader))" where
  "connect socket c =
     (case c of
        Refused e \<Rightarrow> Inl (''cannot connect to '' @ display socket @ '': '' @ e)
      | Stream w answer \<Rightarrow> Inr (w, answer))"

definition one_shot :: "codec \<Rightarrow> path \<Rightarrow> connection \<Rightarrow> Request \<Rightarrow> string + Response" where
  "one_shot co socket c request =
     (case connect socket c of
        Inl e \<Rightarrow> Inl e
      | Inr (w, answer) \<Rightarrow>
          (case write_frame (co_enc co) request w of
             (_, Inl e) \<Rightarrow> Inl (''request failed: '' @ co_error co e)
           | (w, Inr _) \<Rightarrow>
               (case read_frame (co_dec co) (answer (wr_out w)) of
                  Inl e \<Rightarrow> Inl (''response failed: '' @ co_error co e)
                | Inr (response, _) \<Rightarrow> Inr response)))"

definition unexpected :: "codec \<Rightarrow> string \<Rightarrow> Response \<Rightarrow> string" where
  "unexpected co what other = ''unexpected response to '' @ what @ '': '' @ co_debug co other"

definition fetch_status :: "codec \<Rightarrow> path \<Rightarrow> connection \<Rightarrow> string + Status" where
  "fetch_status co socket c =
     (case one_shot co socket c GetStatus of
        Inl e \<Rightarrow> Inl e
      | Inr response \<Rightarrow> (case response of RStatus v \<Rightarrow> Inr v | other \<Rightarrow> Inl (unexpected co ''GetStatus'' other)))"

definition fetch_network :: "codec \<Rightarrow> path \<Rightarrow> connection \<Rightarrow> string + NetworkInfo" where
  "fetch_network co socket c =
     (case one_shot co socket c GetNetwork of
        Inl e \<Rightarrow> Inl e
      | Inr response \<Rightarrow> (case response of RNetwork v \<Rightarrow> Inr v | other \<Rightarrow> Inl (unexpected co ''GetNetwork'' other)))"

definition fetch_top :: "codec \<Rightarrow> path \<Rightarrow> connection \<Rightarrow> string + AppUsage list" where
  "fetch_top co socket c =
     (case one_shot co socket c GetTop of
        Inl e \<Rightarrow> Inl e
      | Inr response \<Rightarrow> (case response of RTop v \<Rightarrow> Inr v | other \<Rightarrow> Inl (unexpected co ''GetTop'' other)))"

definition fetch_connections :: "codec \<Rightarrow> path \<Rightarrow> connection \<Rightarrow> string + ConnectionInfo list" where
  "fetch_connections co socket c =
     (case one_shot co socket c GetConnections of
        Inl e \<Rightarrow> Inl e
      | Inr response \<Rightarrow> (case response of RConnections v \<Rightarrow> Inr v | other \<Rightarrow> Inl (unexpected co ''GetConnections'' other)))"

definition fetch_rules :: "codec \<Rightarrow> path \<Rightarrow> connection \<Rightarrow> string + Rule list" where
  "fetch_rules co socket c =
     (case one_shot co socket c ListRules of
        Inl e \<Rightarrow> Inl e
      | Inr response \<Rightarrow> (case response of RRules v \<Rightarrow> Inr v | other \<Rightarrow> Inl (unexpected co ''ListRules'' other)))"

subsection \<open>Commands\<close>

fun request_of :: "GuiCmd \<Rightarrow> Request option" where
  "request_of (PauseCmd paused) = Some (SetPaused paused)"
| "request_of (BlockCmd name exe) = Some (AddRule \<lparr>i_name = name, i_exe_path = exe, i_action = Block,
     i_persistent = True, i_ttl_secs = None\<rparr>)"
| "request_of (UnblockCmd rule_id) = Some (RemoveRule rule_id)"
| "request_of Reconnect = None"
| "request_of RefreshTrayIcon = None"

definition send_command :: "codec \<Rightarrow> path \<Rightarrow> connection \<Rightarrow> GuiCmd \<Rightarrow> string + unit" where
  "send_command co socket c cmd =
     (case request_of cmd of
        None \<Rightarrow> Inr ()
      | Some request \<Rightarrow>
          (case one_shot co socket c request of
             Inl e \<Rightarrow> Inl e
           | Inr response \<Rightarrow>
               (case response of
                  ROk \<Rightarrow> Inr ()
                | RError message \<Rightarrow> Inl (''daemon error: '' @ message)
                | other \<Rightarrow> Inl (''unexpected response: '' @ co_debug co other))))"

definition try_command :: "codec \<Rightarrow> path \<Rightarrow> connection \<Rightarrow> GuiCmd \<Rightarrow> ClientMsg list" where
  "try_command co socket c cmd =
     (case send_command co socket c cmd of Inl e \<Rightarrow> [CommandFailed e] | Inr _ \<Rightarrow> [])"

text \<open>In both loops \<^term>\<open>Reconnect\<close> and \<^term>\<open>RefreshTrayIcon\<close> are matched before; they send nothing.\<close>

definition serve_command :: "codec \<Rightarrow> path \<Rightarrow> connection \<Rightarrow> GuiCmd \<Rightarrow> ClientMsg list" where
  "serve_command co socket c cmd =
     (case cmd of Reconnect \<Rightarrow> [] | RefreshTrayIcon \<Rightarrow> [] | _ \<Rightarrow> try_command co socket c cmd)"

subsection \<open>The event stream\<close>

text \<open>A poll of the \<open>read_frame\<close> future that has taken \<open>buf\<close> off the socket: it is still waiting,
  or it is done.\<close>

definition poll_frame :: "(bytes \<Rightarrow> 'a option) \<Rightarrow> bytes \<Rightarrow> (IpcError + 'a \<times> bytes) option" where
  "poll_frame dec buf =
     (if length buf < 4 then None
      else (let len = u32_from_be (take 4 buf) in
        if len > MAX_FRAME then Some (Inl (FrameTooLarge len))
        else if length buf < 4 + unat len then None
        else (case dec (take (unat len) (drop 4 buf)) of
            None \<Rightarrow> Some (Inl Json)
          | Some v \<Rightarrow> Some (Inr (v, drop (4 + unat len) buf)))))"

lemma poll_frame_shrinks: "poll_frame dec buf = Some (Inr (v, rest)) \<Longrightarrow> length rest < length buf"
  by (auto simp: poll_frame_def Let_def split: if_splits option.splits)

text \<open>Every complete frame is handled; the last future is left waiting with what it has.\<close>

function drain :: "(bytes \<Rightarrow> Response option) \<Rightarrow> bytes \<Rightarrow> ClientMsg list \<times> (IpcError + bytes)" where
  "drain dec buf =
     (case poll_frame dec buf of
        None \<Rightarrow> ([], Inr buf)
      | Some (Inl e) \<Rightarrow> ([], Inl e)
      | Some (Inr (response, rest)) \<Rightarrow>
          (let (msgs, r) = drain dec rest
           in ((case response of REvent event \<Rightarrow> [EventMsg event] | _ \<Rightarrow> []) @ msgs, r)))"
  by pat_completeness auto
termination
  by (relation "measure (\<lambda>(dec, buf). length buf)") (auto dest: poll_frame_shrinks)

declare drain.simps [simp del]

text \<open>What wakes the \<open>select!\<close>: bytes for the reader, a command, the end of the stream (with an
  I/O error or not), the UI hanging up.\<close>

datatype session_input = Data bytes | Command GuiCmd connection | Hangup bool | UiGone

definition hangup_error :: "bool \<Rightarrow> bytes \<Rightarrow> IpcError" where
  "hangup_error broken partial =
     (if broken then Io OtherIo else if length partial < 4 then Closed else Io UnexpectedEof)"

text \<open>\<open>partial\<close> is what the current \<open>read_frame\<close> future has taken off the socket.  When another
  branch completes, \<open>select!\<close> drops that future, and the next iteration starts a new one.\<close>

fun session_loop :: "codec \<Rightarrow> path \<Rightarrow> bytes \<Rightarrow> session_input list \<Rightarrow> ClientMsg list \<times> (string + unit) option" where
  "session_loop co socket partial [] = ([], None)"
| "session_loop co socket partial (Data bs # is) =
     (case drain (co_dec co) (partial @ bs) of
        (msgs, Inl e) \<Rightarrow> (msgs, Some (Inl (''event stream lost: '' @ co_error co e)))
      | (msgs, Inr partial) \<Rightarrow> (let (msgs', r) = session_loop co socket partial is in (msgs @ msgs', r)))"
| "session_loop co socket partial (Command cmd c # is) =
     (let (msgs, r) = session_loop co socket [] is in (serve_command co socket c cmd @ msgs, r))"
| "session_loop co socket partial (Hangup broken # is) =
     ([], Some (Inl (''event stream lost: '' @ co_error co (hangup_error broken partial))))"
| "session_loop co socket partial (UiGone # is) = ([], Some (Inr ()))"

record session_env =
  se_subscribe :: connection
  se_status :: connection
  se_network :: connection
  se_top :: connection
  se_conns :: connection
  se_rules :: connection
  se_inputs :: "session_input list"

definition subscribe :: "codec \<Rightarrow> path \<Rightarrow> connection \<Rightarrow> string + unit" where
  "subscribe co socket c =
     (case connect socket c of
        Inl e \<Rightarrow> Inl e
      | Inr (w, _) \<Rightarrow>
          (case write_frame (co_enc co) Subscribe w of
             (_, Inl e) \<Rightarrow> Inl (''subscribe failed: '' @ co_error co e)
           | (_, Inr _) \<Rightarrow> Inr ()))"

text \<open>The initial fetch, in the order of the code, each on a connection of its own.\<close>

definition fetch_snapshot :: "codec \<Rightarrow> path \<Rightarrow> session_env \<Rightarrow> string + Snapshot" where
  "fetch_snapshot co socket env =
     (case fetch_status co socket (se_status env) of Inl e \<Rightarrow> Inl e | Inr status \<Rightarrow>
      (case fetch_network co socket (se_network env) of Inl e \<Rightarrow> Inl e | Inr network \<Rightarrow>
       (case fetch_top co socket (se_top env) of Inl e \<Rightarrow> Inl e | Inr usages \<Rightarrow>
        (case fetch_connections co socket (se_conns env) of Inl e \<Rightarrow> Inl e | Inr conns \<Rightarrow>
         (case fetch_rules co socket (se_rules env) of Inl e \<Rightarrow> Inl e | Inr rules \<Rightarrow>
          Inr \<lparr>sn_status = status, sn_network = network, sn_top = usages, sn_conns = conns, sn_rules = rules\<rparr>)))))"

definition session :: "codec \<Rightarrow> path \<Rightarrow> session_env \<Rightarrow> ClientMsg list \<times> (string + unit) option" where
  "session co socket env =
     (case subscribe co socket (se_subscribe env) of
        Inl e \<Rightarrow> ([], Some (Inl e))
      | Inr _ \<Rightarrow>
          (case fetch_snapshot co socket env of
             Inl e \<Rightarrow> ([], Some (Inl e))
           | Inr snapshot \<Rightarrow>
               (let (msgs, r) = session_loop co socket [] (se_inputs env) in (Connected snapshot # msgs, r))))"

subsection \<open>Reconnecting\<close>

text \<open>While it waits: the two seconds are over, a command, the UI hanging up.\<close>

datatype backoff_input = Elapsed | BackoffCommand GuiCmd connection | BackoffUiGone

text \<open>What it sends, and whether it goes on to the next session (\<^term>\<open>None\<close>: still waiting).\<close>

fun backoff :: "codec \<Rightarrow> path \<Rightarrow> backoff_input list \<Rightarrow> ClientMsg list \<times> bool option" where
  "backoff co socket [] = ([], None)"
| "backoff co socket (Elapsed # is) = ([], Some True)"
| "backoff co socket (BackoffCommand cmd c # is) =
     (if cmd = Reconnect then ([], Some True)
      else (let (msgs, r) = backoff co socket is in (serve_command co socket c cmd @ msgs, r)))"
| "backoff co socket (BackoffUiGone # is) = ([], Some False)"

fun run :: "codec \<Rightarrow> path \<Rightarrow> (session_env \<times> backoff_input list) list \<Rightarrow> ClientMsg list" where
  "run co socket [] = []"
| "run co socket ((env, bs) # rest) =
     (case session co socket env of
        (msgs, None) \<Rightarrow> msgs
      | (msgs, Some _) \<Rightarrow>
          (case backoff co socket bs of
             (msgs', Some True) \<Rightarrow> msgs @ [Disconnected] @ msgs' @ run co socket rest
           | (msgs', _) \<Rightarrow> msgs @ [Disconnected] @ msgs'))"

text \<open>The client's thread: without a runtime it only says why.\<close>

definition client_thread :: "codec \<Rightarrow> path \<Rightarrow> string option \<Rightarrow> (session_env \<times> backoff_input list) list \<Rightarrow> ClientMsg list" where
  "client_thread co socket runtime_error sessions =
     (case runtime_error of
        Some e \<Rightarrow> [CommandFailed (''internal error: '' @ e)]
      | None \<Rightarrow> run co socket sessions)"

section \<open>Lemmas\<close>

subsection \<open>Frames in pieces\<close>

lemma poll_frame_complete:
  assumes "length body \<le> unat MAX_FRAME" "dec body = Some v"
  shows "poll_frame dec (frame_of body @ rest) = Some (Inr (v, rest))"
proof -
  have m: "unat MAX_FRAME = 16777216" by (simp add: MAX_FRAME_def)
  have u: "unat (of_nat (length body) :: u32) = length body"
    using assms(1) m by (simp add: unat_of_nat take_bit_eq_mod)
  have "\<not> of_nat (length body) > MAX_FRAME" using assms(1) by (simp add: word_less_nat_alt u)
  then show ?thesis
    using assms(2) by (simp add: poll_frame_def frame_of_def u32_be_roundtrip u Let_def)
qed

lemma poll_frame_partial:
  assumes "length body \<le> unat MAX_FRAME" "n < length (frame_of body)"
  shows "poll_frame dec (take n (frame_of body)) = None"
proof (cases "n < 4")
  case True
  then show ?thesis by (simp add: poll_frame_def frame_of_def)
next
  case False
  have m: "unat MAX_FRAME = 16777216" by (simp add: MAX_FRAME_def)
  have u: "unat (of_nat (length body) :: u32) = length body"
    using assms(1) m by (simp add: unat_of_nat take_bit_eq_mod)
  have "\<not> of_nat (length body) > MAX_FRAME" using assms(1) by (simp add: word_less_nat_alt u)
  then show ?thesis
    using assms(2) False by (simp add: poll_frame_def frame_of_def u32_be_roundtrip u Let_def)
qed

text \<open>More bytes do not change what a poll has found.\<close>

lemma poll_frame_append:
  "poll_frame dec a = Some (Inl e) \<Longrightarrow> poll_frame dec (a @ b) = Some (Inl e)"
  "poll_frame dec a = Some (Inr (v, rest)) \<Longrightarrow> poll_frame dec (a @ b) = Some (Inr (v, rest @ b))"
  by (auto simp: poll_frame_def Let_def split: if_splits option.splits)

lemma drain_append:
  "drain dec (a @ b) =
     (case drain dec a of
        (msgs, Inl e) \<Rightarrow> (msgs, Inl e)
      | (msgs, Inr rest) \<Rightarrow> (msgs @ fst (drain dec (rest @ b)), snd (drain dec (rest @ b))))"
proof (induction dec a rule: drain.induct)
  case (1 dec a)
  show ?case
  proof (cases "poll_frame dec a")
    case None
    then show ?thesis by (simp add: drain.simps [of dec a])
  next
    case (Some r)
    show ?thesis
    proof (cases r)
      case (Inl e)
      with Some poll_frame_append(1) [of dec a e b] show ?thesis
        by (simp add: drain.simps [of dec a] drain.simps [of dec "a @ b"])
    next
      case (Inr p)
      obtain response rest where p: "p = (response, rest)" by (cases p)
      have "drain dec (rest @ b) =
          (case drain dec rest of
             (msgs, Inl e) \<Rightarrow> (msgs, Inl e)
           | (msgs, Inr rest') \<Rightarrow> (msgs @ fst (drain dec (rest' @ b)), snd (drain dec (rest' @ b))))"
        by (rule "1.IH" [OF Some Inr p [symmetric]])
      with Some Inr p poll_frame_append(2) [of dec a response rest b] show ?thesis
        by (simp add: drain.simps [of dec a] drain.simps [of dec "a @ b"] split: prod.splits sum.splits)
    qed
  qed
qed

lemma drain_frames:
  assumes "\<And>e. e \<in> set es \<Longrightarrow> dec (body e) = Some (REvent e) \<and> length (body e) \<le> unat MAX_FRAME"
  shows "drain dec (concat (map (\<lambda>e. frame_of (body e)) es) @ rest) =
    (map EventMsg es @ fst (drain dec rest), snd (drain dec rest))"
  using assms
proof (induction es)
  case (Cons e es)
  then have "poll_frame dec (frame_of (body e) @ (concat (map (\<lambda>e. frame_of (body e)) es) @ rest)) =
      Some (Inr (REvent e, concat (map (\<lambda>e. frame_of (body e)) es) @ rest))"
    by (intro poll_frame_complete) auto
  with Cons show ?case by (simp add: drain.simps [of dec "frame_of (body e) @ _"] split: prod.splits)
qed simp

lemma drain_Nil [simp]: "drain dec [] = ([], Inr [])"
  by (simp add: drain.simps poll_frame_def)

subsection \<open>The session\<close>

text \<open>How the bytes were cut into pieces does not matter: the session behaves as if they had
  arrived at once.\<close>

lemma drain_waits: "snd (drain dec a) = Inr p \<Longrightarrow> poll_frame dec p = None"
proof (induction dec a rule: drain.induct)
  case (1 dec a)
  show ?case
  proof (cases "poll_frame dec a")
    case None
    with "1.prems" show ?thesis by (simp add: drain.simps [of dec a])
  next
    case (Some r)
    then obtain response rest where r: "r = Inr (response, rest)"
      using "1.prems" by (cases r) (auto simp: drain.simps [of dec a])
    with Some "1.prems" have "snd (drain dec rest) = Inr p"
      by (simp add: drain.simps [of dec a] split: prod.splits)
    with "1.IH" [OF Some r refl] show ?thesis by simp
  qed
qed

lemma session_chunks:
  assumes "poll_frame (co_dec co) partial = None"
  shows "session_loop co socket partial (map Data chunks @ is) =
     session_loop co socket partial (Data (concat chunks) # is)"
  using assms
proof (induction chunks arbitrary: partial)
  case Nil
  then show ?case by (simp add: drain.simps split: prod.splits)
next
  case (Cons c chunks)
  obtain msgs r where d: "drain (co_dec co) (partial @ c) = (msgs, r)" by (meson surj_pair)
  have app: "drain (co_dec co) (partial @ c @ concat chunks) =
      (case r of Inl e \<Rightarrow> (msgs, Inl e)
       | Inr rest \<Rightarrow> (msgs @ fst (drain (co_dec co) (rest @ concat chunks)), snd (drain (co_dec co) (rest @ concat chunks))))"
    using drain_append [of "co_dec co" "partial @ c" "concat chunks"] d by simp
  show ?case
  proof (cases r)
    case (Inl e)
    with d app show ?thesis by simp
  next
    case (Inr rest)
    have "poll_frame (co_dec co) rest = None" using drain_waits [of "co_dec co" "partial @ c" rest] d Inr by simp
    from Cons.IH [OF this] d app Inr show ?thesis by (auto split: prod.splits sum.splits)
  qed
qed

lemma session_frames:
  assumes "\<And>e. e \<in> set es \<Longrightarrow> co_dec co (body e) = Some (REvent e) \<and> length (body e) \<le> unat MAX_FRAME"
    and "concat chunks = concat (map (\<lambda>e. frame_of (body e)) es)"
  shows "session_loop co socket [] (map Data chunks @ is) =
    (map EventMsg es @ fst (session_loop co socket [] is), snd (session_loop co socket [] is))"
proof -
  have n: "poll_frame (co_dec co) [] = None" by (simp add: poll_frame_def)
  have "drain (co_dec co) (concat (map (\<lambda>e. frame_of (body e)) es)) = (map EventMsg es, Inr [])"
    using drain_frames [of es "co_dec co" body "[]"] assms(1) by simp
  then show ?thesis by (simp add: session_chunks [OF n] assms(2) split: prod.splits)
qed

lemma session_streams:
  assumes "decodes_encoded enc (co_dec co)"
    and "\<forall>e \<in> set es. \<exists>body. enc (REvent e) = Some body \<and> length body \<le> unat MAX_FRAME"
    and "stream_events enc (map Got es) \<lparr>wr_out = [], wr_limit = None\<rparr> = (w, None)"
    and "concat chunks = wr_out w"
  shows "session_loop co socket [] (map Data chunks @ is) =
    (map EventMsg es @ fst (session_loop co socket [] is), snd (session_loop co socket [] is))"
proof -
  define body where "body e = the (enc (REvent e))" for e
  have b: "enc (REvent e) = Some (body e) \<and> length (body e) \<le> unat MAX_FRAME" if "e \<in> set es" for e
    using assms(2) that by (auto simp: body_def)
  have r: "received (map Got es) = es" "SenderGone \<notin> set (map Got es)" by (induction es) auto
  have "wr_out w = concat (map (\<lambda>e. frame_of (body e)) es)"
    using stream_events_frames [of "map Got es" enc body "\<lparr>wr_out = [], wr_limit = None\<rparr>"] b r assms(3) by simp
  then show ?thesis
    using b assms(1,4) by (intro session_frames [of es co body]) (auto simp: decodes_encoded_def)
qed

section \<open>Properties\<close>

text \<open>C12: The session forwards the events it was sent, all of them and in order, however the
  bytes of their frames were cut up on the way, and then serves a command that arrives between
  two frames without losing anything that follows.\<close>

theorem session_delivers:
  assumes "decodes_encoded enc (co_dec co)"
    and "\<forall>e \<in> set es. \<exists>body. enc (REvent e) = Some body \<and> length body \<le> unat MAX_FRAME"
    and "stream_events enc (map Got es) \<lparr>wr_out = [], wr_limit = None\<rparr> = (w, None)"
    and "concat chunks = wr_out w"
  shows "session_loop co socket [] (map Data chunks @ Command cmd c # is) =
    (map EventMsg es @ serve_command co socket c cmd @ fst (session_loop co socket [] is),
     snd (session_loop co socket [] is))"
  using session_streams [OF assms, of socket "Command cmd c # is"] by (simp split: prod.splits)

text \<open>A codec for some of the messages, whose bodies start as JSON objects do.\<close>

fun demo_enc :: "Response \<Rightarrow> bytes option" where
  "demo_enc ROk = Some [123, 48, 48, 125]"
| "demo_enc Pong = Some [123, 48, 49, 125]"
| "demo_enc (REvent (PausedChanged b)) = Some [123, 49, if b then 49 else 48, 125]"
| "demo_enc (RError message) = Some (123 # 50 # map (\<lambda>c. of_nat (of_char c)) message)"
| "demo_enc _ = None"

definition demo_dec :: "bytes \<Rightarrow> Response option" where
  "demo_dec bs =
     (if bs = [123, 48, 48, 125] then Some ROk
      else if bs = [123, 48, 49, 125] then Some Pong
      else if bs = [123, 49, 49, 125] then Some (REvent (PausedChanged True))
      else if bs = [123, 49, 48, 125] then Some (REvent (PausedChanged False))
      else (case bs of _ # k # cs \<Rightarrow> if k = 50 then Some (RError (map (\<lambda>b. char_of (unat b)) cs)) else None | _ \<Rightarrow> None))"

fun demo_req_enc :: "Request \<Rightarrow> bytes option" where
  "demo_req_enc (SetPaused b) = Some [123, 49, if b then 49 else 48, 125]"
| "demo_req_enc (RemoveRule i) = (if i = 1 then Some [123, 50, 49, 125] else None)"
| "demo_req_enc Ping = Some [34, 80, 34]"
| "demo_req_enc _ = None"

definition demo_req_dec :: "bytes \<Rightarrow> Request option" where
  "demo_req_dec bs =
     (if bs = [123, 49, 49, 125] then Some (SetPaused True)
      else if bs = [123, 49, 48, 125] then Some (SetPaused False)
      else if bs = [123, 50, 49, 125] then Some (RemoveRule 1)
      else if bs = [34, 80, 34] then Some Ping else None)"

definition demo_codec :: codec where
  "demo_codec = \<lparr>co_enc = demo_req_enc, co_dec = demo_dec, co_error = (\<lambda>_. ''error''), co_debug = (\<lambda>_. ''response'')\<rparr>"

lemma demo_codec_decodes: "decodes_encoded demo_enc (co_dec demo_codec)" "decodes_encoded demo_req_enc demo_req_dec"
proof -
  have "unat (of_nat (of_char c) :: u8) = of_char c" for c :: char
    by (simp add: unat_of_nat take_bit_eq_mod)
  then have c: "map ((\<lambda>b. char_of (unat b)) \<circ> (\<lambda>c. of_nat (of_char c) :: u8)) cs = cs" for cs
    by (intro map_idI) simp
  have "demo_dec body = Some v" if "demo_enc v = Some body" for v body
    using that by (cases v rule: demo_enc.cases) (auto simp: demo_dec_def c split: if_splits)
  then show "decodes_encoded demo_enc (co_dec demo_codec)" by (simp add: decodes_encoded_def demo_codec_def)
  have "demo_req_dec body = Some v" if "demo_req_enc v = Some body" for v body
    using that by (cases v rule: demo_req_enc.cases) (auto simp: demo_req_dec_def split: if_splits)
  then show "decodes_encoded demo_req_enc demo_req_dec" by (simp add: decodes_encoded_def)
qed

theorem session_delivers_witness:
  "\<exists>w :: writer. session_loop demo_codec ''/s'' [] (map Data [take 6 (wr_out w), drop 6 (wr_out w)] @ [Command Reconnect (Refused [])]) =
     ([EventMsg (PausedChanged True), EventMsg (PausedChanged False)], None)"
proof -
  let ?es = "[PausedChanged True, PausedChanged False]"
  obtain w r where w: "stream_events demo_enc (map Got ?es) \<lparr>wr_out = [], wr_limit = None\<rparr> = (w, r)"
    by (meson surj_pair)
  then have "r = None" by (simp add: write_frame_def write_all_def)
  with w have w: "stream_events demo_enc (map Got ?es) \<lparr>wr_out = [], wr_limit = None\<rparr> = (w, None)" by simp
  have s: "\<forall>e \<in> set ?es. \<exists>body. demo_enc (REvent e) = Some body \<and> length body \<le> unat MAX_FRAME"
    by (simp add: MAX_FRAME_def)
  have c: "concat [take 6 (wr_out w), drop 6 (wr_out w)] = wr_out w" by simp
  from session_delivers [OF demo_codec_decodes(1) s w c, of "''/s''" Reconnect "Refused []" "[]"]
  show ?thesis by (intro exI [of _ w]) (simp add: serve_command_def del: session_loop.simps(2))
qed

lemma u32_from_be_large:
  assumes "b0 \<ge> 2"
  shows "u32_from_be [b0, b1, b2, b3] > MAX_FRAME"
proof -
  let ?n = "((unat b0 * 256 + unat b1) * 256 + unat b2) * 256 + unat b3"
  have b: "unat b < 256" for b :: u8 using unsigned_less [of b] by simp
  have "2 \<le> unat b0" using assms by (simp add: word_le_nat_alt)
  moreover have "?n < 2 ^ 32" using b [of b0] b [of b1] b [of b2] b [of b3] by simp
  then have "unat (of_nat ?n :: u32) = ?n" by (simp only: unat_of_nat take_bit_eq_mod) simp
  ultimately show ?thesis
    by (simp add: u32_from_be_def MAX_FRAME_def word_less_nat_alt)
qed

text \<open>A command that arrives while an event's frame is half read ends the session: the half
  is lost with the future that \<open>select!\<close> drops, the rest of the frame is taken for the next
  frame's length, and the user is shown a lost connection.  Without the command the event is
  delivered.\<close>

theorem session_torn:
  assumes "co_dec co body = Some (REvent e)" "length body \<le> unat MAX_FRAME"
    and "body = b0 # b1 # b2 # b3 # bs" "b0 \<ge> 2"
  shows "session_loop co socket [] [Data (take 4 (frame_of body)), Data (drop 4 (frame_of body))] = ([EventMsg e], None) \<and>
    (\<exists>n. session_loop co socket [] [Data (take 4 (frame_of body)), Command cmd c, Data (drop 4 (frame_of body))] =
      (serve_command co socket c cmd, Some (Inl (''event stream lost: '' @ co_error co (FrameTooLarge n)))))"
proof
  have "session_loop co socket [] (map Data [take 4 (frame_of body), drop 4 (frame_of body)] @ []) =
      (map EventMsg [e] @ fst (session_loop co socket [] []), snd (session_loop co socket [] []))"
    by (rule session_frames [of "[e]" co "\<lambda>_. body"]) (use assms(1,2) in simp_all)
  then show "session_loop co socket [] [Data (take 4 (frame_of body)), Data (drop 4 (frame_of body))] = ([EventMsg e], None)"
    by simp
  have "4 < length (frame_of body)" by (simp add: frame_of_def assms(3))
  from poll_frame_partial [OF assms(2) this, of "co_dec co"]
  have "drain (co_dec co) (take 4 (frame_of body)) = ([], Inr (take 4 (frame_of body)))" by (simp add: drain.simps)
  moreover have "drop 4 (frame_of body) = body" by (simp add: frame_of_def)
  moreover have "poll_frame (co_dec co) body = Some (Inl (FrameTooLarge (u32_from_be [b0, b1, b2, b3])))"
    using u32_from_be_large [OF assms(4), of b1 b2 b3] by (simp add: poll_frame_def assms(3) Let_def)
  then have "drain (co_dec co) body = ([], Inl (FrameTooLarge (u32_from_be [b0, b1, b2, b3])))"
    by (simp add: drain.simps)
  ultimately show "\<exists>n. session_loop co socket [] [Data (take 4 (frame_of body)), Command cmd c, Data (drop 4 (frame_of body))] =
      (serve_command co socket c cmd, Some (Inl (''event stream lost: '' @ co_error co (FrameTooLarge n))))"
    by (intro exI [of _ "u32_from_be [b0, b1, b2, b3]"]) simp
qed

theorem session_torn_witness:
  "\<exists>n. session_loop demo_codec ''/s'' [] [Data [0, 0, 0, 4], Command Reconnect (Refused []), Data [123, 49, 49, 125]] =
     ([], Some (Inl (''event stream lost: '' @ co_error demo_codec (FrameTooLarge n))))"
proof -
  have "co_dec demo_codec [123, 49, 49, 125] = Some (REvent (PausedChanged True))"
    by (simp add: demo_codec_def demo_dec_def)
  moreover have "length [123, 49, 49, 125 :: u8] \<le> unat MAX_FRAME" by (simp add: MAX_FRAME_def)
  moreover have "frame_of [123, 49, 49, 125] = [0, 0, 0, 4, 123, 49, 49, 125]" by (simp add: frame_of_def u32_to_be_def)
  ultimately show ?thesis
    using session_torn [of demo_codec "[123, 49, 49, 125]" "PausedChanged True" 123 49 49 125 "[]" "''/s''" Reconnect "Refused []"]
    by (simp add: serve_command_def del: session_loop.simps(2))
qed

subsection \<open>Requests\<close>

text \<open>A connection that the daemon serves: it reads what the client wrote, and the client reads what
  it wrote back.\<close>

definition served_io :: "step_env \<Rightarrow> bytes \<Rightarrow> client_io" where
  "served_io se bs = \<lparr>io_reader = \<lparr>rd_bytes = bs, rd_broken = False\<rparr>, io_writer = \<lparr>wr_out = [], wr_limit = None\<rparr>,
     io_events = [], io_step = se\<rparr>"

definition served :: "externals \<Rightarrow> (bytes \<Rightarrow> Request option) \<Rightarrow> (Response \<Rightarrow> bytes option) \<Rightarrow> step_env \<Rightarrow> Daemon
    \<Rightarrow> connection" where
  "served ex dec enc se d = Stream \<lparr>wr_out = [], wr_limit = None\<rparr>
     (\<lambda>bs. \<lparr>rd_bytes = (case handle_client ex dec enc (served_io se bs) d of
          Some (w, _, _) \<Rightarrow> wr_out w | None \<Rightarrow> []), rd_broken = False\<rparr>)"

text \<open>Both ends' codecs, and the size of the messages.\<close>

definition agree :: "codec \<Rightarrow> (bytes \<Rightarrow> Request option) \<Rightarrow> (Response \<Rightarrow> bytes option) \<Rightarrow> bool" where
  "agree co dec enc \<longleftrightarrow> decodes_encoded (co_enc co) dec \<and> decodes_encoded enc (co_dec co)"

definition fits :: "('a \<Rightarrow> bytes option) \<Rightarrow> 'a \<Rightarrow> bool" where
  "fits enc v \<longleftrightarrow> (case enc v of None \<Rightarrow> False | Some body \<Rightarrow> length body \<le> unat MAX_FRAME)"

lemma served_answer:
  assumes "agree co dec enc" "fits (co_enc co) request" "request \<noteq> Subscribe"
    and "dispatch ex se request d = Some (response, d')" "fits enc response"
  shows "\<exists>rb pb. co_enc co request = Some rb \<and> enc response = Some pb \<and> length pb \<le> unat MAX_FRAME \<and>
    co_dec co pb = Some response \<and>
    handle_client ex dec enc (served_io se (frame_of rb)) d = Some (\<lparr>wr_out = frame_of pb, wr_limit = None\<rparr>, Some Closed, d')"
proof -
  obtain rb where rb: "co_enc co request = Some rb" "length rb \<le> unat MAX_FRAME"
    using assms(2) by (auto simp: fits_def split: option.splits)
  obtain pb where pb: "enc response = Some pb" "length pb \<le> unat MAX_FRAME"
    using assms(5) by (auto simp: fits_def split: option.splits)
  have "read_frame dec \<lparr>rd_bytes = frame_of rb, rd_broken = False\<rparr> = Inr (request, \<lparr>rd_bytes = [], rd_broken = False\<rparr>)"
    using read_frame_small [OF rb(2), of dec "[]" False] assms(1) rb(1) by (simp add: agree_def decodes_encoded_def)
  moreover have "co_dec co pb = Some response" using assms(1) pb(1) by (simp add: agree_def decodes_encoded_def)
  ultimately show ?thesis
    using assms(3,4) rb pb by (simp add: handle_client_def served_io_def write_frame_ok)
qed

lemma one_shot_served_eq:
  assumes "agree co dec enc" "fits (co_enc co) request" "request \<noteq> Subscribe"
    and "dispatch ex se request d = Some (response, d')" "fits enc response"
  shows "one_shot co socket (served ex dec enc se d) request = Inr response"
proof -
  obtain rb pb where s: "co_enc co request = Some rb" "length pb \<le> unat MAX_FRAME" "co_dec co pb = Some response"
    "handle_client ex dec enc (served_io se (frame_of rb)) d = Some (\<lparr>wr_out = frame_of pb, wr_limit = None\<rparr>, Some Closed, d')"
    using served_answer [OF assms] by blast
  have "read_frame (co_dec co) \<lparr>rd_bytes = frame_of pb, rd_broken = False\<rparr> = Inr (response, \<lparr>rd_bytes = [], rd_broken = False\<rparr>)"
    using read_frame_small [OF s(2), of "co_dec co" "[]" False] s(3) by simp
  with s show ?thesis
    by (simp add: one_shot_def connect_def served_def write_frame_ok)
qed

end
