(* ===== verification/Mirror.thy ===== *)
theory Mirror
  imports System GuiClient "HOL-Library.Sublist"
begin

text \<open>
  Daemon and GUI together: what the GUI shows is a fold of the events the daemon publishes, over
  a snapshot it fetched after it subscribed.  Here the copies are compared with the originals:
  the connections agree, the rules agree as long as no rule replaces another, and a command of
  the GUI acts on the rule it shows.
\<close>

section \<open>What an observer makes of the events\<close>

fun observe_rules :: "Event \<Rightarrow> Rule list \<Rightarrow> Rule list" where
  "observe_rules (RuleAdded rule) rules = filter (\<lambda>r. r_id r \<noteq> r_id rule) rules @ [rule]"
| "observe_rules (RuleRemoved i) rules = filter (\<lambda>r. r_id r \<noteq> i) rules"
| "observe_rules _ rules = rules"

fun observe_paused :: "Event \<Rightarrow> bool \<Rightarrow> bool" where
  "observe_paused (PausedChanged b) p = b"
| "observe_paused _ p = p"

fun pause_event :: "Event \<Rightarrow> bool" where
  "pause_event (PausedChanged _) = True"
| "pause_event _ = False"

fun rule_event :: "Event \<Rightarrow> bool" where
  "rule_event (RuleAdded _) = True"
| "rule_event (RuleRemoved _) = True"
| "rule_event _ = False"

text \<open>No rule is added while the observer has one for the same executable and action.\<close>

primrec no_replacement :: "Event list \<Rightarrow> Rule list \<Rightarrow> bool" where
  "no_replacement [] rules = True"
| "no_replacement (e # es) rules =
     ((case e of RuleAdded rule \<Rightarrow> list_all (\<lambda>r. \<not> same_target r rule) rules | _ \<Rightarrow> True) \<and>
      no_replacement es (observe_rules e rules))"

text \<open>The observer never has more connections than the GUI keeps.\<close>

primrec within_cap :: "Event list \<Rightarrow> (string \<rightharpoonup> ConnectionInfo) \<Rightarrow> bool" where
  "within_cap [] m = (card (dom m) \<le> MAX_CONNECTIONS)"
| "within_cap (e # es) m = (card (dom m) \<le> MAX_CONNECTIONS \<and> within_cap es (observe_conns e m))"

text \<open>What a step of the daemon announces: its events, folded by an observer, give the new
  connections and the pause flag; and the new rules, if none was replaced.  In any case the rules are
  among those the observer has, in the same order.\<close>

definition behind :: "Inner \<Rightarrow> Rule list \<Rightarrow> bool" where
  "behind st rules \<longleftrightarrow> subseq (in_rules st) rules \<and> (\<forall>r \<in> set rules. r_id r < in_next_id st)"

definition announces :: "DaemonState \<Rightarrow> DaemonState \<Rightarrow> Event list \<Rightarrow> bool" where
  "announces s s' es \<longleftrightarrow> ds_events s' = ds_events s @ es \<and>
     conn_view s' = fold observe_conns es (conn_view s) \<and>
     ds_paused s' = fold observe_paused es (ds_paused s) \<and>
     (no_replacement es (in_rules (ds_rules s)) \<longrightarrow>
        in_rules (ds_rules s') = fold observe_rules es (in_rules (ds_rules s))) \<and>
     (\<forall>rules. behind (ds_rules s) rules \<longrightarrow> behind (ds_rules s') (fold observe_rules es rules))"

section \<open>Lemmas\<close>

subsection \<open>Observers\<close>

lemma no_replacement_append:
  "no_replacement (es @ es') rules \<longleftrightarrow> no_replacement es rules \<and> no_replacement es' (fold observe_rules es rules)"
  by (induction es arbitrary: rules) auto

lemma observe_other:
  "\<not> rule_event e \<Longrightarrow> observe_rules e rules = rules"
  "\<not> conn_event e \<Longrightarrow> observe_conns e m = m"
  "\<not> pause_event e \<Longrightarrow> observe_paused e p = p"
  by (cases e; simp)+

lemma fold_observe_other:
  "list_all (\<lambda>e. \<not> rule_event e) es \<Longrightarrow> fold observe_rules es rules = rules"
  "list_all (\<lambda>e. \<not> conn_event e) es \<Longrightarrow> fold observe_conns es m = m"
  "list_all (\<lambda>e. \<not> pause_event e) es \<Longrightarrow> fold observe_paused es p = p"
  by (induction es arbitrary: rules m p) (simp_all add: observe_other)

lemma conn_not_rule: "conn_event e \<Longrightarrow> \<not> rule_event e \<and> \<not> pause_event e"
  by (cases e) simp_all

text \<open>An observer of a map, each of whose events sets or removes at most one key.  Seeing the same events
  again changes nothing: the last one about a key decides.\<close>

locale keyed_observer =
  fixes upd :: "'e \<Rightarrow> ('k \<times> 'v option) option"
    and observe :: "'e \<Rightarrow> ('k \<rightharpoonup> 'v) \<Rightarrow> ('k \<rightharpoonup> 'v)"
  assumes observe_upd: "observe e m = (case upd e of None \<Rightarrow> m | Some (k, v) \<Rightarrow> m(k := v))"
begin

lemma fold_get:
  "fold observe es m k = (case List.find (\<lambda>e. map_option fst (upd e) = Some k) (rev es) of
     None \<Rightarrow> m k | Some e \<Rightarrow> snd (the (upd e)))"
proof (induction es arbitrary: m rule: rev_induct)
  case (snoc e es)
  show ?case using snoc [of m] by (cases "upd e") (auto simp: observe_upd)
qed simp

lemma replay: "fold observe es (fold observe es m) = fold observe es m"
  by (rule ext) (simp add: fold_get split: option.split)

lemma kept: "k \<in> dom m \<Longrightarrow> (k, None) \<notin> {x. \<exists>e \<in> set es. upd e = Some x} \<Longrightarrow> k \<in> dom (fold observe es m)"
proof (induction es arbitrary: m)
  case (Cons e es)
  then have "k \<in> dom (observe e m)" by (auto simp: observe_upd split: option.splits)
  with Cons show ?case by auto
qed simp

end

fun conn_upd :: "Event \<Rightarrow> (string \<times> ConnectionInfo option) option" where
  "conn_upd (ConnectionOpened c) = Some (c_key c, Some c)"
| "conn_upd (ConnectionUpdated c) = Some (c_key c, Some c)"
| "conn_upd (ConnectionClosed key) = Some (key, None)"
| "conn_upd _ = None"

interpretation conns_seen: keyed_observer conn_upd observe_conns
proof
  show "observe_conns e m = (case conn_upd e of None \<Rightarrow> m | Some (k, v) \<Rightarrow> m(k := v))" for e m by (cases e) simp_all
qed

text \<open>The rules by their ids.\<close>

definition rule_view :: "Rule list \<Rightarrow> (u64 \<rightharpoonup> Rule)" where
  "rule_view rules = map_of (map (\<lambda>r. (r_id r, r)) rules)"

fun rule_upd :: "Event \<Rightarrow> (u64 \<times> Rule option) option" where
  "rule_upd (RuleAdded r) = Some (r_id r, Some r)"
| "rule_upd (RuleRemoved i) = Some (i, None)"
| "rule_upd _ = None"

fun observe_rule_view :: "Event \<Rightarrow> (u64 \<rightharpoonup> Rule) \<Rightarrow> (u64 \<rightharpoonup> Rule)" where
  "observe_rule_view (RuleAdded r) m = m(r_id r \<mapsto> r)"
| "observe_rule_view (RuleRemoved i) m = m(i := None)"
| "observe_rule_view _ m = m"

interpretation rules_seen: keyed_observer rule_upd observe_rule_view
proof
  show "observe_rule_view e m = (case rule_upd e of None \<Rightarrow> m | Some (k, v) \<Rightarrow> m(k := v))" for e m by (cases e) simp_all
qed

lemma rule_view_filter: "rule_view (filter (\<lambda>r. r_id r \<noteq> i) rules) = (rule_view rules)(i := None)"
  by (induction rules) (auto simp: rule_view_def)

lemma rule_view_observe: "rule_view (observe_rules e rules) = observe_rule_view e (rule_view rules)"
proof -
  have "rule_view (rs @ [r]) = (rule_view rs)(r_id r \<mapsto> r)" if "rule_view rs (r_id r) = None" for rs r
    using that by (auto simp: rule_view_def map_add_def fun_eq_iff split: option.splits)
  then show ?thesis by (cases e) (simp_all add: rule_view_filter)
qed

lemma rule_view_fold: "rule_view (fold observe_rules es rules) = fold observe_rule_view es (rule_view rules)"
  by (induction es arbitrary: rules) (simp_all add: rule_view_observe)

lemma observe_rules_distinct: "distinct (map r_id rules) \<Longrightarrow> distinct (map r_id (observe_rules e rules))"
  by (cases e) (auto simp: distinct_map_filter)

lemma fold_observe_rules_distinct: "distinct (map r_id rules) \<Longrightarrow> distinct (map r_id (fold observe_rules es rules))"
  by (induction es arbitrary: rules) (simp_all add: observe_rules_distinct)

lemma set_rule_view: "distinct (map r_id rules) \<Longrightarrow> set rules = ran (rule_view rules)"
  by (simp add: rule_view_def ran_distinct comp_def image_image)

lemma observe_paused_idem: "fold observe_paused es (fold observe_paused es p) = fold observe_paused es p"
proof -
  have last: "fold observe_paused es q = (if \<exists>b. PausedChanged b \<in> set es then fold observe_paused es r else q)" for q r
  proof (induction es arbitrary: q r rule: rev_induct)
    case (snoc e es)
    show ?case using snoc [of q r] by (cases e) auto
  qed simp
  show ?thesis using last [of "fold observe_paused es p" p] last [of p p] by simp
qed

subsection \<open>Steps of the daemon\<close>

lemma announces_trans:
  assumes "announces s s1 es" "announces s1 s2 es'"
  shows "announces s s2 (es @ es')"
  using assms unfolding announces_def no_replacement_append by (simp add: fold_append)

lemma announces_other:
  assumes "ds_events s' = ds_events s @ es" "conn_view s' = fold observe_conns es (conn_view s)"
    and "ds_paused s' = fold observe_paused es (ds_paused s)"
    and "ds_rules s' = ds_rules s" "list_all (\<lambda>e. \<not> rule_event e) es"
  shows "announces s s' es"
  using assms by (simp add: announces_def fold_observe_other)

lemma announces_add:
  assumes "add ch to_json fo now input (ds_rules s, dk) = Some (rule, rules, dk')" "store_wf (ds_rules s)"
    and "in_next_id (ds_rules s) \<noteq> - 1"
    and "ds_events s' = ds_events s @ [RuleAdded rule]" "ds_rules s' = rules" "ds_connections s' = ds_connections s"
    and "ds_paused s' = ds_paused s"
  shows "announces s s' [RuleAdded rule]"
proof -
  have a: "add_locked ch now input (ds_rules s) = Some (rule, rules)"
    using assms(1) by (auto simp: add_def split: option.splits)
  then have id: "r_id rule = in_next_id (ds_rules s)" by (auto simp: add_locked_Some)
  have r: "in_rules rules = filter (\<lambda>r. \<not> same_target r rule) (in_rules (ds_rules s)) @ [rule]"
    and n: "in_next_id rules = in_next_id (ds_rules s) + 1"
    using a by (auto simp: add_locked_Some same_target_key)
  have lt: "x < in_next_id (ds_rules s) + 1" if "x \<le> in_next_id (ds_rules s)" for x
    using that assms(3) word_less_succ word_less_self_succ by (metis order_le_less)
  have f: "filter (\<lambda>r. r_id r \<noteq> r_id rule) xs = xs" if "\<forall>r \<in> set xs. r_id r < in_next_id (ds_rules s)" for xs
    using that id by (auto simp: filter_id_iff)
  have w: "\<forall>r \<in> set (in_rules (ds_rules s)). r_id r < in_next_id (ds_rules s)"
    using assms(2) by (simp add: store_wf_def)
  have b: "behind rules (filter (\<lambda>r. r_id r \<noteq> r_id rule) xs @ [rule])" if "behind (ds_rules s) xs" for xs
  proof -
    have x: "subseq (in_rules (ds_rules s)) xs" "\<forall>r \<in> set xs. r_id r < in_next_id (ds_rules s)"
      using that by (simp_all add: behind_def)
    have "subseq (filter (\<lambda>r. \<not> same_target r rule) (in_rules (ds_rules s))) xs"
      using x(1) by (rule subseq_order.trans [OF subseq_filter_left])
    then have "subseq (in_rules rules) (xs @ [rule])" unfolding r by (rule list_emb_append_mono) simp
    with x(2) lt id show ?thesis unfolding behind_def f [OF x(2)] n by auto
  qed
  show ?thesis
    unfolding announces_def assms(4,5)
    using b f [OF w] by (auto simp: r assms(6,7) conn_view_def list_all_iff filter_id_iff)
qed

lemma announces_remove:
  assumes "remove to_json fo i (ds_rules s, dk) = (Some rule, rules, dk')" "store_wf (ds_rules s)"
    and "ds_events s' = ds_events s @ [RuleRemoved i]" "ds_rules s' = rules" "ds_connections s' = ds_connections s"
    and "ds_paused s' = ds_paused s"
  shows "announces s s' [RuleRemoved i]"
proof -
  have "remove_locked i (ds_rules s) = (Some rule, rules)"
    using assms(1) by (auto simp: remove_def split: prod.splits option.splits)
  from remove_locked_Some [OF this assms(2)]
  have r: "rules = (ds_rules s)\<lparr>in_rules := filter (\<lambda>r. r_id r \<noteq> i) (in_rules (ds_rules s))\<rparr>" by simp
  have "behind rules (filter (\<lambda>r. r_id r \<noteq> i) xs)" if "behind (ds_rules s) xs" for xs
    using that by (auto simp: behind_def r)
  then show ?thesis
    unfolding announces_def assms(3,4) by (simp add: r assms(5,6) conn_view_def)
qed

lemma observe_removed:
  "fold observe_rules (map RuleRemoved is) rules = filter (\<lambda>r. r_id r \<notin> set is) rules"
  by (induction "is" arbitrary: rules) (auto intro!: filter_cong)

lemma no_replacement_removed: "no_replacement (map RuleRemoved is) rules"
  by (induction "is" arbitrary: rules) simp_all

lemma observe_conns_removed:
  "fold observe_conns (map RuleRemoved is) m = m" "fold observe_paused (map RuleRemoved is) p = p"
  by (induction "is") simp_all

lemma filter_ids:
  assumes "distinct (map r_id rs)"
  shows "filter (\<lambda>r. r_id r \<notin> r_id ` {q \<in> set rs. P q}) rs = filter (\<lambda>r. \<not> P r) rs"
proof (rule filter_cong [OF refl])
  fix r assume r: "r \<in> set rs"
  have "inj_on r_id (set rs)" using assms by (simp add: distinct_map)
  with r show "(r_id r \<notin> r_id ` {q \<in> set rs. P q}) = (\<not> P r)" by (auto dest: inj_onD)
qed

lemma subseq_filter_mono: "subseq xs ys \<Longrightarrow> subseq (filter P xs) (filter P ys)"
  by (induction rule: list_emb.induct) (auto intro: list_emb.intros)

lemma announces_reap:
  assumes "store_wf (ds_rules (d_state d))"
  shows "\<exists>es. announces (d_state d) (d_state (reaper_tick ex fo now d)) es"
proof -
  let ?s = "d_state d"
  let ?rs = "in_rules (ds_rules ?s)"
  let ?ids = "map r_id (filter (\<lambda>r. is_expired r now) ?rs)"
  let ?s' = "d_state (reaper_tick ex fo now d)"
  have e: "ds_events ?s' = ds_events ?s @ map RuleRemoved ?ids"
    and r: "in_rules (ds_rules ?s') = filter (\<lambda>r. \<not> is_expired r now) ?rs"
      "in_next_id (ds_rules ?s') = in_next_id (ds_rules ?s)"
    and c: "ds_connections ?s' = ds_connections ?s" "ds_paused ?s' = ds_paused ?s"
  proof -
    have ev: "ds_events (fold publish es st) = ds_events st @ es" for es st
      by (induction es arbitrary: st) (simp_all add: publish_def)
    show "ds_events ?s' = ds_events ?s @ map RuleRemoved ?ids"
      "in_rules (ds_rules ?s') = filter (\<lambda>r. \<not> is_expired r now) ?rs"
      "in_next_id (ds_rules ?s') = in_next_id (ds_rules ?s)" "ds_connections ?s' = ds_connections ?s"
      "ds_paused ?s' = ds_paused ?s"
      by (simp_all add: reaper_tick_def reap_expired_def reap_locked_def Let_def publish_all frame_simps ev)
  qed
  have i: "set ?ids = r_id ` {q \<in> set ?rs. is_expired q now}" by auto
  have f: "filter (\<lambda>r. r_id r \<notin> set ?ids) ?rs = filter (\<lambda>r. \<not> is_expired r now) ?rs"
    unfolding i using assms by (intro filter_ids) (simp add: store_wf_def)
  have "announces ?s ?s' (map RuleRemoved ?ids)"
    unfolding announces_def e conn_view_def c behind_def r observe_removed observe_conns_removed f [symmetric]
    by (auto intro: subseq_filter_mono)
  then show ?thesis by blast
qed

lemma announces_dispatch:
  assumes "dispatch ex env req d = Some (resp, d')" "store_wf (ds_rules (d_state d))"
    and "\<forall>input. req = AddRule input \<longrightarrow> in_next_id (ds_rules (d_state d)) \<noteq> - 1"
  shows "\<exists>es. announces (d_state d) (d_state d') es"
proof (cases req)
  case (AddRule input)
  obtain rule rules disk where a: "add (ex_chrono ex) (ex_to_json ex) (se_fs env) (se_now env) input
      (ds_rules (d_state d), ds_disk (d_state d)) = Some (rule, rules, disk)"
    using assms(1) AddRule by (auto simp: Let_def split: option.splits)
  with assms(1) AddRule have "d_state d' = publish (RuleAdded rule) ((d_state d)\<lparr>ds_rules := rules, ds_disk := disk\<rparr>)"
    by (auto simp: Let_def)
  then show ?thesis
    using assms(3) AddRule
    by (intro exI [of _ "[RuleAdded rule]"] announces_add [OF a assms(2)]) (simp_all add: publish_def)
next
  case (RemoveRule i)
  obtain res rules disk where r: "remove (ex_to_json ex) (se_fs env) i (ds_rules (d_state d), ds_disk (d_state d)) =
      (res, rules, disk)" by (cases "remove (ex_to_json ex) (se_fs env) i (ds_rules (d_state d), ds_disk (d_state d))") auto
  show ?thesis
  proof (cases res)
    case None
    with r have "rules = ds_rules (d_state d)"
      using remove_locked_None [of i "ds_rules (d_state d)"]
      by (auto simp: remove_def split: prod.splits option.splits)
    with assms(1) RemoveRule r None show ?thesis
      by (intro exI [of _ "[]"] announces_other) (auto simp: Let_def conn_view_def)
  next
    case (Some rule)
    with assms(1) RemoveRule r have "d_state d' = publish (RuleRemoved i) ((d_state d)\<lparr>ds_rules := rules, ds_disk := disk\<rparr>)"
      by (auto simp: Let_def)
    with r Some show ?thesis
      by (intro exI [of _ "[RuleRemoved i]"] announces_remove [OF _ assms(2)]) (auto simp: publish_def)
  qed
next
  case (SetPaused p)
  with assms(1) show ?thesis
    by (intro exI [of _ "[PausedChanged p]"] announces_other) (auto simp: publish_def conn_view_def)
qed (use assms(1) in \<open>(intro exI [of _ "[]"] announces_other; auto simp: Let_def conn_view_def)+\<close>)

lemma announces_same:
  assumes "ds_events s' = ds_events s" "ds_connections s' = ds_connections s" "ds_rules s' = ds_rules s"
    and "ds_paused s' = ds_paused s"
  shows "\<exists>es. announces s s' es"
  using assms by (intro exI [of _ "[]"] announces_other) (simp_all add: conn_view_def)

lemma announces_poll:
  assumes "conns_wf (ds_connections st)"
  shows "\<exists>es. announces st (poll_once i st) es"
proof -
  have "follows st (poll_once i st)" using poll_once_follows assms by simp
  then obtain es where "ds_events (poll_once i st) = ds_events st @ es" "list_all conn_event es"
    "conn_view (poll_once i st) = fold observe_conns es (conn_view st)" by (auto simp: follows_def)
  moreover have "list_all (\<lambda>e. \<not> rule_event e) es" "list_all (\<lambda>e. \<not> pause_event e) es"
    using \<open>list_all conn_event es\<close> conn_not_rule by (auto simp: list_all_iff)
  ultimately show ?thesis using poll_once_keeps [of i st] by (auto intro!: announces_other simp: fold_observe_other)
qed

lemma announces_step:
  assumes "sys_step ex exec fifo s s'" "state_wf (d_state (sy_daemon s))"
  shows "\<exists>es. announces (d_state (sy_daemon s)) (d_state (sy_daemon s')) es"
  using assms
proof (induction rule: sys_step.induct)
  case (request env req s resp d')
  then show ?case using announces_dispatch by (simp add: state_wf_def)
next
  case (toggle i s)
  show ?case by (rule announces_same) (simp_all add: toggle_def Let_def)
next
  case (reap s fo now)
  then show ?case using announces_reap by (simp add: state_wf_def)
next
  case (poll i s)
  then show ?case using announces_poll [of "d_state (sy_daemon s)" i] by (simp add: update_state_def state_wf_def)
next
  case (scan i s)
  obtain es procs users where e: "scan_once i (ds_processes (d_state (sy_daemon s)), sy_users s) = (es, procs, users)"
    by (cases "scan_once i (ds_processes (d_state (sy_daemon s)), sy_users s)") auto
  have k: "list_all (\<lambda>e. \<not> rule_event e \<and> \<not> conn_event e \<and> \<not> pause_event e) es"
  proof (cases "si_all i")
    case None
    with e show ?thesis by (simp add: scan_once_def)
  next
    case (Some ps)
    with e scan_once_eq [OF Some, of "(ds_processes (d_state (sy_daemon s)), sy_users s)"] show ?thesis
      by (auto simp: list_all_iff)
  qed
  have ev: "ds_events (fold publish es st) = ds_events st @ es" for es st
    by (induction es arbitrary: st) (simp_all add: publish_def)
  show ?case
    using k by (intro exI [of _ es] announces_other)
      (simp_all add: scan_processes_def e update_state_def frame_simps ev conn_view_def fold_observe_other list_all_iff)
next
  case (packet env now instant payload s v act st')
  from decide_frame [OF packet(1)] show ?case by (intro announces_same) (simp_all add: update_state_def)
next
  case (network s snapshot)
  show ?case by (rule announces_same) (simp_all add: refresh_network_def)
next
  case (start i s penv)
  let ?st = "(d_state (sy_daemon s))\<lparr>ds_attrib := refresh penv (ds_attrib (d_state (sy_daemon s)))\<rparr>"
  have "\<exists>es. announces ?st (poll_once i ?st) es"
    using announces_poll [of ?st i] start(2) by (simp add: state_wf_def)
  then show ?case by (simp add: first_poll_def Let_def announces_def conn_view_def)
next
  case (worker s b)
  show ?case by (rule announces_same) (simp_all add: update_state_def)
qed

lemma announces_reaches:
  assumes "reaches ex exec fifo s s'" "state_wf (d_state (sy_daemon s))"
  shows "\<exists>es. announces (d_state (sy_daemon s)) (d_state (sy_daemon s')) es"
proof -
  have "state_wf (d_state (sy_daemon s')) \<and> (\<exists>es. announces (d_state (sy_daemon s)) (d_state (sy_daemon s')) es)"
    using assms(1)
  proof (rule reaches_induct)
    have "announces (d_state (sy_daemon s)) (d_state (sy_daemon s)) []"
      by (rule announces_other) simp_all
    with assms(2) show "state_wf (d_state (sy_daemon s)) \<and>
        (\<exists>es. announces (d_state (sy_daemon s)) (d_state (sy_daemon s)) es)" by blast
  next
    fix x y
    assume "sys_step ex exec fifo x y"
      and "state_wf (d_state (sy_daemon x)) \<and> (\<exists>es. announces (d_state (sy_daemon s)) (d_state (sy_daemon x)) es)"
    then show "state_wf (d_state (sy_daemon y)) \<and> (\<exists>es. announces (d_state (sy_daemon s)) (d_state (sy_daemon y)) es)"
      using sys_step_wf announces_step announces_trans by metis
  qed
  then show ?thesis by blast
qed

text \<open>The events since \<open>s0\<close>, seen by an observer that starts from the state at \<open>s1\<close>.\<close>

lemma replay_since:
  assumes "reaches ex exec fifo s0 s1" "reaches ex exec fifo s1 s2" "state_wf (d_state (sy_daemon s0))"
    and "ds_events (d_state (sy_daemon s2)) = ds_events (d_state (sy_daemon s0)) @ es"
  shows "state_wf (d_state (sy_daemon s1))"
    "fold observe_conns es (conn_view (d_state (sy_daemon s1))) = conn_view (d_state (sy_daemon s2))"
    "fold observe_paused es (ds_paused (d_state (sy_daemon s1))) = ds_paused (d_state (sy_daemon s2))"
    "no_replacement es (in_rules (ds_rules (d_state (sy_daemon s0)))) \<Longrightarrow>
       set (fold observe_rules es (in_rules (ds_rules (d_state (sy_daemon s1))))) = set (in_rules (ds_rules (d_state (sy_daemon s2))))"
proof -
  let ?d0 = "d_state (sy_daemon s0)" and ?d1 = "d_state (sy_daemon s1)" and ?d2 = "d_state (sy_daemon s2)"
  show wf: "state_wf ?d1" using assms(1,3) sys_step_wf by (rule reaches_induct)
  obtain es1 es2 where a: "announces ?d0 ?d1 es1" "announces ?d1 ?d2 es2"
    using announces_reaches assms(1-3) wf by metis
  then have es: "es = es1 @ es2" using assms(4) by (simp add: announces_def)
  show "fold observe_conns es (conn_view ?d1) = conn_view ?d2" "fold observe_paused es (ds_paused ?d1) = ds_paused ?d2"
    using a by (simp_all add: announces_def es conns_seen.replay observe_paused_idem)
  assume "no_replacement es (in_rules (ds_rules ?d0))"
  with a have rules: "in_rules (ds_rules ?d1) = fold observe_rules es1 (in_rules (ds_rules ?d0))"
    "in_rules (ds_rules ?d2) = fold observe_rules es2 (in_rules (ds_rules ?d1))"
    by (simp_all add: announces_def es no_replacement_append)
  have dist: "distinct (map r_id (in_rules (ds_rules ?d1)))" using wf by (simp add: state_wf_def store_wf_def)
  have "rule_view (fold observe_rules es (in_rules (ds_rules ?d1))) = rule_view (in_rules (ds_rules ?d2))"
    by (simp add: rules es rule_view_fold rules_seen.replay)
  then show "set (fold observe_rules es (in_rules (ds_rules ?d1))) = set (in_rules (ds_rules ?d2))"
    using fold_observe_rules_distinct [OF dist] by (simp add: set_rule_view rules(2))
qed

subsection \<open>The GUI\<close>

lemma gui_observes_rules: "cs_rules (apply_event e st) = observe_rules e (cs_rules st)"
  by (cases e) (auto simp: frame_simps remove_conn_fields upsert_conn_def enforce_conn_cap_def Let_def split: prod.split)

lemma fold_gui_rules: "cs_rules (fold apply_event es st) = fold observe_rules es (cs_rules st)"
  by (induction es arbitrary: st) (simp_all add: gui_observes_rules)

lemma card_conns: "conns_ok st \<Longrightarrow> card (dom (map_of (cs_conns st))) = length (cs_conns st)"
  using hm.length_entries [of "cs_conns st"] by (simp add: conns_ok_def)

lemma upsert_conns_room:
  assumes "conns_ok st" "length (AList.update (c_key c) c (cs_conns st)) \<le> MAX_CONNECTIONS"
  shows "cs_conns (upsert_conn c is_open st) = AList.update (c_key c) c (cs_conns st)"
  using assms(2)
  by (cases "map_of (cs_conns st) (c_key c)"; simp add: upsert_conn_def enforce_conn_cap_def Let_def enforce_cap_small)

lemma gui_observes_conns:
  assumes "conns_ok st" "card (dom (observe_conns e (map_of (cs_conns st)))) \<le> MAX_CONNECTIONS"
  shows "map_of (cs_conns (apply_event e st)) = observe_conns e (map_of (cs_conns st))"
proof -
  have u: "cs_conns (upsert_conn c b st) = AList.update (c_key c) c (cs_conns st)"
    if "card (dom ((map_of (cs_conns st))(c_key c \<mapsto> c))) \<le> MAX_CONNECTIONS" for c b
  proof (rule upsert_conns_room [OF assms(1)])
    have "hm_wf (AList.update (c_key c) c (cs_conns st))" using assms(1) by (simp add: conns_ok_def distinct_update)
    from hm.length_entries [OF this] that
    show "length (AList.update (c_key c) c (cs_conns st)) \<le> MAX_CONNECTIONS" by (simp add: update_conv')
  qed
  show ?thesis
    using assms(2) by (cases e) (simp_all add: u update_conv' delete_conv' remove_conn_fields frame_simps)
qed

lemma fold_gui_conns:
  assumes "conns_ok st" "within_cap es (map_of (cs_conns st))"
  shows "map_of (cs_conns (fold apply_event es st)) = fold observe_conns es (map_of (cs_conns st))"
  using assms
proof (induction es arbitrary: st)
  case (Cons e es)
  have "card (dom (observe_conns e (map_of (cs_conns st)))) \<le> MAX_CONNECTIONS"
    using Cons.prems(2) by (cases es) simp_all
  from gui_observes_conns [OF Cons.prems(1) this] Cons.IH [OF apply_event_conns [OF Cons.prems(1)], of e] Cons.prems(2)
  show ?case by simp
qed simp

lemma snapshot_conn_view:
  assumes "conns_wf (ds_connections s)" "mset conns = mset (map snd (ds_connections s))"
  shows "distinct (map c_key conns) \<and> map_of (map (\<lambda>c. (c_key c, c)) conns) = conn_view s"
proof -
  let ?m = "ds_connections s"
  have k: "map (\<lambda>c. (c_key c, c)) (map snd ?m) = ?m"
    using assms(1) by (auto simp: conns_wf_def comp_def intro!: map_idI)
  have d: "distinct (map fst ?m)" using assms(1) by (simp add: conns_wf_def)
  have m: "mset (map (\<lambda>c. (c_key c, c)) conns) = mset ?m"
    using arg_cong [OF assms(2), of "image_mset (\<lambda>c. (c_key c, c))"] k by (simp flip: mset_map)
  have d': "distinct (map fst (map (\<lambda>c. (c_key c, c)) conns))"
    using d mset_eq_imp_distinct_iff [OF arg_cong [OF m, of "image_mset fst", folded mset_map]] by simp
  moreover have "map_of (map (\<lambda>c. (c_key c, c)) conns) = map_of ?m"
    by (rule map_of_inject_set [THEN iffD2, OF d' d]) (use mset_eq_setD [OF m] in simp)
  ultimately show ?thesis by (simp add: conn_view_def comp_def)
qed

section \<open>Properties\<close>

text \<open>The GUI's connections are the daemon's.  The GUI subscribes first and fetches its
  snapshot later, so it sees again events that the snapshot already has; whatever the daemon
  does meanwhile and afterwards, after folding all events since the subscription its map of
  flows, counters and attribution included, is the daemon's, as long as there are never more
  flows than it keeps.\<close>

theorem mirror_connections:
  assumes "reaches ex exec fifo s0 s1" "reaches ex exec fifo s1 s2" "state_wf (d_state (sy_daemon s0))"
    and "mset conns = mset (map snd (ds_connections (d_state (sy_daemon s1))))"
    and "ds_events (d_state (sy_daemon s2)) = ds_events (d_state (sy_daemon s0)) @ es"
    and "within_cap es (conn_view (d_state (sy_daemon s1)))"
  shows "map_of (cs_conns (fold apply_event es (apply_snapshot status network usages conns rules st0))) =
    map_of (ds_connections (d_state (sy_daemon s2)))"
proof -
  let ?d1 = "d_state (sy_daemon s1)" and ?d2 = "d_state (sy_daemon s2)"
  let ?snap = "apply_snapshot status network usages conns rules st0"
  note replay = replay_since [OF assms(1-3,5)]
  have c: "distinct (map c_key conns)" "map_of (map (\<lambda>c. (c_key c, c)) conns) = conn_view ?d1"
    using snapshot_conn_view [of ?d1 conns] assms(4) replay(1) by (simp_all add: state_wf_def)
  note snap = apply_snapshot_ok [OF c(1), of status network usages rules st0]
  have "map_of (cs_conns (fold apply_event es ?snap)) = fold observe_conns es (conn_view ?d1)"
    using fold_gui_conns [OF snap(1), of es] assms(6) by (simp add: snap(3) c(2))
  also have "\<dots> = conn_view ?d2" by (rule replay(2))
  finally show ?thesis by (simp add: conn_view_def)
qed

definition quiet_poll :: poll_input where
  "quiet_poll = \<lparr>po_text = Some [], po_now = 9, po_env = po_env demo_poll, po_old_order = rev, po_order = rev\<rparr>"

theorem mirror_connections_witness:
  "let s = d_state (sy_daemon demo_system); s2 = poll_once quiet_poll s; es = drop (length (ds_events s)) (ds_events s2)
   in es \<noteq> [] \<and> map_of (cs_conns (fold apply_event es
      (apply_snapshot sample_status sample_network [] (map snd (ds_connections s)) [] client_default))) =
      map_of (ds_connections s2)"
proof -
  let ?s = "d_state (sy_daemon demo_system)"
  let ?sys = "update_state (poll_once quiet_poll) demo_system"
  let ?es = "drop (length (ds_events ?s)) (ds_events (poll_once quiet_poll ?s))"
  have "poll_ok quiet_poll" by (simp add: poll_ok_def quiet_poll_def)
  then have r: "reaches demo_ex demo_nft True demo_system ?sys"
    unfolding reaches_def by (intro r_into_rtranclp) (rule sys_step.poll)
  have r0: "reaches demo_ex demo_nft True demo_system demo_system" unfolding reaches_def by simp
  have wf: "state_wf ?s"
    by (simp add: demo_system_def demo_d_def demo_daemon_def state_wf_def daemon_new_def attributor_new_def
        attrib_wf_def conns_wf_def demo_conn_def processes_wf_def)
  have p: "poll_once quiet_poll ?s = fold close_flow (rev (map fst (ds_connections ?s))) ?s"
    by (simp add: poll_once_def quiet_poll_def collect_seen_def lines_Nil contains_key_def Let_def)
  have e: "ds_events (fold close_flow ks st) = ds_events st @ map ConnectionClosed ks" for ks st
    by (induction ks arbitrary: st) (simp_all add: close_flow_def publish_def)
  have es: "?es = map ConnectionClosed (rev (map fst (ds_connections ?s)))" by (simp add: p e)
  have "within_cap ?es (conn_view ?s)"
    unfolding es by (simp add: demo_system_def demo_d_def demo_daemon_def conn_view_def demo_conn_def MAX_CONNECTIONS_def
        card_insert_if)
  moreover have "ds_events (d_state (sy_daemon ?sys)) = ds_events ?s @ ?es"
    by (simp add: update_state_def p e)
  ultimately have "map_of (cs_conns (fold apply_event ?es (apply_snapshot sample_status sample_network []
      (map snd (ds_connections ?s)) [] client_default))) = map_of (ds_connections (d_state (sy_daemon ?sys)))"
    using mirror_connections [OF r0 r wf refl, of ?es sample_status sample_network "[]" "[]" client_default] by simp
  moreover have "?es \<noteq> []" unfolding es by (simp add: demo_system_def demo_d_def demo_daemon_def)
  ultimately show ?thesis by (simp add: Let_def update_state_def)
qed

text \<open>C24: The GUI's rules: whatever the daemon does, its rules are among those the GUI shows and in
  the same order, and they are exactly those as long as no rule is added while one for the same
  executable and action exists.\<close>

theorem mirror_rules:
  assumes "reaches ex exec fifo s s'" "state_wf (d_state (sy_daemon s))"
    and "ds_events (d_state (sy_daemon s')) = ds_events (d_state (sy_daemon s)) @ es"
    and "cs_rules st = in_rules (ds_rules (d_state (sy_daemon s)))"
  shows "subseq (in_rules (ds_rules (d_state (sy_daemon s')))) (cs_rules (fold apply_event es st)) \<and>
    (no_replacement es (cs_rules st) \<longrightarrow>
       cs_rules (fold apply_event es st) = in_rules (ds_rules (d_state (sy_daemon s'))))"
proof -
  let ?d = "d_state (sy_daemon s)"
  obtain es' where a: "announces ?d (d_state (sy_daemon s')) es'" using announces_reaches assms(1,2) by blast
  with assms(3) have "es' = es" by (simp add: announces_def)
  moreover have "behind (ds_rules ?d) (cs_rules st)"
    using assms(2,4) by (simp add: behind_def state_wf_def store_wf_def)
  ultimately show ?thesis
    using a assms(4) by (auto simp: announces_def behind_def fold_gui_rules)
qed

theorem mirror_rules_witness:
  "let s' = demo_system\<lparr>sy_daemon := reaper_tick demo_ex all_ok 60 (sy_daemon demo_system)\<rparr>;
       st = client_default\<lparr>cs_rules := in_rules demo_store\<rparr>
   in cs_rules (apply_event (RuleRemoved 2) st) = in_rules (ds_rules (d_state (sy_daemon s')))"
proof -
  let ?s' = "demo_system\<lparr>sy_daemon := reaper_tick demo_ex all_ok 60 (sy_daemon demo_system)\<rparr>"
  let ?st = "client_default\<lparr>cs_rules := in_rules demo_store\<rparr>"
  have r: "reaches demo_ex demo_nft True demo_system ?s'"
    unfolding reaches_def by (rule r_into_rtranclp) (rule sys_step.reap)
  have wf: "state_wf (d_state (sy_daemon demo_system))"
    by (simp add: demo_system_def demo_d_def demo_daemon_def state_wf_def daemon_new_def attributor_new_def
        attrib_wf_def conns_wf_def demo_conn_def processes_wf_def)
  have e: "ds_events (d_state (sy_daemon ?s')) = ds_events (d_state (sy_daemon demo_system)) @ [RuleRemoved 2]"
    by (simp add: reaper_tick_def reap_expired_def reap_locked_def demo_system_def demo_d_def demo_store_def
        demo_rule_def is_expired_def publish_def Let_def)
  have "cs_rules ?st = in_rules (ds_rules (d_state (sy_daemon demo_system)))" by (simp add: demo_system_def demo_d_def)
  from mirror_rules [OF r wf e this] show ?thesis by (simp add: Let_def)
qed

text \<open>An event the GUI misses is not made up for: the daemon's subscription may only start after it answered
  the snapshot's requests (nothing waits for it), and a subscriber that falls behind is not told.
  A flow of the snapshot whose close is not among the events received stays in the GUI's map
  for as long as the session lasts, whatever the daemon has closed.\<close>

theorem missed_close:
  assumes "distinct (map c_key conns)" "conn \<in> set conns" "within_cap es (map_of (map (\<lambda>c. (c_key c, c)) conns))"
    and "ConnectionClosed (c_key conn) \<notin> set es"
  shows "c_key conn \<in> dom (map_of (cs_conns (fold apply_event es (apply_snapshot status network usages conns rules st))))"
proof -
  note snap = apply_snapshot_ok [OF assms(1), of status network usages rules st]
  have closed: "conn_upd e = Some (k, None) \<longleftrightarrow> e = ConnectionClosed k" for e k by (cases e) auto
  have "c_key conn \<in> dom (map_of (map (\<lambda>c. (c_key c, c)) conns))"
    using assms(2) by (simp add: dom_map_of_conv_image_fst image_image)
  then have "c_key conn \<in> dom (fold observe_conns es (map_of (map (\<lambda>c. (c_key c, c)) conns)))"
    by (rule conns_seen.kept) (use assms(4) in \<open>simp add: closed\<close>)
  then show ?thesis
    using fold_gui_conns [OF snap(1), of es] assms(3) by (simp add: snap(3))
qed

theorem missed_close_witness:
  "let s = d_state (sy_daemon demo_system); s2 = poll_once quiet_poll s;
     conns = map snd (ds_connections s)
   in ds_connections s2 = [] \<and>
     ''a'' \<in> dom (map_of (cs_conns (fold apply_event [PausedChanged True]
       (apply_snapshot sample_status sample_network [] conns [] client_default))))"
proof -
  let ?s = "d_state (sy_daemon demo_system)"
  let ?conns = "map snd (ds_connections ?s)"
  have k: "map c_key ?conns = [''a'', ''b'', ''c'', ''d'']"
    by (simp add: demo_system_def demo_d_def demo_daemon_def demo_conn_def)
  have c: "hd ?conns \<in> set ?conns" "c_key (hd ?conns) = ''a''" "distinct (map c_key ?conns)"
    unfolding k by (simp_all add: demo_system_def demo_d_def demo_daemon_def demo_conn_def)
  have "within_cap [PausedChanged True] (map_of (map (\<lambda>c. (c_key c, c)) ?conns))"
    by (simp add: demo_system_def demo_d_def demo_daemon_def demo_conn_def MAX_CONNECTIONS_def card_insert_if)
  from missed_close [OF c(3,1) this, of sample_status sample_network "[]" "[]" client_default]
  have "''a'' \<in> dom (map_of (cs_conns (fold apply_event [PausedChanged True]
      (apply_snapshot sample_status sample_network [] ?conns [] client_default))))" by (simp add: c(2))
  moreover have "ds_connections (poll_once quiet_poll ?s) = []"
    by (simp add: poll_once_def quiet_poll_def collect_seen_def lines_Nil contains_key_def Let_def close_flow_def publish_def
        demo_system_def demo_d_def demo_daemon_def demo_conn_def)
  ultimately show ?thesis by (simp add: Let_def)
qed

subsection \<open>Commands of the GUI\<close>

lemma send_served:
  assumes "agree co dec enc" "request_of cmd = Some request" "fits (co_enc co) request"
    and "dispatch ex se request d = Some (response, d')" "fits enc response"
  shows "send_command co socket (served ex dec enc se d) cmd =
    (case response of
       ROk \<Rightarrow> Inr ()
     | RError message \<Rightarrow> Inl (''daemon error: '' @ message)
     | other \<Rightarrow> Inl (''unexpected response: '' @ co_debug co other))"
proof -
  have "request \<noteq> Subscribe" using assms(2) by (cases cmd) auto
  from one_shot_served_eq [OF assms(1,3) this assms(4,5)] assms(2) show ?thesis by (simp add: send_command_def)
qed

lemma shown_rule:
  assumes "apps_ok st" "map_of (cs_apps st) k = Some a" "ap_block_rule_id a = Some i"
  shows "\<exists>r exe. block_rule_for (cs_rules st) a = Some r \<and> r_id r = i \<and> ap_exe a = Some exe \<and>
    r \<in> set (cs_rules st) \<and> r_action r = Block \<and> path_eq (r_exe_path r) exe"
proof -
  have "ap_block_rule_id a = map_option r_id (block_rule_for (cs_rules st) a)"
    using assms(1,2) by (auto simp: apps_ok_alt apply_rule_flags_iff)
  with assms(3) obtain r where "block_rule_for (cs_rules st) a = Some r" "r_id r = i" by auto
  with block_rule_for_Some [of "cs_rules st" a r] show ?thesis by auto
qed

text \<open>C11: Switching a blocked program on in the GUI, when its rules are the daemon's: the command
  is accepted over the socket, the daemon no longer blocks the program's executable at any
  instant, and with the event that follows the GUI shows it as allowed, if it still lists it.\<close>

theorem gui_unblock:
  assumes "store_wf (ds_rules (d_state d))" "cs_rules st = in_rules (ds_rules (d_state d))"
    and "apps_ok st" "map_of (cs_apps st) k = Some a" "ap_block_rule_id a = Some i" "ap_exe a = Some exe"
    and "agree co dec enc" "fits (co_enc co) (RemoveRule i)" "fits enc ROk"
  shows "\<exists>d'. send_command co socket (served ex dec enc se d) (UnblockCmd i) = Inr () \<and>
    dispatch ex se (RemoveRule i) d = Some (ROk, d') \<and>
    ds_events (d_state d') = ds_events (d_state d) @ [RuleRemoved i] \<and>
    (\<forall>now. \<not> is_blocked now exe (ds_rules (d_state d'))) \<and>
    (case map_of (cs_apps (apply_event (RuleRemoved i) st)) k of None \<Rightarrow> True | Some b \<Rightarrow> is_allowed b)"
proof -
  let ?rules = "in_rules (ds_rules (d_state d))"
  let ?rules' = "filter (\<lambda>r. r_id r \<noteq> i) ?rules"
  obtain r where r: "r \<in> set ?rules" "r_id r = i" "r_action r = Block" "path_eq (r_exe_path r) exe"
    using shown_rule [OF assms(3-5)] assms(2,6) by auto
  have keys: "inj_on key_of (set ?rules)" using assms(1) by (simp add: store_wf_def distinct_map)
  have none: "\<not> (r_action q = Block \<and> path_eq (r_exe_path q) exe)" if "q \<in> set ?rules'" for q
  proof
    assume q: "r_action q = Block \<and> path_eq (r_exe_path q) exe"
    with r have "key_of q = key_of r" by (simp add: key_of_def path_eq_def)
    with keys r(1) that have "q = r" by (auto dest: inj_onD)
    with that r(2) show False by simp
  qed
  obtain res rules disk where rm: "remove (ex_to_json ex) (se_fs se) i (ds_rules (d_state d), ds_disk (d_state d)) =
      (res, rules, disk)" by (cases "remove (ex_to_json ex) (se_fs se) i (ds_rules (d_state d), ds_disk (d_state d))") auto
  have lk: "remove_locked i (ds_rules (d_state d)) = (res, rules)"
    using rm by (auto simp: remove_def split: prod.splits option.splits)
  with r have "res \<noteq> None" using remove_locked_None [of i "ds_rules (d_state d)" rules] by auto
  then obtain rule where rule: "res = Some rule" by blast
  with remove_locked_Some [OF _ assms(1), of i rule rules] lk
  have rules: "in_rules rules = ?rules'" by simp
  define d' where "d' = d\<lparr>d_state := publish (RuleRemoved i) ((d_state d)\<lparr>ds_rules := rules, ds_disk := disk\<rparr>)\<rparr>"
  have dp: "dispatch ex se (RemoveRule i) d = Some (ROk, d')" using rm rule by (simp add: d'_def Let_def)
  have "send_command co socket (served ex dec enc se d) (UnblockCmd i) = Inr ()"
    using send_served [OF assms(7) _ assms(8) dp assms(9), of "UnblockCmd i" socket] by simp
  moreover have "\<not> is_blocked now exe (ds_rules (d_state d'))" for now
    using none by (auto simp: d'_def publish_def is_blocked_def rules list_ex_iff)
  moreover have "case map_of (cs_apps (apply_event (RuleRemoved i) st)) k of None \<Rightarrow> True | Some b \<Rightarrow> is_allowed b"
  proof -
    let ?st = "st\<lparr>cs_rules := ?rules'\<rparr>"
    have wf: "bt_wf (cs_apps ?st)" "keyed (cs_apps ?st)" using assms(3) by (simp_all add: apps_ok_alt)
    have "map_of (fold list_blocked (cs_rules ?st) (cs_apps ?st)) k = Some a"
      using list_blocked_fold [OF wf, of "cs_rules ?st"] assms(4) by simp
    moreover have n: "block_rule_for ?rules' a = None" using none assms(6) by (auto simp: block_rule_for_None)
    ultimately show ?thesis
      using refresh_rule_flags_get [OF wf, of k] by (simp add: assms(2) is_allowed_def)
  qed
  ultimately show ?thesis using dp by (auto simp: d'_def publish_def)
qed

lemma find_append_Some: "List.find P xs = Some x \<Longrightarrow> List.find P (xs @ ys) = Some x"
  by (induction xs) auto

lemma gui_shows_block:
  assumes "apps_ok st" "map_of (cs_apps st) k = Some a" "block_rule_for rules a = Some r"
  shows "\<exists>b. map_of (cs_apps (refresh_rule_flags (st\<lparr>cs_rules := rules\<rparr>))) k = Some b \<and> \<not> is_allowed b \<and>
    ap_block_rule_id b = Some (r_id r) \<and> ap_exe b = ap_exe a"
proof -
  let ?st = "st\<lparr>cs_rules := rules\<rparr>"
  have wf: "bt_wf (cs_apps ?st)" "keyed (cs_apps ?st)" using assms(1) by (simp_all add: apps_ok_alt)
  have "map_of (fold list_blocked (cs_rules ?st) (cs_apps ?st)) k = Some a"
    using list_blocked_fold [OF wf, of "cs_rules ?st"] assms(2) by simp
  then show ?thesis
    using refresh_rule_flags_get [OF wf, of k] assms(3) by (simp add: is_allowed_def)
qed

text \<open>A block rule that replaces \<open>r\<close>: the new one has a new id and comes last, and \<open>r\<close>'s id is gone.\<close>

lemma replacing_add:
  assumes "store_wf store" "add_locked ch now input store = Some (r1, store1)"
    and "r \<in> set (in_rules store)" "r_action r = Block" "i_action input = Block" "path_eq (i_exe_path input) (r_exe_path r)"
  shows "filter (\<lambda>q. r_id q \<noteq> r_id r1) (in_rules store) = in_rules store" "remove_locked (r_id r) store1 = (None, store1)"
proof -
  have r1: "r_id r1 = in_next_id store" "key_of r1 = key_of r"
    "in_rules store1 = filter (\<lambda>q. key_of q \<noteq> key_of r1) (in_rules store) @ [r1]"
    using assms(2,4-6) by (auto simp: add_locked_Some key_of_def path_eq_def)
  have lt: "r_id q < in_next_id store" if "q \<in> set (in_rules store)" for q
    using assms(1) that by (simp add: store_wf_def)
  then show "filter (\<lambda>q. r_id q \<noteq> r_id r1) (in_rules store) = in_rules store"
    unfolding filter_id_iff using r1(1) by (metis less_irrefl)
  have "inj_on r_id (set (in_rules store))" using assms(1) by (simp add: store_wf_def distinct_map)
  then have "q = r" if "q \<in> set (in_rules store)" "r_id q = r_id r" for q
    using that assms(3) by (auto dest: inj_onD)
  moreover have "r_id r1 \<noteq> r_id r" using lt [OF assms(3)] r1(1) by simp
  ultimately have "r_id r \<notin> r_id ` set (in_rules store1)" unfolding r1(3) using r1(2) by auto
  then show "remove_locked (r_id r) store1 = (None, store1)" by (simp add: remove_locked_None)
qed

text \<open>C31: A block rule that replaces another one (say a temporary block of a program that is already
  blocked) leaves the GUI with a rule the daemon no longer has: no event announces the removal.
  The switch then sends the dead rule's id, the daemon refuses it and keeps blocking; and when
  the new rule goes, the GUI still shows the program as blocked.\<close>

theorem stale_rule:
  assumes "store_wf (ds_rules (d_state d))" "cs_rules st = in_rules (ds_rules (d_state d))"
    and "apps_ok st" "map_of (cs_apps st) k = Some a" "ap_block_rule_id a = Some i" "ap_exe a = Some exe"
    and "i_action input = Block" "path_eq (i_exe_path input) exe"
    and "dispatch ex se (AddRule input) d = Some (resp, d1)"
    and "agree co dec enc" "fits (co_enc co) (RemoveRule i)" "fits enc (RError (no_rule_message i))"
  shows "\<exists>r1. let st1 = apply_event (RuleAdded r1) st in
    ds_events (d_state d1) = ds_events (d_state d) @ [RuleAdded r1] \<and>
    (\<exists>b. map_of (cs_apps st1) k = Some b \<and> ap_block_rule_id b = Some i) \<and>
    send_command co socket (served ex dec enc se d1) (UnblockCmd i) = Inl (''daemon error: '' @ no_rule_message i) \<and>
    (\<exists>d2. dispatch ex se (RemoveRule i) d1 = Some (RError (no_rule_message i), d2) \<and>
       ds_rules (d_state d2) = ds_rules (d_state d1)) \<and>
    (\<exists>b. map_of (cs_apps (apply_event (RuleRemoved (r_id r1)) st1)) k = Some b \<and> \<not> is_allowed b)"
proof -
  let ?rules = "in_rules (ds_rules (d_state d))"
  obtain r where b: "block_rule_for ?rules a = Some r" and r: "r \<in> set ?rules" "r_id r = i" "r_action r = Block"
    "path_eq (r_exe_path r) exe"
    using shown_rule [OF assms(3-5)] assms(2,6) by auto
  obtain r1 rules disk where ad: "add (ex_chrono ex) (ex_to_json ex) (se_fs se) (se_now se) input
      (ds_rules (d_state d), ds_disk (d_state d)) = Some (r1, rules, disk)"
    using assms(9) by (auto simp: Let_def split: option.splits)
  then have al: "add_locked (ex_chrono ex) (se_now se) input (ds_rules (d_state d)) = Some (r1, rules)"
    by (auto simp: add_def split: option.splits)
  have d1: "ds_rules (d_state d1) = rules" "ds_events (d_state d1) = ds_events (d_state d) @ [RuleAdded r1]"
    using assms(9) ad by (auto simp: Let_def publish_def)
  have "path_eq (i_exe_path input) (r_exe_path r)" using r(4) assms(8) by (simp add: path_eq_def)
  note add = replacing_add [OF assms(1) al r(1,3) assms(7) this]
  note keep = add(1) and gone = add(2) [unfolded r(2)]
  have app: "block_rule_for (?rules @ [r1]) a = Some r" using b by (simp add: block_rule_for_def assms(6) find_append_Some)
  have st1: "apply_event (RuleAdded r1) st = refresh_rule_flags (st\<lparr>cs_rules := ?rules @ [r1]\<rparr>)"
    using assms(2) keep by simp
  let ?st1 = "apply_event (RuleAdded r1) st"
  obtain b1 where b1: "map_of (cs_apps ?st1) k = Some b1" "ap_block_rule_id b1 = Some i" "ap_exe b1 = Some exe"
    using gui_shows_block [OF assms(3,4) app] r(2) assms(6) unfolding st1 by auto
  have "cs_rules ?st1 = ?rules @ [r1]" unfolding st1 by (simp add: frame_simps)
  then have st2: "apply_event (RuleRemoved (r_id r1)) ?st1 = refresh_rule_flags (?st1\<lparr>cs_rules := ?rules\<rparr>)"
    using keep by simp
  have "block_rule_for ?rules b1 = Some r" using b b1(3) by (simp add: block_rule_for_def assms(6))
  from gui_shows_block [OF apply_event_apps [OF assms(3), of "RuleAdded r1"] b1(1) this]
  have 2: "\<exists>b. map_of (cs_apps (apply_event (RuleRemoved (r_id r1)) ?st1)) k = Some b \<and> \<not> is_allowed b"
    unfolding st2 by blast
  have "remove (ex_to_json ex) (se_fs se) i (ds_rules (d_state d1), ds_disk (d_state d1)) = (None, rules, ds_disk (d_state d1))"
    by (simp add: remove_def d1(1) gone)
  then obtain d2 where d2: "dispatch ex se (RemoveRule i) d1 = Some (RError (no_rule_message i), d2)"
    "ds_rules (d_state d2) = ds_rules (d_state d1)"
    by (simp add: Let_def d1(1))
  have "send_command co socket (served ex dec enc se d1) (UnblockCmd i) = Inl (''daemon error: '' @ no_rule_message i)"
    using send_served [OF assms(10) _ assms(11) d2(1) assms(12), of "UnblockCmd i" socket] by simp
  with 2 b1 d1(2) d2 show ?thesis by (intro exI [of _ r1]) (auto simp: Let_def simp del: dispatch.simps apply_event.simps)
qed

text \<open>A GUI that has just connected to the daemon with two block rules.\<close>

definition demo_gui :: ClientState where
  "demo_gui = apply_snapshot sample_status sample_network [] [] (in_rules demo_store) client_default"

lemma demo_gui_ok: "apps_ok demo_gui" "cs_rules demo_gui = in_rules (ds_rules (d_state demo_d))"
  using apply_snapshot_ok [of "[]" sample_status sample_network "[]" "in_rules demo_store" client_default]
  by (simp_all add: demo_gui_def demo_d_def)

lemma demo_gui_shows:
  "\<exists>a. map_of (cs_apps demo_gui) ''/bin/a'' = Some a \<and> ap_block_rule_id a = Some 1 \<and> ap_exe a = Some ''/bin/a''"
proof -
  have "map_option (\<lambda>a. (ap_block_rule_id a, ap_exe a)) (map_of (cs_apps demo_gui) ''/bin/a'') = Some (Some 1, Some ''/bin/a'')"
    by code_simp
  then show ?thesis by auto
qed

lemma demo_codec_agree: "agree demo_codec demo_req_dec demo_enc" "fits (co_enc demo_codec) (RemoveRule 1)" "fits demo_enc ROk"
  using demo_codec_decodes by (simp_all add: agree_def fits_def demo_codec_def MAX_FRAME_def)

lemma demo_d_wf: "store_wf (ds_rules (d_state demo_d))"
  using demo_store_wf by (simp add: demo_d_def)

theorem gui_unblock_witness:
  "\<exists>d'. send_command demo_codec ''/s'' (served demo_ex demo_req_dec demo_enc demo_se demo_d) (UnblockCmd 1) = Inr () \<and>
     dispatch demo_ex demo_se (RemoveRule 1) demo_d = Some (ROk, d') \<and> \<not> is_blocked 5 ''/bin/a'' (ds_rules (d_state d'))"
proof -
  obtain a where a: "map_of (cs_apps demo_gui) ''/bin/a'' = Some a" "ap_block_rule_id a = Some 1" "ap_exe a = Some ''/bin/a''"
    using demo_gui_shows by blast
  from gui_unblock [OF demo_d_wf demo_gui_ok(2,1) a demo_codec_agree, of "''/s''" demo_ex demo_se]
  show ?thesis by blast
qed

theorem stale_rule_witness:
  "\<exists>d1. dispatch demo_ex demo_se (AddRule \<lparr>i_name = ''a'', i_exe_path = ''/bin//a'', i_action = Block, i_persistent = False,
       i_ttl_secs = None\<rparr>) demo_d = Some (ROk, d1) \<and>
     send_command demo_codec ''/s'' (served demo_ex demo_req_dec demo_enc demo_se d1) (UnblockCmd 1) =
       Inl (''daemon error: '' @ no_rule_message 1)"
proof -
  let ?input = "\<lparr>i_name = ''a'', i_exe_path = ''/bin//a'', i_action = Block, i_persistent = False, i_ttl_secs = None\<rparr> :: RuleInput"
  obtain a where a: "map_of (cs_apps demo_gui) ''/bin/a'' = Some a" "ap_block_rule_id a = Some 1" "ap_exe a = Some ''/bin/a''"
    using demo_gui_shows by blast
  obtain d1 where d1: "dispatch demo_ex demo_se (AddRule ?input) demo_d = Some (ROk, d1)"
    by (auto simp: add_def add_locked_def expiry_def Let_def)
  have "show_uint (1 :: u64) = ''1''" by code_simp
  then have "fits demo_enc (RError (no_rule_message 1))" by (simp add: fits_def no_rule_message_def MAX_FRAME_def)
  from stale_rule [OF demo_d_wf demo_gui_ok(2,1) a _ _ d1 demo_codec_agree(1,2) this, of "''/s''"] d1
  show ?thesis by (intro exI [of _ d1]) (auto simp: path_eq_def Let_def simp del: dispatch.simps)
qed

text \<open>Folding an event a second time is harmless for the map but not for the totals: a GUI whose
  snapshot is newer than the events it then replays counts the bytes between an old update and the
  snapshot twice.\<close>

theorem stale_update_totals:
  assumes "conns_ok st" "length (cs_conns st) \<le> MAX_CONNECTIONS" "map_of (cs_conns st) (c_key c) = Some c"
    and "c_key old = c_key c" "c_bytes_sent old \<le> c_bytes_sent c"
  shows "cs_total_up (fold apply_event [ConnectionUpdated old, ConnectionUpdated c] st) =
      cs_total_up st + (c_bytes_sent c - c_bytes_sent old) \<and>
    map_of (cs_conns (fold apply_event [ConnectionUpdated old, ConnectionUpdated c] st)) = map_of (cs_conns st)"
proof -
  let ?st1 = "apply_event (ConnectionUpdated old) st"
  have ok: "conns_ok ?st1" by (rule apply_event_conns [OF assms(1)])
  have wf: "hm_wf (cs_conns st)" using assms(1) by (simp add: conns_ok_def)
  have l: "length (AList.update (c_key old) old (cs_conns st)) \<le> MAX_CONNECTIONS"
    using hm.length_insert [OF wf, of "c_key old" old] assms(2-4) by simp
  have c1: "cs_conns ?st1 = AList.update (c_key old) old (cs_conns st)"
    using upsert_conns_room [OF assms(1) l] by simp
  have g: "map_of (cs_conns ?st1) (c_key c) = Some old" unfolding c1 using assms(4) by (simp add: update_conv')
  have wf1: "hm_wf (cs_conns ?st1)" using ok by (simp add: conns_ok_def)
  have l2: "length (AList.update (c_key c) c (cs_conns ?st1)) \<le> MAX_CONNECTIONS"
    using hm.length_insert [OF wf1, of "c_key c" c] l g unfolding c1 by simp
  have "map_of (cs_conns (apply_event (ConnectionUpdated c) ?st1)) = map_of (cs_conns st)"
    using upsert_conns_room [OF ok l2, of False] assms(3,4) unfolding c1 by (auto simp: update_conv' fun_eq_iff)
  moreover have "cs_total_up ?st1 = cs_total_up st"
    using upsert_totals(1) [OF assms(1), of old False] assms(3-5) by (simp add: saturating_sub_def)
  moreover have "cs_total_up (apply_event (ConnectionUpdated c) ?st1) = cs_total_up ?st1 + (c_bytes_sent c - c_bytes_sent old)"
    using upsert_totals(1) [OF ok, of c False, unfolded g] assms(5) by (simp add: saturating_sub_def)
  ultimately show ?thesis by simp
qed

theorem stale_update_totals_witness:
  "let st = apply_snapshot sample_status sample_network [] [sample_flow ''a'' 100 0] [] client_default in
   cs_total_up st = 100 \<and>
   cs_total_up (fold apply_event [ConnectionUpdated (sample_flow ''a'' 60 0), ConnectionUpdated (sample_flow ''a'' 100 0)] st) = 140"
proof -
  have d: "distinct (map c_key [sample_flow ''a'' 100 0])" by simp
  note ok = apply_snapshot_ok [OF d, of sample_status sample_network "[]" "[]" client_default]
  have f: "c_key (sample_flow k u v) = k" "c_bytes_sent (sample_flow k u v) = u" for k u v by (simp_all add: sample_flow_def)
  have "length (cs_conns (apply_snapshot sample_status sample_network [] [sample_flow ''a'' 100 0] [] client_default)) \<le> MAX_CONNECTIONS"
    by (simp add: ok(3) MAX_CONNECTIONS_def)
  from stale_update_totals [OF ok(1) this, of "sample_flow ''a'' 100 0" "sample_flow ''a'' 60 0"]
  show ?thesis by (simp add: ok(3,5) f Let_def del: apply_event.simps fold.simps)
qed

end
