(* ===== verification/Netinfo.thy ===== *)
theory Netinfo
  imports CoreTypes RustMap NetAddr
begin

text \<open>
  The network snapshot (\<open>crates/daemon/src/netinfo.rs\<close>).  What netlink, NetworkManager and the
  file system answer is an input: a netlink dump is the list of its messages and whether it
  ends in an error, a D-Bus property is its value or \<^term>\<open>None\<close> when it cannot be read.
\<close>

section \<open>Definitions\<close>

subsection \<open>Links\<close>

datatype LinkAttribute = IfName string | LinkAddress "u8 list" | OtherLinkAttribute

record link_flags =
  lf_loopback :: bool
  lf_up :: bool

record link_message =
  lm_index :: u32
  lm_flags :: link_flags
  lm_attributes :: "LinkAttribute list"

type_synonym 'm dump = "'m list \<times> bool" \<comment> \<open>the messages, and whether an error ends them\<close>

type_synonym links = "(u32, InterfaceInfo) hashmap"

definition show_hex2 :: "u8 \<Rightarrow> string" where
  "show_hex2 b = (let s = show_hex b in replicate (2 - length s) CHR ''0'' @ s)"

definition format_mac :: "u8 list \<Rightarrow> string option" where
  "format_mac bytes = (if length bytes \<noteq> 6 then None else Some (join '':'' (map show_hex2 bytes)))"

definition classify_interface :: "(path \<Rightarrow> bool) \<Rightarrow> string \<Rightarrow> link_flags \<Rightarrow> InterfaceKind" where
  "classify_interface path_exists name flags =
     (if lf_loopback flags then Loopback
      else if path_exists (path_join (path_join ''/sys/class/net'' name) ''wireless'') then Wifi
      else if starts_with ''tun'' name \<or> starts_with ''wg'' name \<or> starts_with ''ppp'' name then Vpn
      else if starts_with ''e'' name then Ethernet
      else OtherKind)"

fun link_attribute :: "LinkAttribute \<Rightarrow> string \<times> string option \<Rightarrow> string \<times> string option" where
  "link_attribute (IfName n) (name, mac) = (n, mac)"
| "link_attribute (LinkAddress bytes) (name, mac) = (name, format_mac bytes)"
| "link_attribute OtherLinkAttribute (name, mac) = (name, mac)"

definition add_link :: "(path \<Rightarrow> bool) \<Rightarrow> link_message \<Rightarrow> links \<Rightarrow> links" where
  "add_link path_exists msg links =
     (let (name, mac) = fold link_attribute (lm_attributes msg) ([], None) in
      if name = [] then links
      else AList.update (lm_index msg)
        \<lparr>if_name = name, if_kind = classify_interface path_exists name (lm_flags msg), if_mac = mac,
         if_addrs = [], if_is_up = lf_up (lm_flags msg)\<rparr> links)"

subsection \<open>Addresses\<close>

datatype AddressAttribute = LocalAddress IpAddr | PeerAddress IpAddr | OtherAddressAttribute

record address_message =
  am_index :: u32
  am_attributes :: "AddressAttribute list"

text \<open>The addresses so far, and the last \<open>Address\<close> attribute.\<close>

fun address_attribute :: "AddressAttribute \<Rightarrow> IpAddr list \<times> IpAddr option \<Rightarrow> IpAddr list \<times> IpAddr option" where
  "address_attribute (LocalAddress ip) (addrs, link_local) = (addrs @ [ip], link_local)"
| "address_attribute (PeerAddress ip) (addrs, link_local) = (addrs, Some ip)"
| "address_attribute OtherAddressAttribute (addrs, link_local) = (addrs, link_local)"

definition add_address :: "address_message \<Rightarrow> links \<Rightarrow> links" where
  "add_address msg links =
     (case map_of links (am_index msg) of
        None \<Rightarrow> links
      | Some iface \<Rightarrow>
          (let (addrs, link_local) = fold address_attribute (am_attributes msg) (if_addrs iface, None);
               addrs = (case link_local of
                   Some ip \<Rightarrow> if ip \<notin> set addrs then addrs @ [ip] else addrs
                 | None \<Rightarrow> addrs)
           in AList.update (am_index msg) (iface\<lparr>if_addrs := addrs\<rparr>) links))"

subsection \<open>The default route\<close>

datatype RouteAttribute = Gateway4 Ipv4Addr | Gateway6 Ipv6Addr | Oif u32 | OtherRouteAttribute

record route_message =
  rm_main_table :: bool
  rm_unicast :: bool
  rm_prefix_length :: u8
  rm_attributes :: "RouteAttribute list"

fun route_attribute :: "RouteAttribute \<Rightarrow> IpAddr option \<times> u32 option \<Rightarrow> IpAddr option \<times> u32 option" where
  "route_attribute (Gateway4 v4) (gw, oif) = (Some (V4 v4), oif)"
| "route_attribute (Gateway6 v6) (gw, oif) = (Some (V6 v6), oif)"
| "route_attribute (Oif ix) (gw, oif) = (gw, Some ix)"
| "route_attribute OtherRouteAttribute (gw, oif) = (gw, oif)"

definition is_default_route :: "route_message \<Rightarrow> bool" where
  "is_default_route msg \<longleftrightarrow> rm_main_table msg \<and> rm_unicast msg \<and> rm_prefix_length msg = 0"

definition is_v4 :: "IpAddr option \<Rightarrow> bool" where
  "is_v4 gw = (case gw of Some (V4 _) \<Rightarrow> True | _ \<Rightarrow> False)"

definition interface_name :: "links \<Rightarrow> u32 option \<Rightarrow> string option" where
  "interface_name links oif = (case oif of None \<Rightarrow> None | Some ix \<Rightarrow> map_option if_name (map_of links ix))"

text \<open>The loop over the routes; \<^term>\<open>None\<close> when the dump fails before it is left.\<close>

fun pick_route :: "links \<Rightarrow> route_message list \<Rightarrow> bool \<Rightarrow> IpAddr option \<times> string option
    \<Rightarrow> (IpAddr option \<times> string option) option" where
  "pick_route links [] fails acc = (if fails then None else Some acc)"
| "pick_route links (msg # msgs) fails (gateway, primary_interface) =
     (if \<not> is_default_route msg then pick_route links msgs fails (gateway, primary_interface)
      else (let (gw, oif) = fold route_attribute (rm_attributes msg) (None, None);
                (gateway, primary_interface) = (if gateway = None then (gw, interface_name links oif)
                                                else (gateway, primary_interface))
            in if is_v4 gw then Some (gw, interface_name links oif)
               else pick_route links msgs fails (gateway, primary_interface)))"

record netlink =
  nl_connects :: bool
  nl_links :: "link_message dump"
  nl_addresses :: "address_message dump"
  nl_routes :: "route_message dump"
  nl_order :: "InterfaceInfo list \<Rightarrow> InterfaceInfo list" \<comment> \<open>iteration order of the map\<close>
  nl_path_exists :: "path \<Rightarrow> bool"

definition netlink_info :: "netlink \<Rightarrow> (InterfaceInfo list \<times> IpAddr option \<times> string option) option" where
  "netlink_info nl =
     (if \<not> nl_connects nl \<or> snd (nl_links nl) \<or> snd (nl_addresses nl) then None
      else (let links = fold (add_link (nl_path_exists nl)) (fst (nl_links nl)) [];
                links = fold add_address (fst (nl_addresses nl)) links
            in (case pick_route links (fst (nl_routes nl)) (snd (nl_routes nl)) (None, None) of
                  None \<Rightarrow> None
                | Some (gateway, primary_interface) \<Rightarrow>
                    Some (nl_order nl (map snd links), gateway, primary_interface))))"

subsection \<open>DNS servers\<close>

text \<open>\<open>split(['#', ';']).next()\<close> is what comes before the first of the two.\<close>

definition strip_comment :: "string \<Rightarrow> string" where
  "strip_comment line = takeWhile (\<lambda>c. c \<noteq> CHR ''#'' \<and> c \<noteq> CHR '';'') line"

definition nameserver_of :: "string \<Rightarrow> IpAddr option" where
  "nameserver_of line =
     (case split_whitespace (trim (strip_comment line)) of
        k # v # _ \<Rightarrow> if k = ''nameserver'' then parse_ip v else None
      | _ \<Rightarrow> None)"

definition parse_resolv_conf :: "string \<Rightarrow> IpAddr list" where
  "parse_resolv_conf s = List.map_filter nameserver_of (lines s)"

definition read_dns_servers :: "string option \<Rightarrow> IpAddr list" where
  "read_dns_servers file = (case file of Some s \<Rightarrow> parse_resolv_conf s | None \<Rightarrow> [])"

subsection \<open>NetworkManager\<close>

record nm_device =
  nd_proxy :: bool
  nd_active_ap :: "string option"
  nd_ap_proxy :: bool
  nd_ssid :: "u8 list option"

record nm_connection =
  nc_proxy :: bool
  nc_type :: "string option"
  nc_metered :: "u32 option"
  nc_devices :: "nm_device list option"

text \<open>The loop over the devices of a wireless connection; a proxy that cannot be built is an error
  of the whole query.\<close>

fun find_ssid :: "(u8 list \<Rightarrow> string) \<Rightarrow> nm_device list \<Rightarrow> string option option" where
  "find_ssid lossy [] = Some None"
| "find_ssid lossy (dev # devs) =
     (if \<not> nd_proxy dev then None
      else (case nd_active_ap dev of
          None \<Rightarrow> find_ssid lossy devs
        | Some ap_path \<Rightarrow>
            if ap_path = ''/'' then find_ssid lossy devs
            else if \<not> nd_ap_proxy dev then None
            else (case nd_ssid dev of
                Some raw \<Rightarrow> Some (Some (lossy raw))
              | None \<Rightarrow> find_ssid lossy devs)))"

fun nm_connections :: "(u8 list \<Rightarrow> string) \<Rightarrow> nm_connection list \<Rightarrow> string option \<times> bool option
    \<Rightarrow> (string option \<times> bool option) option" where
  "nm_connections lossy [] acc = Some acc"
| "nm_connections lossy (ac # acs) (ssid, metered) =
     (if \<not> nc_proxy ac then None
      else (case nc_type ac of
          None \<Rightarrow> nm_connections lossy acs (ssid, metered)
        | Some conn_type \<Rightarrow>
            (let metered = (if metered = None then map_option (\<lambda>m. m = 1 \<or> m = 3) (nc_metered ac) else metered) in
             if ssid = None \<and> conn_type = ''802-11-wireless'' then
               (case nc_devices ac of
                  None \<Rightarrow> nm_connections lossy acs (ssid, metered)
                | Some devs \<Rightarrow>
                    (case find_ssid lossy devs of
                       None \<Rightarrow> None
                     | Some ssid \<Rightarrow> nm_connections lossy acs (ssid, metered)))
             else nm_connections lossy acs (ssid, metered))))"

text \<open>\<^term>\<open>None\<close>: the bus, the service or its list of active connections is not there.\<close>

definition nm_info_inner :: "(u8 list \<Rightarrow> string) \<Rightarrow> nm_connection list option \<Rightarrow> (string option \<times> bool option) option" where
  "nm_info_inner lossy active = (case active of None \<Rightarrow> None | Some acs \<Rightarrow> nm_connections lossy acs (None, None))"

definition nm_info :: "(u8 list \<Rightarrow> string) \<Rightarrow> nm_connection list option \<Rightarrow> string option \<times> bool option" where
  "nm_info lossy active = (case nm_info_inner lossy active of Some v \<Rightarrow> v | None \<Rightarrow> (None, None))"

subsection \<open>The snapshot\<close>

definition snapshot :: "netlink \<Rightarrow> string option \<Rightarrow> (u8 list \<Rightarrow> string) \<Rightarrow> nm_connection list option \<Rightarrow> NetworkInfo" where
  "snapshot nl resolv_conf lossy active =
     (let (interfaces, gateway, primary_interface) =
            (case netlink_info nl of Some v \<Rightarrow> v | None \<Rightarrow> ([], None, None));
          dns_servers = read_dns_servers resolv_conf;
          (ssid, metered) = nm_info lossy active
      in \<lparr>ni_interfaces = interfaces, ni_gateway = gateway, ni_dns_servers = dns_servers, ni_ssid = ssid,
          ni_metered = metered, ni_primary_interface = primary_interface\<rparr>)"

section \<open>Specification\<close>

text \<open>The gateway and the interface of a route, and the route the snapshot takes: the first default
  route over IPv4, else the first one with a gateway, else the last one.\<close>

definition route_gateway :: "route_message \<Rightarrow> IpAddr option" where
  "route_gateway msg = fst (fold route_attribute (rm_attributes msg) (None, None))"

definition route_interface :: "links \<Rightarrow> route_message \<Rightarrow> string option" where
  "route_interface links msg = interface_name links (snd (fold route_attribute (rm_attributes msg) (None, None)))"

definition chosen_route :: "route_message list \<Rightarrow> route_message option" where
  "chosen_route msgs =
     (let defaults = filter is_default_route msgs in
      case List.find (\<lambda>m. is_v4 (route_gateway m)) defaults of
        Some m \<Rightarrow> Some m
      | None \<Rightarrow>
          (case List.find (\<lambda>m. route_gateway m \<noteq> None) defaults of
             Some m \<Rightarrow> Some m
           | None \<Rightarrow> if defaults = [] then None else Some (last defaults)))"

text \<open>The lines of a \<open>resolv.conf\<close>.\<close>

datatype resolv_line = Nameserver IpAddr "string option" | Comment char string | Option string "string list"

fun resolv_text :: "resolv_line \<Rightarrow> string" where
  "resolv_text (Nameserver a comment) =
     ''nameserver '' @ show_ip a @ (case comment of None \<Rightarrow> [] | Some c \<Rightarrow> '' # '' @ c)"
| "resolv_text (Comment c s) = c # s"
| "resolv_text (Option k args) = join '' '' (k # args)"

fun resolv_line_ok :: "resolv_line \<Rightarrow> bool" where
  "resolv_line_ok (Nameserver a comment) = (case comment of None \<Rightarrow> True | Some c \<Rightarrow> NL \<notin> set c \<and> CHR 0x0D \<notin> set c)"
| "resolv_line_ok (Comment c s) = ((c = CHR ''#'' \<or> c = CHR '';'') \<and> NL \<notin> set s \<and> CHR 0x0D \<notin> set s)"
| "resolv_line_ok (Option k args) = (k \<noteq> ''nameserver'' \<and> list_all token (k # args) \<and>
     list_all (\<lambda>s. CHR ''#'' \<notin> set s \<and> CHR '';'' \<notin> set s) (k # args))"

fun server_of :: "resolv_line \<Rightarrow> IpAddr list" where
  "server_of (Nameserver a _) = [a]"
| "server_of _ = []"

section \<open>Lemmas\<close>

subsection \<open>Trimming\<close>

definition spaced :: "string \<Rightarrow> bool" where
  "spaced s \<longleftrightarrow> (\<forall>c \<in> set s. printable c \<or> c = CHR '' '')"

lemma spaced_Cons: "spaced (c # s) \<longleftrightarrow> (printable c \<or> c = CHR '' '') \<and> spaced s"
  by (auto simp: spaced_def)

lemma split_trim_start: "spaced s \<Longrightarrow> split_whitespace (trim_start s) = split_whitespace s"
proof (induction s)
  case (Cons c s)
  then show ?case
    by (subst trim_start.simps) (auto simp: spaced_Cons ws_len_printable)
qed (simp add: trim_start.simps)

lemma spaced_trim_start: "spaced s \<Longrightarrow> spaced (trim_start s)"
proof (induction s)
  case (Cons c s)
  then show ?case
    by (subst trim_start.simps) (auto simp: spaced_Cons ws_len_printable)
qed (simp add: trim_start.simps)

lemma split_trim_end_from:
  "spaced s \<Longrightarrow> split_ws_from 0 cur (trim_end_from 0 s) = split_ws_from 0 cur s"
proof (induction s arbitrary: cur)
  case (Cons c s)
  show ?case
  proof (cases "printable c")
    case True
    with Cons show ?thesis
      by (simp add: spaced_Cons ws_len_printable trim_start.simps)
  next
    case False
    with Cons have c: "c = CHR '' ''" "spaced s" by (auto simp: spaced_Cons)
    show ?thesis
    proof (cases "trim_start s = []")
      case True
      with c split_trim_start [of s] have "split_ws_from 0 [] s = []"
        by (simp add: split_whitespace_def)
      with True c show ?thesis by (simp add: trim_start.simps [of "CHR '' '' # s"])
    next
      case False
      with c Cons.IH show ?thesis by (simp add: trim_start.simps [of "CHR '' '' # s"])
    qed
  qed
qed simp

lemma split_trim: "spaced s \<Longrightarrow> split_whitespace (trim s) = split_whitespace s"
  using split_trim_end_from [of "trim_start s" "[]"] split_trim_start
  by (simp add: trim_def trim_end_def spaced_trim_start split_whitespace_def)

lemma spaced_token: "token t \<Longrightarrow> spaced t"
  by (simp add: token_def spaced_def)

lemma spaced_append: "spaced (s @ t) \<longleftrightarrow> spaced s \<and> spaced t"
  by (auto simp: spaced_def)

lemma spaced_join: "(\<And>t. t \<in> set ts \<Longrightarrow> token t) \<Longrightarrow> spaced (join '' '' ts)"
  by (induction "'' ''" ts rule: join.induct)
    (auto simp: spaced_append spaced_Cons spaced_token, simp add: spaced_def)

subsection \<open>\<open>resolv.conf\<close>\<close>

lemma strip_comment_none: "CHR ''#'' \<notin> set s \<Longrightarrow> CHR '';'' \<notin> set s \<Longrightarrow> strip_comment s = s"
  by (auto simp: strip_comment_def takeWhile_eq_all_conv)

lemma strip_comment_append:
  "CHR ''#'' \<notin> set s \<Longrightarrow> CHR '';'' \<notin> set s \<Longrightarrow> c = CHR ''#'' \<or> c = CHR '';'' \<Longrightarrow> strip_comment (s @ c # t) = s"
  by (simp add: strip_comment_def takeWhile_append2 takeWhile_eq_all_conv) (subst takeWhile_append2; auto)

lemma set_show_ip_comment: "CHR ''#'' \<notin> set (show_ip a)" "CHR '';'' \<notin> set (show_ip a)" "NL \<notin> set (show_ip a)"
    "CHR 0x0D \<notin> set (show_ip a)"
  by (auto dest!: set_show_ip simp: is_hex_def is_dec_def NL_def)

lemma notin_join:
  "c \<noteq> CHR '' '' \<Longrightarrow> (\<And>t. t \<in> set ts \<Longrightarrow> c \<notin> set t) \<Longrightarrow> c \<notin> set (join '' '' ts)"
  by (induction "'' ''" ts rule: join.induct) auto

lemma nameserver_line: "nameserver_of (resolv_text (Nameserver a comment)) = Some a"
proof -
  let ?k = "''nameserver '' @ show_ip a"
  have tok: "token ''nameserver''" by (simp add: token_def printable_def)
  have sp: "split_whitespace ?k = [''nameserver'', show_ip a]"
    using split_whitespace_token [OF tok, of "show_ip a"] by (simp add: split_whitespace_last)
  have sp': "split_whitespace (?k @ '' '') = [''nameserver'', show_ip a]"
    using split_whitespace_token [OF tok, of "show_ip a @ '' ''"] by (simp add: split_whitespace_token)
  have ok: "spaced ?k" "spaced (?k @ '' '')"
    using spaced_token [OF token_show_ip [of a]] by (simp_all add: spaced_append, simp_all add: spaced_def printable_def)
  have nc: "CHR ''#'' \<notin> set ?k" "CHR '';'' \<notin> set ?k" "CHR ''#'' \<notin> set (?k @ '' '')" "CHR '';'' \<notin> set (?k @ '' '')"
    by (simp_all add: set_show_ip_comment)
  have "strip_comment (resolv_text (Nameserver a comment)) = ?k \<or> strip_comment (resolv_text (Nameserver a comment)) = ?k @ '' ''"
  proof (cases comment)
    case None
    with strip_comment_none [OF nc(1,2)] show ?thesis by simp
  next
    case (Some c)
    with strip_comment_append [OF nc(3,4), of "CHR ''#''" "CHR '' '' # c"] show ?thesis by simp
  qed
  then have "split_whitespace (trim (strip_comment (resolv_text (Nameserver a comment)))) = [''nameserver'', show_ip a]"
    using split_trim [OF ok(1)] split_trim [OF ok(2)] sp sp' by (elim disjE) (simp_all only:)
  then show ?thesis
    by (simp add: nameserver_of_def parse_ip_show)
qed

lemma nameserver_of_line: "resolv_line_ok l \<Longrightarrow> nameserver_of (resolv_text l) =
  (case l of Nameserver a _ \<Rightarrow> Some a | _ \<Rightarrow> None)"
proof (cases l)
  case (Nameserver a comment)
  show ?thesis unfolding Nameserver nameserver_line by simp
next
  case (Comment c s)
  moreover assume "resolv_line_ok l"
  ultimately have "strip_comment (resolv_text l) = []"
    by (auto simp: strip_comment_def)
  with Comment show ?thesis
    using split_trim [of "[]"] by (simp add: nameserver_of_def spaced_def)
next
  case (Option k args)
  moreover assume ok: "resolv_line_ok l"
  ultimately have tok: "\<And>t. t \<in> set (k # args) \<Longrightarrow> token t"
    and nc: "\<And>t. t \<in> set (k # args) \<Longrightarrow> CHR ''#'' \<notin> set t \<and> CHR '';'' \<notin> set t"
    by (auto simp: list_all_iff)
  have nc': "CHR ''#'' \<notin> set (join '' '' (k # args))" "CHR '';'' \<notin> set (join '' '' (k # args))"
    by (rule notin_join; use nc in simp)+
  have "split_whitespace (trim (join '' '' (k # args))) = k # args"
    using tok by (subst split_trim) (blast intro: spaced_join split_whitespace_join)+
  then have "split_whitespace (trim (strip_comment (resolv_text l))) = k # args"
    unfolding Option resolv_text.simps strip_comment_none [OF nc'] .
  with Option ok show ?thesis
    by (cases args) (simp_all add: nameserver_of_def)
qed

lemma token_no_break: "token t \<Longrightarrow> NL \<notin> set t \<and> CHR 0x0D \<notin> set t"
  by (auto simp: token_def printable_def NL_def)

lemma resolv_text_no_break: "resolv_line_ok l \<Longrightarrow> NL \<notin> set (resolv_text l) \<and> CHR 0x0D \<notin> set (resolv_text l)"
proof (cases l)
  case (Option k args)
  moreover assume "resolv_line_ok l"
  ultimately have "NL \<notin> set t \<and> CHR 0x0D \<notin> set t" if "t \<in> set (k # args)" for t
    using that token_no_break by (auto simp: list_all_iff)
  then have "NL \<notin> set (join '' '' (k # args)) \<and> CHR 0x0D \<notin> set (join '' '' (k # args))"
    by (intro conjI notin_join) (simp_all add: NL_def)
  with Option show ?thesis by simp
next
  case (Nameserver a comment)
  have nl: "NL \<notin> set ''nameserver ''" "NL \<notin> set '' # ''" by (simp_all add: NL_def)
  assume "resolv_line_ok l"
  with Nameserver nl set_show_ip_comment [of a] show ?thesis
    by (cases comment) simp_all
next
  case (Comment c s)
  moreover assume "resolv_line_ok l"
  ultimately show ?thesis by (auto simp: NL_def)
qed

lemma resolv_text_line: "resolv_line_ok l \<Longrightarrow> NL \<notin> set (resolv_text l) \<and> (resolv_text l = [] \<or> last (resolv_text l) \<noteq> CHR 0x0D)"
  using resolv_text_no_break [of l] by (metis last_in_set)

subsection \<open>Routes\<close>

lemma route_attribute_pair:
  "fold route_attribute as (None, None) = (gw, oif) \<Longrightarrow> as = rm_attributes m \<Longrightarrow>
     gw = route_gateway m \<and> interface_name links oif = route_interface links m"
  by (simp add: route_gateway_def route_interface_def)

lemma pick_route_step:
  "pick_route links (msg # msgs) fails acc =
     (if \<not> is_default_route msg then pick_route links msgs fails acc
      else if is_v4 (route_gateway msg) then Some (route_gateway msg, route_interface links msg)
      else pick_route links msgs fails
        (if fst acc = None then (route_gateway msg, route_interface links msg) else acc))"
  by (cases acc) (auto simp: route_gateway_def route_interface_def split: prod.split)

declare pick_route.simps(2) [simp del]

definition route_of :: "links \<Rightarrow> route_message \<Rightarrow> IpAddr option \<times> string option" where
  "route_of links m = (route_gateway m, route_interface links m)"

lemma pick_route_v4:
  "List.find (\<lambda>m. is_v4 (route_gateway m)) (filter is_default_route msgs) = Some m \<Longrightarrow>
     pick_route links msgs fails acc = Some (route_of links m)"
  by (induction msgs arbitrary: acc) (auto simp: pick_route_step route_of_def split: if_splits)

lemma pick_route_keep:
  "List.find (\<lambda>m. is_v4 (route_gateway m)) (filter is_default_route msgs) = None \<Longrightarrow> fst acc \<noteq> None \<Longrightarrow>
     pick_route links msgs fails acc = (if fails then None else Some acc)"
  by (induction msgs) (auto simp: pick_route_step split: if_splits)

lemma pick_route_other:
  "List.find (\<lambda>m. is_v4 (route_gateway m)) (filter is_default_route msgs) = None \<Longrightarrow> fst acc = None \<Longrightarrow>
     pick_route links msgs False acc =
       Some (case chosen_route msgs of None \<Rightarrow> acc | Some m \<Rightarrow> route_of links m)"
proof (induction msgs arbitrary: acc)
  case (Cons m msgs)
  show ?case
  proof (cases "is_default_route m")
    case True
    with Cons.prems have v4: "\<not> is_v4 (route_gateway m)"
      "List.find (\<lambda>m. is_v4 (route_gateway m)) (filter is_default_route msgs) = None"
      by (auto split: if_splits)
    show ?thesis
    proof (cases "route_gateway m")
      case None
      have "chosen_route (m # msgs) = Some (case chosen_route msgs of None \<Rightarrow> m | Some m' \<Rightarrow> m')"
        using True v4 None by (auto simp: chosen_route_def Let_def split: option.splits)
      with True v4 None Cons show ?thesis
        by (simp add: pick_route_step route_of_def split: option.split)
    next
      case (Some g)
      with True v4 have "chosen_route (m # msgs) = Some m"
        by (simp add: chosen_route_def)
      with True v4 Some Cons.prems show ?thesis
        by (simp add: pick_route_step pick_route_keep route_of_def)
    qed
  next
    case False
    with Cons show ?thesis by (simp add: pick_route_step chosen_route_def)
  qed
qed (simp add: chosen_route_def)

lemma pick_route_chosen:
  "pick_route links msgs False (None, None) =
     Some (case chosen_route msgs of None \<Rightarrow> (None, None) | Some m \<Rightarrow> route_of links m)"
proof (cases "List.find (\<lambda>m. is_v4 (route_gateway m)) (filter is_default_route msgs)")
  case None
  then show ?thesis by (simp add: pick_route_other)
next
  case (Some m)
  then have "chosen_route msgs = Some m" by (simp add: chosen_route_def)
  with pick_route_v4 [OF Some] show ?thesis by simp
qed

subsection \<open>Links and addresses\<close>

text \<open>The name and the hardware address a link message carries: the last of each.\<close>

definition link_name :: "link_message \<Rightarrow> string" where
  "link_name msg = fst (fold link_attribute (lm_attributes msg) ([], None))"

lemma add_link_wf [inv_intros]: "hm_wf links \<Longrightarrow> hm_wf (add_link pe msg links)"
  by (auto simp: add_link_def AList.distinct_update split: prod.split)

lemma add_address_wf [inv_intros]: "hm_wf links \<Longrightarrow> hm_wf (add_address msg links)"
  by (auto simp: add_address_def AList.distinct_update split: prod.split option.split)

lemma fold_links_wf: "hm_wf links \<Longrightarrow> hm_wf (fold (add_link pe) msgs links)"
  by (induction msgs arbitrary: links) (simp_all add: add_link_wf)

lemma fold_addresses_wf: "hm_wf links \<Longrightarrow> hm_wf (fold add_address msgs links)"
  by (induction msgs arbitrary: links) (simp_all add: add_address_wf)

lemma add_link_named:
  "map_of (add_link pe msg links) i =
     (if i = lm_index msg \<and> link_name msg \<noteq> [] then
        Some \<lparr>if_name = link_name msg, if_kind = classify_interface pe (link_name msg) (lm_flags msg),
          if_mac = snd (fold link_attribute (lm_attributes msg) ([], None)), if_addrs = [], if_is_up = lf_up (lm_flags msg)\<rparr>
      else map_of links i)"
  by (auto simp: add_link_def link_name_def AList.update_conv' split: prod.splits)

fun address_of :: "AddressAttribute \<Rightarrow> IpAddr list" where
  "address_of (LocalAddress ip) = [ip]"
| "address_of _ = []"

fun peer_of :: "AddressAttribute \<Rightarrow> IpAddr list" where
  "peer_of (PeerAddress ip) = [ip]"
| "peer_of _ = []"

definition addresses_of :: "address_message \<Rightarrow> IpAddr list" where
  "addresses_of msg = concat (map address_of (am_attributes msg))"

definition last_peer :: "address_message \<Rightarrow> IpAddr option" where
  "last_peer msg = (let ps = concat (map peer_of (am_attributes msg)) in if ps = [] then None else Some (last ps))"

lemma fold_address_attribute:
  "fold address_attribute as (addrs, peer) =
     (addrs @ concat (map address_of as),
      let ps = concat (map peer_of as) in if ps = [] then peer else Some (last ps))"
proof (induction as arbitrary: addrs peer)
  case (Cons a as)
  then show ?case by (cases a) (auto simp: Let_def)
qed simp

text \<open>The addresses an address message adds to those of its interface.\<close>

definition with_addresses :: "address_message \<Rightarrow> IpAddr list \<Rightarrow> IpAddr list" where
  "with_addresses msg addrs =
     (let addrs = addrs @ addresses_of msg in
      case last_peer msg of
        Some p \<Rightarrow> if p \<in> set addrs then addrs else addrs @ [p]
      | None \<Rightarrow> addrs)"

lemma map_of_add_address:
  "map_of (add_address msg links) i =
     (if i = am_index msg then map_option (\<lambda>f. f\<lparr>if_addrs := with_addresses msg (if_addrs f)\<rparr>) (map_of links i)
      else map_of links i)"
  by (auto simp: add_address_def with_addresses_def addresses_of_def last_peer_def fold_address_attribute
      AList.update_conv' Let_def split: option.split)

lemma map_of_fold_addresses:
  "map_of (fold add_address msgs links) i =
     map_option (\<lambda>f. f\<lparr>if_addrs := fold with_addresses (filter (\<lambda>m. am_index m = i) msgs) (if_addrs f)\<rparr>) (map_of links i)"
  by (induction msgs arbitrary: links) (auto simp: map_of_add_address option.map_comp o_def option.map_ident)

lemma show_hex2_length: "length (show_hex2 b) = 2"
proof -
  have "length (show_hex b) \<le> 2"
    using length_show_radix [of 16 "unat b" 1] unsigned_less [of b, where ?'a = nat] by (simp add: show_hex_def)
  then show ?thesis by (simp add: show_hex2_def Let_def)
qed

subsection \<open>The interfaces\<close>

definition named_link :: "link_message list \<Rightarrow> u32 \<Rightarrow> link_message option" where
  "named_link msgs i = List.find (\<lambda>m. lm_index m = i \<and> link_name m \<noteq> []) (rev msgs)"

definition interface_of :: "(path \<Rightarrow> bool) \<Rightarrow> link_message \<Rightarrow> InterfaceInfo" where
  "interface_of pe m =
     \<lparr>if_name = link_name m, if_kind = classify_interface pe (link_name m) (lm_flags m),
      if_mac = snd (fold link_attribute (lm_attributes m) ([], None)), if_addrs = [], if_is_up = lf_up (lm_flags m)\<rparr>"

definition addressed :: "address_message list \<Rightarrow> u32 \<Rightarrow> InterfaceInfo \<Rightarrow> InterfaceInfo" where
  "addressed msgs i f =
     f\<lparr>if_addrs := fold with_addresses (filter (\<lambda>m. am_index m = i) msgs) (if_addrs f)\<rparr>"

lemma find_append: "List.find P (xs @ ys) = (case List.find P xs of None \<Rightarrow> List.find P ys | Some x \<Rightarrow> Some x)"
  by (induction xs) auto

lemma map_of_fold_links:
  "map_of (fold (add_link pe) msgs links) i =
     (case named_link msgs i of None \<Rightarrow> map_of links i | Some m \<Rightarrow> Some (interface_of pe m))"
proof (induction msgs rule: rev_induct)
  case (snoc m msgs)
  then show ?case
    by (auto simp: add_link_named named_link_def interface_of_def)
qed (simp add: named_link_def)

definition final_links :: "netlink \<Rightarrow> links" where
  "final_links nl = fold add_address (fst (nl_addresses nl)) (fold (add_link (nl_path_exists nl)) (fst (nl_links nl)) [])"

lemma map_of_final_links:
  "map_of (final_links nl) i = map_option (\<lambda>m. addressed (fst (nl_addresses nl)) i (interface_of (nl_path_exists nl) m))
     (named_link (fst (nl_links nl)) i)"
  by (simp add: final_links_def map_of_fold_addresses map_of_fold_links addressed_def split: option.split)

lemma final_links_wf: "hm_wf (final_links nl)"
  by (simp add: final_links_def fold_links_wf fold_addresses_wf)

lemma dom_named_link: "dom (named_link msgs) = lm_index ` {m \<in> set msgs. link_name m \<noteq> []}"
  by (auto simp: named_link_def dom_def find_Some_iff find_None_iff image_iff)

lemma final_links_interfaces:
  "set (map snd (final_links nl)) =
     {f. \<exists>i m. named_link (fst (nl_links nl)) i = Some m \<and>
        f = addressed (fst (nl_addresses nl)) i (interface_of (nl_path_exists nl) m)}"
proof -
  have "f \<in> set (map snd (final_links nl)) \<longleftrightarrow> (\<exists>i. map_of (final_links nl) i = Some f)" for f
    using hm.in_entries_iff [OF final_links_wf [of nl]] by (force simp: image_iff)
  then have "set (map snd (final_links nl)) = {f. \<exists>i. map_of (final_links nl) i = Some f}"
    by blast
  then show ?thesis by (simp only: map_of_final_links map_option_eq_Some) (rule Collect_cong, blast)
qed

lemma length_final_links:
  "length (final_links nl) = card (lm_index ` {m \<in> set (fst (nl_links nl)). link_name m \<noteq> []})"
proof -
  have "dom (map_of (final_links nl)) = dom (named_link (fst (nl_links nl)))"
    by (auto simp: map_of_final_links dom_def)
  then show ?thesis
    using hm.length_entries [OF final_links_wf [of nl]] by (simp add: dom_named_link)
qed

definition netlink_ok :: "netlink \<Rightarrow> bool" where
  "netlink_ok nl \<longleftrightarrow> nl_connects nl \<and> \<not> snd (nl_links nl) \<and> \<not> snd (nl_addresses nl) \<and> \<not> snd (nl_routes nl) \<and>
     mset (nl_order nl (map snd (final_links nl))) = mset (map snd (final_links nl))"

lemma netlink_info_ok:
  "netlink_ok nl \<Longrightarrow> netlink_info nl = Some (nl_order nl (map snd (final_links nl)),
     case chosen_route (fst (nl_routes nl)) of None \<Rightarrow> (None, None) | Some m \<Rightarrow> route_of (final_links nl) m)"
  by (simp add: netlink_info_def netlink_ok_def pick_route_chosen Let_def final_links_def
      split: option.split)

section \<open>Properties\<close>

definition link_demo :: "u32 \<Rightarrow> string \<Rightarrow> link_message" where
  "link_demo i n = \<lparr>lm_index = i, lm_flags = \<lparr>lf_loopback = (n = ''lo''), lf_up = True\<rparr>,
     lm_attributes = [IfName n, LinkAddress [1, 2, 3, 4, 5, 6]]\<rparr>"

definition gateway_demo :: "RouteAttribute list \<Rightarrow> route_message" where
  "gateway_demo as = \<lparr>rm_main_table = True, rm_unicast = True, rm_prefix_length = 0, rm_attributes = as\<rparr>"

definition netlink_demo :: netlink where
  "netlink_demo = \<lparr>nl_connects = True,
     nl_links = ([link_demo 1 ''lo'', link_demo 2 ''wlan0'', link_demo 3 ''''], False),
     nl_addresses = ([\<lparr>am_index = 2, am_attributes = [PeerAddress (V4 (Ipv4Addr 10 0 0 9)), LocalAddress (V4 (Ipv4Addr 10 0 0 1))]\<rparr>], False),
     nl_routes = ([gateway_demo [Gateway6 (Ipv6Addr 0xfe80 0 0 0 0 0 0 1), Oif 2],
       gateway_demo [Oif 2, Gateway4 (Ipv4Addr 10 0 0 2)]], False),
     nl_order = rev, nl_path_exists = (\<lambda>p. p = ''/sys/class/net/wlan0/wireless'')\<rparr>"

text \<open>C34: when netlink answers, the snapshot lists exactly one interface per index that has a link
  with a name, with the attributes of its last such link message and the addresses of all the
  address messages for it (every local address and, unless it is already among them, the peer
  address of each message); its gateway and primary interface
  are those of one route of the main table: the first default route with an IPv4 gateway, else the first
  default route with a gateway, else the last default route.  The comment in the code promises
  "prefer the IPv4 default route; take whatever appears first": the code departs from it, since a
  default route without a gateway is replaced by the next default route, whether or not that one
  has a gateway, and a default route over IPv4 is known only by its gateway.\<close>

theorem netlink_snapshot:
  assumes "netlink_ok nl"
  shows "set (ni_interfaces (snapshot nl file lossy active)) =
        {f. \<exists>i m. named_link (fst (nl_links nl)) i = Some m \<and>
          f = addressed (fst (nl_addresses nl)) i (interface_of (nl_path_exists nl) m)} \<and>
      length (ni_interfaces (snapshot nl file lossy active)) =
        card (lm_index ` {m \<in> set (fst (nl_links nl)). link_name m \<noteq> []}) \<and>
      (ni_gateway (snapshot nl file lossy active), ni_primary_interface (snapshot nl file lossy active)) =
        (case chosen_route (fst (nl_routes nl)) of None \<Rightarrow> (None, None)
         | Some m \<Rightarrow> (route_gateway m, case snd (fold route_attribute (rm_attributes m) (None, None)) of None \<Rightarrow> None
             | Some i \<Rightarrow> map_option link_name (named_link (fst (nl_links nl)) i)))"
proof (intro conjI)
  have m: "mset (ni_interfaces (snapshot nl file lossy active)) = mset (map snd (final_links nl))"
    using assms by (simp add: snapshot_def netlink_info_ok netlink_ok_def split: prod.split)
  show "set (ni_interfaces (snapshot nl file lossy active)) =
        {f. \<exists>i m. named_link (fst (nl_links nl)) i = Some m \<and>
          f = addressed (fst (nl_addresses nl)) i (interface_of (nl_path_exists nl) m)}"
    using mset_eq_setD [OF m] by (simp only: final_links_interfaces)
  show "length (ni_interfaces (snapshot nl file lossy active)) =
        card (lm_index ` {m \<in> set (fst (nl_links nl)). link_name m \<noteq> []})"
    using mset_eq_length [OF m] by (simp only: length_map length_final_links)
  show "(ni_gateway (snapshot nl file lossy active), ni_primary_interface (snapshot nl file lossy active)) =
        (case chosen_route (fst (nl_routes nl)) of None \<Rightarrow> (None, None)
         | Some m \<Rightarrow> (route_gateway m, case snd (fold route_attribute (rm_attributes m) (None, None)) of None \<Rightarrow> None
             | Some i \<Rightarrow> map_option link_name (named_link (fst (nl_links nl)) i)))"
    using assms
    by (auto simp: snapshot_def netlink_info_ok route_of_def route_interface_def interface_name_def map_of_final_links
        option.map_comp o_def addressed_def interface_of_def split: prod.split option.splits)
qed

lemma netlink_snapshot_witness:
  "netlink_ok netlink_demo \<and>
   ni_gateway (snapshot netlink_demo None (\<lambda>_. []) None) = Some (V4 (Ipv4Addr 10 0 0 2)) \<and>
   ni_primary_interface (snapshot netlink_demo None (\<lambda>_. []) None) = Some ''wlan0'' \<and>
   length (ni_interfaces (snapshot netlink_demo None (\<lambda>_. []) None)) = 2 \<and>
   map if_addrs (ni_interfaces (snapshot netlink_demo None (\<lambda>_. []) None)) =
     [[V4 (Ipv4Addr 10 0 0 1), V4 (Ipv4Addr 10 0 0 9)], []]"
proof -
  have ok: "netlink_ok netlink_demo"
    by (simp add: netlink_ok_def netlink_demo_def)
  let ?route = "gateway_demo [Oif 2, Gateway4 (Ipv4Addr 10 0 0 2)]"
  have c: "chosen_route (fst (nl_routes netlink_demo)) = Some ?route" by code_simp
  have g: "route_gateway ?route = Some (V4 (Ipv4Addr 10 0 0 2))" by code_simp
  have i: "fold route_attribute (rm_attributes ?route) (None, None) = (Some (V4 (Ipv4Addr 10 0 0 2)), Some 2)" by code_simp
  have n: "map_option link_name (named_link (fst (nl_links netlink_demo)) 2) = Some ''wlan0''" by code_simp
  have "ni_primary_interface (snapshot netlink_demo None (\<lambda>_. []) None) = Some ''wlan0''"
    "ni_gateway (snapshot netlink_demo None (\<lambda>_. []) None) = Some (V4 (Ipv4Addr 10 0 0 2))"
    using netlink_snapshot [OF ok, of None "\<lambda>_. []" None] unfolding c
    by (simp_all add: g i n)
  moreover have "length (ni_interfaces (snapshot netlink_demo None (\<lambda>_. []) None)) = 2"
    "map if_addrs (ni_interfaces (snapshot netlink_demo None (\<lambda>_. []) None)) =
     [[V4 (Ipv4Addr 10 0 0 1), V4 (Ipv4Addr 10 0 0 9)], []]"
    by code_simp+
  ultimately show ?thesis using ok by simp
qed

text \<open>reading a \<open>resolv.conf\<close> made of nameserver lines (with or without a trailing comment),
  comment lines and option lines gives the addresses of its nameserver lines in order; an
  unreadable file gives none.\<close>

theorem resolv_conf_read:
  assumes "list_all resolv_line_ok ls"
  shows "read_dns_servers (Some (concat (map (\<lambda>l. resolv_text l @ [NL]) ls))) = concat (map server_of ls) \<and>
    read_dns_servers None = []"
proof -
  have "lines (concat (map (\<lambda>l. l @ [NL]) (map resolv_text ls))) = map resolv_text ls"
    using assms resolv_text_line by (intro lines_concat) (fastforce simp: list_all_iff)
  then have "parse_resolv_conf (concat (map (\<lambda>l. resolv_text l @ [NL]) ls)) =
      List.map_filter nameserver_of (map resolv_text ls)"
    by (simp add: parse_resolv_conf_def o_def)
  moreover have "List.map_filter nameserver_of (map resolv_text ls) = concat (map server_of ls)"
    using assms by (induction ls) (auto simp: nameserver_of_line split: resolv_line.split)
  ultimately show ?thesis by (simp add: read_dns_servers_def)
qed

lemma resolv_conf_read_witness:
  "read_dns_servers (Some (concat (map (\<lambda>l. resolv_text l @ [NL])
     [Comment CHR ''#'' '' Generated'', Option ''search'' [''lan''],
      Nameserver (V4 (Ipv4Addr 192 168 1 1)) None, Nameserver (V4 (Ipv4Addr 1 1 1 1)) (Some ''fallback''),
      Comment CHR '';'' '' nameserver 9.9.9.9'']))) =
   [V4 (Ipv4Addr 192 168 1 1), V4 (Ipv4Addr 1 1 1 1)]"
  using resolv_conf_read [of "[Comment CHR ''#'' '' Generated'', Option ''search'' [''lan''],
      Nameserver (V4 (Ipv4Addr 192 168 1 1)) None, Nameserver (V4 (Ipv4Addr 1 1 1 1)) (Some ''fallback''),
      Comment CHR '';'' '' nameserver 9.9.9.9'']"]
  by (simp add: NL_def token_def printable_def)

text \<open>The first active connection whose type and \<open>Metered\<close> property can be read.\<close>

definition metered_source :: "nm_connection list \<Rightarrow> nm_connection option" where
  "metered_source acs = List.find (\<lambda>ac. nc_type ac \<noteq> None \<and> nc_metered ac \<noteq> None) acs"

lemma nm_connections_metered:
  "nm_connections lossy acs (ssid, metered) = Some (ssid', metered') \<Longrightarrow>
     metered' = (if metered \<noteq> None then metered
                 else map_option (\<lambda>ac. nc_metered ac = Some 1 \<or> nc_metered ac = Some 3) (metered_source acs))"
proof (induction acs arbitrary: ssid metered)
  case (Cons ac acs)
  show ?case
  proof (cases "nc_type ac")
    case None
    with Cons.prems have "nm_connections lossy acs (ssid, metered) = Some (ssid', metered')"
      by (simp split: if_splits)
    from Cons.IH [OF this] None show ?thesis by (simp add: metered_source_def)
  next
    case (Some ty)
    let ?metered = "if metered = None then map_option (\<lambda>m. m = 1 \<or> m = 3) (nc_metered ac) else metered"
    obtain ssid0 where "nm_connections lossy acs (ssid0, ?metered) = Some (ssid', metered')"
      using Cons.prems Some by (auto simp: Let_def split: if_splits option.splits)
    from Cons.IH [OF this] Some show ?thesis
      by (cases "nc_metered ac") (auto simp: metered_source_def)
  qed
qed (simp add: metered_source_def)

text \<open>the metered flag NetworkManager is asked for is that of the first active connection whose
  type and flag can be read, whatever its type: true for "yes" and "guess yes", false for every
  other value, so that "unknown" is reported as not metered; without such a connection, or when
  the query fails, it is absent.\<close>

theorem nm_metered:
  assumes "nm_info_inner lossy active \<noteq> None"
  shows "ni_metered (snapshot nl file lossy active) =
     map_option (\<lambda>ac. nc_metered ac = Some 1 \<or> nc_metered ac = Some 3) (metered_source (the active))"
proof -
  from assms obtain acs ssid metered where "active = Some acs" "nm_connections lossy acs (None, None) = Some (ssid, metered)"
    by (auto simp: nm_info_inner_def split: option.splits)
  with nm_connections_metered [OF this(2)] show ?thesis
    by (simp add: snapshot_def nm_info_def nm_info_inner_def split: prod.split)
qed

lemma nm_metered_witness:
  "ni_metered (snapshot netlink_demo None (\<lambda>_. [])
     (Some [\<lparr>nc_proxy = True, nc_type = Some ''vpn'', nc_metered = Some 0, nc_devices = None\<rparr>])) = Some False"
  by (subst nm_metered) (simp_all add: nm_info_inner_def metered_source_def)

end
