(* ===== verification/Format.thy ===== *)
theory Format
  imports RustStr
begin

text \<open>
  The texts of the GUI (\<open>crates/gui/src/fmt.rs\<close>): byte counts, rates and uptimes.  Byte counts
  go through \<open>f64\<close>; the values met there are dyadic rationals, kept exactly.  \<open>f64\<close>'s conversion
  from \<open>u64\<close> rounds to 53 bits, ties to even; its division by 1024 is exact at these
  magnitudes; \<open>{:.1}\<close> prints the exact value rounded to one decimal, ties to even.
\<close>

section \<open>Definitions\<close>

subsection \<open>f64\<close>

text \<open>\<open>Dyadic m e\<close> is \<open>m / 2 ^ e\<close>.\<close>

datatype f64 = Dyadic nat nat

definition round_half_even :: "nat \<Rightarrow> nat \<Rightarrow> nat" where
  "round_half_even a b =
     (let q = a div b; r = a mod b in
      if 2 * r < b \<or> (2 * r = b \<and> even q) then q else Suc q)"

fun bit_length :: "nat \<Rightarrow> nat" where
  "bit_length n = (if n = 0 then 0 else Suc (bit_length (n div 2)))"

declare bit_length.simps [simp del]

definition round53 :: "nat \<Rightarrow> nat" where
  "round53 n = (let k = bit_length n - 53 in round_half_even n (2 ^ k) * 2 ^ k)"

definition f64_of_u64 :: "u64 \<Rightarrow> f64" where
  "f64_of_u64 n = Dyadic (round53 (unat n)) 0"

fun f64_at_least_1024 :: "f64 \<Rightarrow> bool" where
  "f64_at_least_1024 (Dyadic m e) \<longleftrightarrow> 1024 * 2 ^ e \<le> m"

fun f64_div_1024 :: "f64 \<Rightarrow> f64" where
  "f64_div_1024 (Dyadic m e) = Dyadic m (e + 10)"

definition show_tenths :: "nat \<Rightarrow> string" where
  "show_tenths t = show_nat (t div 10) @ ''.'' @ show_nat (t mod 10)"

fun show_f64_1 :: "f64 \<Rightarrow> string" where
  "show_f64_1 (Dyadic m e) = show_tenths (round_half_even (10 * m) (2 ^ e))"

subsection \<open>Byte counts\<close>

definition UNITS :: "string list" where
  "UNITS = [''B'', ''KiB'', ''MiB'', ''GiB'', ''TiB'']"

function human_loop :: "f64 \<Rightarrow> nat \<Rightarrow> f64 \<times> nat" where
  "human_loop value unit =
     (if f64_at_least_1024 value \<and> unit < length UNITS - 1
      then human_loop (f64_div_1024 value) (unit + 1) else (value, unit))"
  by pat_completeness auto
termination
  by (relation "measure (\<lambda>(value, unit). length UNITS - unit)") auto

declare human_loop.simps [simp del]

definition human_bytes :: "u64 \<Rightarrow> string" where
  "human_bytes n =
     (case human_loop (f64_of_u64 n) 0 of
        (value, unit) \<Rightarrow>
          if unit = 0 then show_uint n @ '' B''
          else show_f64_1 value @ '' '' @ UNITS ! unit)"

definition human_speed :: "u64 \<Rightarrow> string" where
  "human_speed bytes_per_sec = human_bytes bytes_per_sec @ ''/s''"

subsection \<open>Uptimes\<close>

definition human_uptime :: "u64 \<Rightarrow> string" where
  "human_uptime secs =
     (let days = secs div 86400;
          hours = (secs mod 86400) div 3600;
          mins = (secs mod 3600) div 60;
          s = secs mod 60
      in if days > 0 then show_uint days @ ''d '' @ show_uint hours @ ''h''
         else if hours > 0 then show_uint hours @ ''h '' @ show_uint mins @ ''m''
         else if mins > 0 then show_uint mins @ ''m '' @ show_uint s @ ''s''
         else show_uint s @ ''s'')"

section \<open>Specification\<close>

text \<open>The seconds of an uptime text: the sum of its parts.\<close>

definition unit_secs :: "char \<Rightarrow> nat option" where
  "unit_secs c =
     (if c = CHR ''d'' then Some 86400 else if c = CHR ''h'' then Some 3600
      else if c = CHR ''m'' then Some 60 else if c = CHR ''s'' then Some 1 else None)"

definition part_secs :: "string \<Rightarrow> nat option" where
  "part_secs t =
     (if t = [] then None
      else (case (unit_secs (last t), parse_uint (butlast t) :: u64 option) of
          (Some u, Some n) \<Rightarrow> Some (u * unat n)
        | _ \<Rightarrow> None))"

definition uptime_secs_of :: "string \<Rightarrow> nat option" where
  "uptime_secs_of s =
     (let ps = map part_secs (split_whitespace s) in
      if None \<in> set ps then None else Some (sum_list (map the ps)))"

section \<open>Lemmas\<close>

subsection \<open>Rounding\<close>

lemma round_half_even_near:
  assumes "0 < b"
  shows "2 * (b * round_half_even a b) \<le> 2 * a + b" "2 * a \<le> 2 * (b * round_half_even a b) + b"
proof -
  define q r where "q = a div b" and "r = a mod b"
  have a: "a = b * q + r" and r: "r < b" using assms by (simp_all add: q_def r_def)
  have e: "round_half_even a b = (if 2 * r < b \<or> (2 * r = b \<and> even q) then q else Suc q)"
    by (simp add: round_half_even_def q_def r_def Let_def)
  show "2 * (b * round_half_even a b) \<le> 2 * a + b" "2 * a \<le> 2 * (b * round_half_even a b) + b"
    using r unfolding e by (auto simp: a algebra_simps)
qed

lemma round_half_even_one [simp]: "round_half_even a 1 = a" "round_half_even a (Suc 0) = a"
  by (simp_all add: round_half_even_def)

lemma bit_length_le: "n < 2 ^ k \<Longrightarrow> bit_length n \<le> k"
proof (induction k arbitrary: n)
  case (Suc k)
  then have "bit_length (n div 2) \<le> k" by auto
  then show ?case by (subst bit_length.simps) simp
qed (simp add: bit_length.simps)

lemma round53_exact: "n < 2 ^ 53 \<Longrightarrow> round53 n = n"
  using bit_length_le [of n 53] by (simp add: round53_def)

lemma round53_near:
  assumes "n < 2 ^ 64"
  shows "round53 n \<le> n + 1024" "n \<le> round53 n + 1024"
proof -
  let ?b = "2 ^ (bit_length n - 53) :: nat"
  have "bit_length n - 53 \<le> 11" using bit_length_le [OF assms] by simp
  then have b: "?b \<le> 2 ^ 11" by (rule power_increasing) simp
  note near = round_half_even_near [of ?b n]
  show "round53 n \<le> n + 1024" "n \<le> round53 n + 1024"
    using near b by (simp_all add: round53_def Let_def mult.commute)
qed

subsection \<open>The unit\<close>

lemma human_loop_step:
  "human_loop (Dyadic m e) u =
     (if 1024 * 2 ^ e \<le> m \<and> u < 4 then human_loop (Dyadic m (e + 10)) (u + 1) else (Dyadic m e, u))"
  by (subst human_loop.simps) (simp add: UNITS_def)

lemma human_loop_unit:
  assumes "human_loop (Dyadic m (10 * u)) u = (value, v)" "u \<le> 4" "1024 ^ u \<le> m \<or> u = 0"
  shows "value = Dyadic m (10 * v) \<and> v \<le> 4 \<and> (1024 ^ v \<le> m \<or> v = 0) \<and> (v = 4 \<or> m < 1024 ^ Suc v)"
  using assms
proof (induction "4 - u" arbitrary: u)
  case 0
  then have u: "u = 4" by simp
  with 0 have "value = Dyadic m (10 * u)" "v = u"
    by (simp_all add: human_loop_step)
  with 0 u show ?case by simp
next
  case (Suc k)
  have p: "1024 * 2 ^ (10 * u) = (1024 ^ Suc u :: nat)"
    by (simp add: power_mult)
  have u: "u < 4" using Suc.hyps(2) by linarith
  show ?case
  proof (cases "1024 ^ Suc u \<le> m")
    case True
    with Suc.prems u p have "human_loop (Dyadic m (10 * Suc u)) (Suc u) = (value, v)"
      by (simp add: human_loop_step [of m "10 * u"] add.commute [of 10])
    with Suc.hyps True show ?thesis by (intro Suc.hyps(1) [of "Suc u"]) simp_all
  next
    case False
    with Suc.prems p have "value = Dyadic m (10 * u)" "v = u"
      by (auto simp: human_loop_step [of m "10 * u"])
    with False Suc.prems show ?thesis by simp
  qed
qed

lemma reached_unit:
  fixes n N v :: nat
  assumes v: "v \<le> 4" "1024 ^ v \<le> N \<or> v = 0" "v = 4 \<or> N < 1024 ^ Suc v"
    and small: "n < 2 ^ 53 \<Longrightarrow> N = n" and near: "N \<le> n + 1024" "n \<le> N + 1024"
  shows "n < 1024 \<Longrightarrow> v = 0" "1024 \<le> n \<Longrightarrow> v \<noteq> 0 \<and> 1024 ^ v \<le> n \<and> (v = 4 \<or> n < 1024 ^ Suc v)"
proof -
  show "v = 0" if "n < 1024"
  proof (rule ccontr)
    assume "v \<noteq> 0"
    then have "(1024 :: nat) ^ 1 \<le> 1024 ^ v" by (intro power_increasing) simp_all
    with v(2) \<open>v \<noteq> 0\<close> that small show False by simp
  qed
  have p: "(1024 :: nat) ^ v \<le> 1024 ^ 4" "v \<noteq> 4 \<Longrightarrow> (1024 :: nat) ^ Suc v \<le> 1024 ^ 4"
    using v(1) by (intro power_increasing; simp)+
  assume n: "1024 \<le> n"
  show "v \<noteq> 0 \<and> 1024 ^ v \<le> n \<and> (v = 4 \<or> n < 1024 ^ Suc v)"
  proof (cases "n < 2 ^ 53")
    case True
    with small v n show ?thesis by (cases "v = 0") auto
  next
    case False
    then have "1024 ^ 4 \<le> N" using near by simp
    with p v(3) have "v = 4" by linarith
    with False show ?thesis by simp
  qed
qed

subsection \<open>Uptime parts\<close>

lemma token_part: "printable c \<Longrightarrow> token (show_uint w @ [c])"
  by (rule token_append) auto

lemma part_secs_show: "unit_secs c = Some u \<Longrightarrow> part_secs (show_uint (w :: u64) @ [c]) = Some (u * unat w)"
  by (simp add: part_secs_def parse_uint_show)

lemma uptime_one:
  "printable c \<Longrightarrow> unit_secs c = Some u \<Longrightarrow>
     uptime_secs_of (show_uint (w :: u64) @ [c]) = Some (u * unat w)"
  by (simp add: uptime_secs_of_def split_whitespace_last token_part part_secs_show)

lemma uptime_two:
  assumes "printable c" "unit_secs c = Some u" "printable c'" "unit_secs c' = Some u'"
  shows "uptime_secs_of (show_uint (w :: u64) @ [c, CHR '' ''] @ show_uint (w' :: u64) @ [c']) =
    Some (u * unat w + u' * unat w')"
proof -
  have "split_whitespace ((show_uint w @ [c]) @ CHR '' '' # show_uint w' @ [c']) = [show_uint w @ [c], show_uint w' @ [c']]"
    using assms by (simp only: split_whitespace_token token_part split_whitespace_last)
  with assms show ?thesis by (simp add: uptime_secs_of_def part_secs_show)
qed

lemma printable_units [simp]:
  "printable CHR ''d''" "printable CHR ''h''" "printable CHR ''m''" "printable CHR ''s''"
  "unit_secs CHR ''d'' = Some 86400" "unit_secs CHR ''h'' = Some 3600" "unit_secs CHR ''m'' = Some 60"
  "unit_secs CHR ''s'' = Some 1"
  by (simp_all add: printable_def unit_secs_def)

lemmas uptime_days = uptime_two [of "CHR ''d''" 86400 "CHR ''h''" 3600, simplified]
lemmas uptime_hours = uptime_two [of "CHR ''h''" 3600 "CHR ''m''" 60, simplified]
lemmas uptime_mins = uptime_two [of "CHR ''m''" 60 "CHR ''s''" 1, simplified]

lemma floor_parts:
  fixes n :: nat
  shows "86400 * (n div 86400) + 3600 * (n mod 86400 div 3600) \<le> n"
    "n < 86400 * (n div 86400) + 3600 * (n mod 86400 div 3600) + 3600"
    "n < 86400 \<Longrightarrow> 3600 * (n mod 86400 div 3600) + 60 * (n mod 3600 div 60) \<le> n"
    "n < 86400 \<Longrightarrow> n < 3600 * (n mod 86400 div 3600) + 60 * (n mod 3600 div 60) + 60"
    "n < 3600 \<Longrightarrow> 60 * (n mod 3600 div 60) + n mod 60 = n"
    "n < 60 \<Longrightarrow> n mod 60 = n"
proof -
  have d: "n = 86400 * (n div 86400) + n mod 86400" "n mod 86400 < 86400"
    "n mod 86400 = 3600 * (n mod 86400 div 3600) + n mod 3600" "n mod 3600 < 3600"
    "n mod 3600 = 60 * (n mod 3600 div 60) + n mod 60" "n mod 60 < 60"
    using mult_div_mod_eq [of 3600 "n mod 86400"] mult_div_mod_eq [of 60 "n mod 3600"]
    by (simp_all add: mod_mod_cancel)
  from d(1-4) show "86400 * (n div 86400) + 3600 * (n mod 86400 div 3600) \<le> n"
    "n < 86400 * (n div 86400) + 3600 * (n mod 86400 div 3600) + 3600" by linarith+
  have e: "n < 86400 \<Longrightarrow> n mod 86400 = n" by simp
  show "3600 * (n mod 86400 div 3600) + 60 * (n mod 3600 div 60) \<le> n"
    "n < 3600 * (n mod 86400 div 3600) + 60 * (n mod 3600 div 60) + 60" if "n < 86400"
    using d(3-6) e [OF that] by linarith+
  show "60 * (n mod 3600 div 60) + n mod 60 = n" if "n < 3600"
    using d(5) mod_less [OF that] by linarith
qed simp

section \<open>Properties\<close>

text \<open>a byte count is printed in the largest unit up to TiB that it reaches, with one decimal:
  the printed tenths are the count divided by the unit, rounded to the nearest tenth with ties to
  even (from \<open>2 ^ 53\<close> on the count is first rounded by at most 1024 bytes); below 1024 the exact
  count is printed in bytes.  The tenth can round up to 1024.0 of a unit.\<close>

theorem human_bytes_reading:
  "(unat n < 1024 \<longrightarrow> human_bytes n = show_uint n @ '' B'') \<and>
   (1024 \<le> unat n \<longrightarrow> (\<exists>u t. 1 \<le> u \<and> u \<le> 4 \<and> 1024 ^ u \<le> unat n \<and> (u = 4 \<or> unat n < 1024 ^ Suc u) \<and>
      human_bytes n = show_tenths t @ '' '' @ UNITS ! u \<and>
      (unat n < 2 ^ 53 \<longrightarrow> t = round_half_even (10 * unat n) (1024 ^ u)) \<and>
      2 * (1024 ^ u * t) \<le> 20 * (unat n + 1024) + 1024 ^ u \<and>
      20 * unat n \<le> 2 * (1024 ^ u * t) + 1024 ^ u + 20 * 1024))"
proof -
  let ?n = "unat n" and ?N = "round53 (unat n)"
  obtain x v where l: "human_loop (Dyadic ?N (10 * 0)) 0 = (x, v)" by fastforce
  from human_loop_unit [OF l] have v: "x = Dyadic ?N (10 * v)" "v \<le> 4" "1024 ^ v \<le> ?N \<or> v = 0"
    "v = 4 \<or> ?N < 1024 ^ Suc v" by auto
  let ?t = "round_half_even (10 * ?N) (1024 ^ v)"
  have hb: "human_bytes n = (if v = 0 then show_uint n @ '' B'' else show_tenths ?t @ '' '' @ UNITS ! v)"
    using l v(1) by (simp add: human_bytes_def f64_of_u64_def power_mult)
  have lt: "?n < 2 ^ 64" using unsigned_less [of n, where ?'a = nat] by simp
  have small: "?n < 2 ^ 53 \<Longrightarrow> ?N = ?n" by (rule round53_exact)
  have unit: "?n < 1024 \<Longrightarrow> v = 0" "1024 \<le> ?n \<Longrightarrow> v \<noteq> 0 \<and> 1024 ^ v \<le> ?n \<and> (v = 4 \<or> ?n < 1024 ^ Suc v)"
    using reached_unit [OF v(2,3,4) small] round53_near [OF lt] by blast+
  have near: "2 * (1024 ^ v * ?t) \<le> 20 * (?n + 1024) + 1024 ^ v" "20 * ?n \<le> 2 * (1024 ^ v * ?t) + 1024 ^ v + 20 * 1024"
    using round_half_even_near [of "1024 ^ v" "10 * ?N"] round53_near [OF lt] by simp_all
  show ?thesis
  proof (intro conjI impI)
    assume "?n < 1024"
    with hb unit show "human_bytes n = show_uint n @ '' B''" by simp
  next
    assume "1024 \<le> ?n"
    with hb unit have "1 \<le> v" "1024 ^ v \<le> ?n" "v = 4 \<or> ?n < 1024 ^ Suc v" "human_bytes n = show_tenths ?t @ '' '' @ UNITS ! v"
      by simp_all
    moreover have "?n < 2 ^ 53 \<longrightarrow> ?t = round_half_even (10 * ?n) (1024 ^ v)"
      using small by simp
    ultimately show "\<exists>u t. 1 \<le> u \<and> u \<le> 4 \<and> 1024 ^ u \<le> ?n \<and> (u = 4 \<or> ?n < 1024 ^ Suc u) \<and>
        human_bytes n = show_tenths t @ '' '' @ UNITS ! u \<and>
        (?n < 2 ^ 53 \<longrightarrow> t = round_half_even (10 * ?n) (1024 ^ u)) \<and>
        2 * (1024 ^ u * t) \<le> 20 * (?n + 1024) + 1024 ^ u \<and> 20 * ?n \<le> 2 * (1024 ^ u * t) + 1024 ^ u + 20 * 1024"
      using v(2) near by blast
  qed
qed

lemma human_bytes_reading_witness:
  "human_bytes 3 = ''3 B'' \<and> human_bytes 2048 = ''2.0 KiB'' \<and> human_bytes 1048575 = ''1024.0 KiB''"
proof (intro conjI)
  have "show_uint (3 :: u64) = ''3''" by code_simp
  with human_bytes_reading [of 3] show "human_bytes 3 = ''3 B''" by simp
  show "human_bytes 2048 = ''2.0 KiB''"
    by (simp add: human_bytes_def f64_of_u64_def round53_exact human_loop_step round_half_even_def UNITS_def
        show_tenths_def show_nat_def show_radix.simps digit_char_literals digit_char_literals(2) [simplified])
  show "human_bytes 1048575 = ''1024.0 KiB''"
    by (simp add: human_bytes_def f64_of_u64_def round53_exact human_loop_step round_half_even_def UNITS_def
        show_tenths_def show_nat_def show_radix.simps digit_char_literals digit_char_literals(2) [simplified])
qed

lemma uptime_secs_of_uptime:
  "uptime_secs_of (human_uptime secs) = Some
    (if 86400 \<le> unat secs then 86400 * (unat secs div 86400) + 3600 * (unat secs mod 86400 div 3600)
     else if 3600 \<le> unat secs then 3600 * (unat secs mod 86400 div 3600) + 60 * (unat secs mod 3600 div 60)
     else if 60 \<le> unat secs then 60 * (unat secs mod 3600 div 60) + unat secs mod 60 else unat secs mod 60)"
proof -
  let ?n = "unat secs"
  have w: "unat (secs div 86400) = ?n div 86400" "unat ((secs mod 86400) div 3600) = ?n mod 86400 div 3600"
    "unat ((secs mod 3600) div 60) = ?n mod 3600 div 60" "unat (secs mod 60) = ?n mod 60"
    by (simp_all add: unat_div unat_mod)
  have z: "0 < secs div 86400 \<longleftrightarrow> 86400 \<le> ?n" "0 < secs mod 86400 div 3600 \<longleftrightarrow> 3600 \<le> ?n mod 86400"
    "0 < secs mod 3600 div 60 \<longleftrightarrow> 60 \<le> ?n mod 3600"
    by (simp_all add: word_less_nat_alt w div_greater_zero_iff)
  consider "86400 \<le> ?n" | "3600 \<le> ?n" "?n < 86400" | "60 \<le> ?n" "?n < 3600" | "?n < 60" by linarith
  then show ?thesis
  proof cases
    case 1
    with z(1) have "human_uptime secs = show_uint (secs div 86400) @ ''d '' @ show_uint (secs mod 86400 div 3600) @ ''h''"
      by (simp only: human_uptime_def Let_def if_True)
    with 1 show ?thesis by (simp add: uptime_days w)
  next
    case 2
    with z have c: "(0 < secs div 86400) = False" "(0 < secs mod 86400 div 3600) = True" by simp_all
    have "human_uptime secs = show_uint (secs mod 86400 div 3600) @ ''h '' @ show_uint (secs mod 3600 div 60) @ ''m''"
      by (simp only: human_uptime_def Let_def c if_True if_False)
    with 2 show ?thesis by (simp add: uptime_hours w)
  next
    case 3
    with z have c: "(0 < secs div 86400) = False" "(0 < secs mod 86400 div 3600) = False" "(0 < secs mod 3600 div 60) = True"
      by simp_all
    have "human_uptime secs = show_uint (secs mod 3600 div 60) @ ''m '' @ show_uint (secs mod 60) @ ''s''"
      by (simp only: human_uptime_def Let_def c if_True if_False)
    with 3 show ?thesis by (simp add: uptime_mins w)
  next
    case 4
    with z have c: "(0 < secs div 86400) = False" "(0 < secs mod 86400 div 3600) = False" "(0 < secs mod 3600 div 60) = False"
      by simp_all
    have "human_uptime secs = show_uint (secs mod 60) @ ''s''"
      by (simp only: human_uptime_def Let_def c if_False)
    with 4 show ?thesis by (simp add: uptime_one w)
  qed
qed

text \<open>the parts an uptime prints sum up to the uptime rounded down: to the hour from one day on,
  to the minute from one hour on, and exactly below one hour.\<close>

theorem human_uptime_reading:
  "\<exists>v. uptime_secs_of (human_uptime secs) = Some v \<and> v \<le> unat secs \<and>
     unat secs < v + (if 86400 \<le> unat secs then 3600 else if 3600 \<le> unat secs then 60 else 1)"
  using floor_parts [of "unat secs"] by (auto simp: uptime_secs_of_uptime)

end
