(* ===== verification/Icons.thy ===== *)
theory Icons
  imports Framing
begin

text \<open>
  The embedded icons (\<open>crates/gui/src/icons.rs\<close>).  What the \<open>png\<close> crate makes of a file and
  whether GDK accepts a texture are parameters; a file embedded at compile time is its path.
\<close>

section \<open>Definitions\<close>

definition SIZES :: "u32 list" where
  "SIZES = [24, 32, 48, 64, 128, 256]"

text \<open>\<open>variant_pngs!\<close>: the files of one variant, in the order of \<^const>\<open>SIZES\<close>.\<close>

definition variant_pngs :: "string \<Rightarrow> path list" where
  "variant_pngs variant = map (\<lambda>size. ''data/icons/travelmode-'' @ variant @ ''-'' @ size @ ''.png'')
     [''24'', ''32'', ''48'', ''64'', ''128'', ''256'']"

definition UI_ICONS :: "string list" where
  "UI_ICONS = [''app-generic'', ''apps'', ''blocked'', ''connection'', ''connections'', ''dns'',
     ''download'', ''filtering'', ''gateway'', ''license'', ''pause'', ''plane'',
     ''play'', ''session'', ''settings'', ''socket'', ''upload'', ''uptime'']"

definition variant :: "bool \<Rightarrow> string" where
  "variant dark = (if dark then ''dark'' else ''light'')"

text \<open>\<open>ui_icon_pngs!\<close> is invoked with the names of \<^const>\<open>UI_ICONS\<close>.\<close>

definition ui_icon_bytes :: "string \<Rightarrow> bool \<Rightarrow> path option" where
  "ui_icon_bytes name dark =
     (if name \<in> set UI_ICONS then Some (''data/icons/ui/rendered/'' @ name @ ''-'' @ variant dark @ ''-48.png'') else None)"

definition ui_icon_name :: "string \<Rightarrow> bool \<Rightarrow> string" where
  "ui_icon_name name dark = ''travelmode-ui-'' @ name @ ''-'' @ variant dark"

text \<open>A texture is the file it was made from.\<close>

type_synonym texture = path

definition ui_icon :: "(path \<Rightarrow> bool) \<Rightarrow> string \<Rightarrow> bool \<Rightarrow> texture option" where
  "ui_icon loads name dark =
     (case ui_icon_bytes name dark of
        None \<Rightarrow> None
      | Some file \<Rightarrow> if loads file then Some file else None)"

record Image =
  im_pixel_size :: nat
  im_paintable :: "texture option"

definition set_ui_icon :: "(path \<Rightarrow> bool) \<Rightarrow> Image \<Rightarrow> string \<Rightarrow> bool \<Rightarrow> Image" where
  "set_ui_icon loads img name dark =
     (case ui_icon loads name dark of Some texture \<Rightarrow> img\<lparr>im_paintable := Some texture\<rparr> | None \<Rightarrow> img)"

definition ui_image :: "(path \<Rightarrow> bool) \<Rightarrow> string \<Rightarrow> bool \<Rightarrow> Image" where
  "ui_image loads name dark = set_ui_icon loads \<lparr>im_pixel_size = 24, im_paintable = None\<rparr> name dark"

subsection \<open>Tray pixmaps\<close>

record png_frame =
  pf_rgba :: bool
  pf_eight_bit :: bool
  pf_format :: string
  pf_width :: u32
  pf_height :: u32
  pf_buf :: bytes
  pf_buffer_size :: nat

record Icon =
  ic_width :: "32 word" \<comment> \<open>an \<open>i32\<close>\<close>
  ic_height :: "32 word"
  ic_data :: bytes

text \<open>\<open>chunks_exact_mut(4)\<close> with \<open>rotate_right(1)\<close>: a shorter rest at the end is left alone.\<close>

fun rotate_pixels :: "bytes \<Rightarrow> bytes" where
  "rotate_pixels (r # g # b # a # rest) = a # r # g # b # rotate_pixels rest"
| "rotate_pixels rest = rest"

definition decode_png :: "(path \<Rightarrow> string + png_frame) \<Rightarrow> path \<Rightarrow> u32 \<Rightarrow> string + Icon" where
  "decode_png decoder file expected_size =
     (case decoder file of
        Inl e \<Rightarrow> Inl e
      | Inr info \<Rightarrow>
          if \<not> pf_rgba info \<or> \<not> pf_eight_bit info then
            Inl (''unsupported PNG format '' @ pf_format info @ '' (want 8-bit RGBA)'')
          else if pf_width info \<noteq> expected_size \<or> pf_height info \<noteq> expected_size then
            Inl (''unexpected PNG size '' @ show_uint (pf_width info) @ ''x'' @ show_uint (pf_height info) @ '' (want '' @
              show_uint expected_size @ ''x'' @ show_uint expected_size @ '')'')
          else Inr \<lparr>ic_width = pf_width info, ic_height = pf_height info,
            ic_data = rotate_pixels (take (pf_buffer_size info) (pf_buf info))\<rparr>)"

definition icons :: "(path \<Rightarrow> string + png_frame) \<Rightarrow> bool \<Rightarrow> Icon list" where
  "icons decoder dark =
     List.map_filter (\<lambda>(file, size). case decode_png decoder file size of Inr icon \<Rightarrow> Some icon | Inl _ \<Rightarrow> None)
       (zip (variant_pngs (variant dark)) SIZES)"

section \<open>Lemmas\<close>

lemma length_rotate_pixels [simp]: "length (rotate_pixels bs) = length bs"
  by (induction bs rule: rotate_pixels.induct) auto

lemma rotate_pixels_nth:
  "4 * i + 3 < length bs \<Longrightarrow> rotate_pixels bs ! (4 * i) = bs ! (4 * i + 3) \<and>
     rotate_pixels bs ! (4 * i + 1) = bs ! (4 * i) \<and> rotate_pixels bs ! (4 * i + 2) = bs ! (4 * i + 1) \<and>
     rotate_pixels bs ! (4 * i + 3) = bs ! (4 * i + 2)"
proof (induction bs arbitrary: i rule: rotate_pixels.induct)
  case (1 r g b a rest)
  then show ?case by (cases i) (simp_all add: numeral_eq_Suc)
qed auto

lemma ui_image_name: "name \<in> set UI_ICONS \<Longrightarrow> loads (the (ui_icon_bytes name dark)) \<Longrightarrow>
    im_paintable (set_ui_icon loads img name dark) = ui_icon_bytes name dark"
  by (simp add: set_ui_icon_def ui_icon_def ui_icon_bytes_def)

section \<open>Properties\<close>

text \<open>the tray pixmaps of a variant: one per size of which the file decodes to an 8-bit RGBA image
  of exactly that size, in the order of the sizes, with every pixel's alpha byte moved to the front
  and the colours kept in order.\<close>

theorem tray_pixmaps:
  assumes "\<forall>file size. (file, size) \<in> set (zip (variant_pngs (variant dark)) SIZES) \<longrightarrow>
      (\<exists>info. decoder file = Inr info \<and> pf_rgba info \<and> pf_eight_bit info \<and> pf_width info = size \<and> pf_height info = size \<and>
        length (pf_buf info) = 4 * (unat size * unat size) \<and> pf_buffer_size info = length (pf_buf info))"
  shows "map ic_width (icons decoder dark) = SIZES \<and> map ic_height (icons decoder dark) = SIZES \<and>
    (\<forall>j < length SIZES. \<exists>info. decoder (variant_pngs (variant dark) ! j) = Inr info \<and>
      length (ic_data (icons decoder dark ! j)) = 4 * (unat (SIZES ! j) * unat (SIZES ! j)) \<and>
      (\<forall>i < unat (SIZES ! j) * unat (SIZES ! j).
        ic_data (icons decoder dark ! j) ! (4 * i) = pf_buf info ! (4 * i + 3) \<and>
        ic_data (icons decoder dark ! j) ! (4 * i + 1) = pf_buf info ! (4 * i) \<and>
        ic_data (icons decoder dark ! j) ! (4 * i + 2) = pf_buf info ! (4 * i + 1) \<and>
        ic_data (icons decoder dark ! j) ! (4 * i + 3) = pf_buf info ! (4 * i + 2)))"
proof -
  let ?fs = "variant_pngs (variant dark)"
  let ?info = "\<lambda>file. projr (decoder file)"
  let ?icon = "\<lambda>(file, size). \<lparr>ic_width = size, ic_height = size, ic_data = rotate_pixels (pf_buf (?info file))\<rparr> :: Icon"
  have len: "length ?fs = length SIZES" by (simp add: variant_pngs_def SIZES_def)
  have dec: "decode_png decoder f sz = Inr (?icon (f, sz))" if "(f, sz) \<in> set (zip ?fs SIZES)" for f sz
    using assms that by (fastforce simp: decode_png_def)
  have "List.map_filter (\<lambda>(file, size). case decode_png decoder file size of Inr icon \<Rightarrow> Some icon | Inl _ \<Rightarrow> None) xs = map ?icon xs"
    if "set xs \<subseteq> set (zip ?fs SIZES)" for xs
    using that by (induction xs) (auto simp: dec)
  then have icons: "icons decoder dark = map ?icon (zip ?fs SIZES)" by (simp add: icons_def)
  have "ic_width \<circ> ?icon = snd" "ic_height \<circ> ?icon = snd" by auto
  then have "map ic_width (icons decoder dark) = map snd (zip ?fs SIZES)" "map ic_height (icons decoder dark) = map snd (zip ?fs SIZES)"
    by (simp_all add: icons)
  moreover have "\<exists>info. decoder (?fs ! j) = Inr info \<and>
      length (ic_data (icons decoder dark ! j)) = 4 * (unat (SIZES ! j) * unat (SIZES ! j)) \<and>
      (\<forall>i < unat (SIZES ! j) * unat (SIZES ! j).
        ic_data (icons decoder dark ! j) ! (4 * i) = pf_buf info ! (4 * i + 3) \<and>
        ic_data (icons decoder dark ! j) ! (4 * i + 1) = pf_buf info ! (4 * i) \<and>
        ic_data (icons decoder dark ! j) ! (4 * i + 2) = pf_buf info ! (4 * i + 1) \<and>
        ic_data (icons decoder dark ! j) ! (4 * i + 3) = pf_buf info ! (4 * i + 2))" if j: "j < length SIZES" for j
  proof -
    have "(?fs ! j, SIZES ! j) \<in> set (zip ?fs SIZES)" using j len by (force simp: set_zip)
    with assms obtain info where info: "decoder (?fs ! j) = Inr info"
      "length (pf_buf info) = 4 * (unat (SIZES ! j) * unat (SIZES ! j))" by blast
    have d: "ic_data (icons decoder dark ! j) = rotate_pixels (pf_buf info)"
      using j len info(1) by (simp add: icons)
    show ?thesis
      unfolding d using info rotate_pixels_nth [of _ "pf_buf info"]
      by (intro exI [of _ info] conjI allI impI) simp_all
  qed
  ultimately show ?thesis using len by simp
qed

lemma tray_pixmaps_witness:
  "\<exists>decoder. map ic_width (icons decoder True) = SIZES \<and>
     ic_data (icons decoder True ! 0) ! 4 = pf_buf (projr (decoder ''data/icons/travelmode-dark-24.png'')) ! 7"
proof -
  let ?size = "\<lambda>file. the (map_of (zip (variant_pngs ''dark'') SIZES) file)"
  let ?decoder = "\<lambda>file. Inr \<lparr>pf_rgba = True, pf_eight_bit = True, pf_format = [], pf_width = ?size file,
    pf_height = ?size file, pf_buf = replicate (4 * (unat (?size file) * unat (?size file))) 7,
    pf_buffer_size = 4 * (unat (?size file) * unat (?size file))\<rparr> :: string + png_frame"
  have d: "distinct (map fst (zip (variant_pngs ''dark'') SIZES))" by (simp add: variant_pngs_def SIZES_def)
  have "map ic_width (icons ?decoder True) = SIZES \<and>
    (\<forall>j < length SIZES. \<exists>info. ?decoder (variant_pngs (variant True) ! j) = Inr info \<and>
      length (ic_data (icons ?decoder True ! j)) = 4 * (unat (SIZES ! j) * unat (SIZES ! j)) \<and>
      (\<forall>i < unat (SIZES ! j) * unat (SIZES ! j).
        ic_data (icons ?decoder True ! j) ! (4 * i) = pf_buf info ! (4 * i + 3)))"
    using tray_pixmaps [of True ?decoder] d by (auto simp: variant_def map_of_eq_Some_iff)
  then have "map ic_width (icons ?decoder True) = SIZES" "\<exists>info. ?decoder (variant_pngs (variant True) ! 0) = Inr info \<and>
      (\<forall>i < unat (SIZES ! 0) * unat (SIZES ! 0). ic_data (icons ?decoder True ! 0) ! (4 * i) = pf_buf info ! (4 * i + 3))"
    by (auto simp: SIZES_def)
  then show ?thesis
    by (intro exI [of _ ?decoder]) (auto simp: variant_pngs_def variant_def SIZES_def dest!: spec [of _ 1])
qed

end
