(* ===== verification/Cli.thy ===== *)
theory Cli
  imports GuiClient Format
begin

text \<open>
  The command-line client (\<open>crates/cli/src/main.rs\<close>): from the parsed arguments to what is
  printed and the exit status.  The file system, \<open>PATH\<close>, the connections to the daemon and the
  serialisers are inputs.
\<close>

section \<open>Definitions\<close>

datatype Command =
    StatusCmd
  | NetworkCmd
  | PsCmd
  | ConnectionsCmd
  | TopCmd
  | RulesCmd
  | BlockTarget string "u64 option" bool
  | AllowTarget string "u64 option" bool
  | RemoveId u64
  | PauseAll
  | ResumeAll
  | WatchCmd

record Cli =
  cl_socket :: path
  cl_json :: bool
  cl_command :: Command

text \<open>A line on the standard output or the standard error.\<close>

datatype line = Out string | Err string

record cli_env =
  ce_codec :: codec
  ce_exists :: "path \<Rightarrow> bool"
  ce_canonicalize :: "path \<Rightarrow> string + path"
  ce_PATH :: "string option"
  ce_is_file :: "path \<Rightarrow> bool"
  ce_mode :: "path \<Rightarrow> nat option"
  ce_lookup :: connection \<comment> \<open>the one \<open>resolve_exe\<close> makes\<close>
  ce_request :: connection
  ce_pretty :: "Response \<Rightarrow> string option"
  ce_event_json :: "Event \<Rightarrow> string option"
  ce_serde_error :: string
  ce_format_time :: "time \<Rightarrow> string"

subsection \<open>Requests\<close>

definition em_dash :: string where
  "em_dash = [CHR 0xE2, CHR 0x80, CHR 0x94]"

definition cli_connect :: "path \<Rightarrow> connection \<Rightarrow> string + (writer \<times> (bytes \<Rightarrow> reader))" where
  "cli_connect socket c =
     (case c of
        Refused e \<Rightarrow> Inl (''cannot connect to '' @ display socket @ '': '' @ e @ '' '' @ em_dash @ '' is travelmoded running?'')
      | Stream w answer \<Rightarrow> Inr (w, answer))"

definition roundtrip :: "codec \<Rightarrow> path \<Rightarrow> connection \<Rightarrow> Request \<Rightarrow> string + Response" where
  "roundtrip co socket c request =
     (case cli_connect socket c of
        Inl e \<Rightarrow> Inl e
      | Inr (w, answer) \<Rightarrow>
          (case write_frame (co_enc co) request w of
             (_, Inl e) \<Rightarrow> Inl (''failed to send request: '' @ co_error co e)
           | (w, Inr _) \<Rightarrow>
               (case read_frame (co_dec co) (answer (wr_out w)) of
                  Inl e \<Rightarrow> Inl (''failed to read response: '' @ co_error co e)
                | Inr (response, _) \<Rightarrow> Inr response)))"

definition print_json :: "cli_env \<Rightarrow> Response \<Rightarrow> line list" where
  "print_json env response =
     (case ce_pretty env response of
        Some s \<Rightarrow> [Out s]
      | None \<Rightarrow> [Err (''travelmode: cannot serialize response: '' @ ce_serde_error env)])"

definition simple_request :: "cli_env \<Rightarrow> path \<Rightarrow> bool \<Rightarrow> Request \<Rightarrow> line list \<times> (string + unit)" where
  "simple_request env socket json request =
     (case roundtrip (ce_codec env) socket (ce_request env) request of
        Inl e \<Rightarrow> ([], Inl e)
      | Inr response \<Rightarrow>
          if json then (print_json env response, Inr ())
          else (case response of
              ROk \<Rightarrow> ([], Inr ())
            | RError message \<Rightarrow> ([], Inl (''daemon error: '' @ message))
            | other \<Rightarrow> ([], Inl (''unexpected response: '' @ co_debug (ce_codec env) other))))"

subsection \<open>Targets\<close>

text \<open>\<open>0o111\<close>; \<open>m AND 0o111\<close> is not 0 when one of the three execute bits is set.\<close>

definition is_executable :: "cli_env \<Rightarrow> path \<Rightarrow> bool" where
  "is_executable env p \<longleftrightarrow> ce_is_file env p \<and>
     (case ce_mode env p of Some m \<Rightarrow> m AND 73 \<noteq> 0 | None \<Rightarrow> False)"

fun which_in :: "cli_env \<Rightarrow> string \<Rightarrow> path list \<Rightarrow> path option" where
  "which_in env name [] = None"
| "which_in env name (dir # dirs) =
     (let candidate = path_join dir name in
      if is_executable env candidate then Some candidate else which_in env name dirs)"

text \<open>\<open>split_paths\<close> cuts the variable at its colons.\<close>

definition which :: "cli_env \<Rightarrow> string \<Rightarrow> path option" where
  "which env name =
     (case ce_PATH env of None \<Rightarrow> None | Some path_var \<Rightarrow> which_in env name (split_on CHR '':'' path_var))"

definition unresolved :: "string \<Rightarrow> string" where
  "unresolved target = ''cannot resolve '' @ [CHR 0x27] @ target @ [CHR 0x27] @
     '' to an executable (not in PATH, not a unique running process)''"

definition resolve_exe :: "cli_env \<Rightarrow> path \<Rightarrow> string \<Rightarrow> string + path" where
  "resolve_exe env socket target =
     (if SLASH \<in> set target then
        (if ce_exists env target then
           (case ce_canonicalize env target of
              Inr p \<Rightarrow> Inr p
            | Inl e \<Rightarrow> Inl (''cannot resolve '' @ display target @ '': '' @ e))
         else Inl (''no such file: '' @ target))
      else (case which env target of
          Some p \<Rightarrow> Inr p
        | None \<Rightarrow>
            (case roundtrip (ce_codec env) socket (ce_lookup env) GetProcesses of
               Inr (RProcesses procs) \<Rightarrow>
                 (case filter (\<lambda>p. pi_name p = target) procs of
                    [p] \<Rightarrow> (case pi_exe p of Some exe \<Rightarrow> Inr exe | None \<Rightarrow> Inl (unresolved target))
                  | _ \<Rightarrow> Inl (unresolved target))
             | _ \<Rightarrow> Inl (unresolved target))))"

definition resolve_rule :: "cli_env \<Rightarrow> path \<Rightarrow> string \<Rightarrow> RuleAction \<Rightarrow> u64 option \<Rightarrow> bool \<Rightarrow> string + RuleInput" where
  "resolve_rule env socket target action temp no_persist =
     (case resolve_exe env socket target of
        Inl e \<Rightarrow> Inl e
      | Inr exe_path \<Rightarrow>
          (let name = (case file_name exe_path of Some n \<Rightarrow> n | None \<Rightarrow> target) in
           Inr \<lparr>i_name = name, i_exe_path = exe_path, i_action = action,
                i_persistent = (\<not> no_persist \<and> temp = None), i_ttl_secs = temp\<rparr>))"

subsection \<open>Watching\<close>

function watch_events :: "cli_env \<Rightarrow> reader \<Rightarrow> line list" where
  "watch_events env r =
     (case read_frame (co_dec (ce_codec env)) r of
        Inl _ \<Rightarrow> []
      | Inr (response, r') \<Rightarrow>
          (case response of
             REvent event \<Rightarrow>
               (case ce_event_json env event of
                  Some line \<Rightarrow> [Out line]
                | None \<Rightarrow> [Err (''travelmode: cannot serialize event: '' @ ce_serde_error env)])
           | _ \<Rightarrow> []) @ watch_events env r')"
  by pat_completeness auto
termination
  by (relation "measure (\<lambda>(env, r). length (rd_bytes r))") (auto dest: read_frame_shrinks)

declare watch_events.simps [simp del]

definition watch :: "cli_env \<Rightarrow> path \<Rightarrow> line list \<times> (string + unit)" where
  "watch env socket =
     (case cli_connect socket (ce_request env) of
        Inl e \<Rightarrow> ([], Inl e)
      | Inr (w, answer) \<Rightarrow>
          (case write_frame (co_enc (ce_codec env)) Subscribe w of
             (_, Inl e) \<Rightarrow> ([], Inl (''failed to subscribe: '' @ co_error (ce_codec env) e))
           | (w, Inr _) \<Rightarrow> (watch_events env (answer (wr_out w)), Inr ())))"

subsection \<open>Tables\<close>

definition yes_no :: "bool \<Rightarrow> string" where
  "yes_no b = (if b then ''yes'' else ''no'')"

text \<open>\<open>chars().count()\<close>: the bytes that do not continue a character.\<close>

definition char_count :: "string \<Rightarrow> nat" where
  "char_count s = length (filter (\<lambda>c. \<not> (128 \<le> (of_char c :: nat) \<and> (of_char c :: nat) < 192)) s)"

definition pad :: "nat \<Rightarrow> string \<Rightarrow> string" where
  "pad width cell = cell @ replicate (width - char_count cell) CHR '' ''"

fun widen :: "nat list \<Rightarrow> string list \<Rightarrow> nat list" where
  "widen (w # ws) (cell # row) = max w (char_count cell) # widen ws row"
| "widen ws _ = ws"

fun table_line :: "nat list \<Rightarrow> string list \<Rightarrow> string" where
  "table_line (w # ws) [cell] = cell"
| "table_line (w # ws) (cell # row) = pad (w + 2) cell @ table_line ws row"
| "table_line _ _ = []"

definition table_rule :: "nat list \<Rightarrow> string" where
  "table_rule widths = concat (map (\<lambda>w. replicate (w + 2) CHR ''-'') widths)"

definition print_table :: "nat \<Rightarrow> string list list \<Rightarrow> line list" where
  "print_table n rows =
     (let widths = foldl widen (replicate n 0) rows in
      case rows of
        [] \<Rightarrow> []
      | header # body \<Rightarrow>
          Out (trim_end (table_line widths header)) # Out (trim_end (table_rule widths))
            # map (\<lambda>row. Out (trim_end (table_line widths row))) body)"

subsection \<open>Pretty output\<close>

definition cli_UNITS :: "string list" where
  "cli_UNITS = [''B'', ''KiB'', ''MiB'', ''GiB'', ''TiB'']"

function cli_human_loop :: "f64 \<Rightarrow> nat \<Rightarrow> f64 \<times> nat" where
  "cli_human_loop v unit =
     (if f64_at_least_1024 v \<and> unit < length cli_UNITS - 1
      then cli_human_loop (f64_div_1024 v) (unit + 1) else (v, unit))"
  by pat_completeness auto
termination
  by (relation "measure (\<lambda>(v, unit). length cli_UNITS - unit)") auto

declare cli_human_loop.simps [simp del]

definition cli_human_bytes :: "u64 \<Rightarrow> string" where
  "cli_human_bytes n =
     (case cli_human_loop (f64_of_u64 n) 0 of
        (v, unit) \<Rightarrow>
          if unit = 0 then show_uint n @ '' B''
          else show_f64_1 v @ '' '' @ cli_UNITS ! unit)"

text \<open>The \<open>Debug\<close> names of the enums, in lower case.\<close>

fun kind_name :: "InterfaceKind \<Rightarrow> string" where
  "kind_name Ethernet = ''ethernet''"
| "kind_name Wifi = ''wifi''"
| "kind_name Vpn = ''vpn''"
| "kind_name Loopback = ''loopback''"
| "kind_name OtherKind = ''other''"

fun protocol_name :: "Protocol \<Rightarrow> string" where
  "protocol_name Tcp = ''tcp''"
| "protocol_name Udp = ''udp''"
| "protocol_name OtherProto = ''other''"

fun action_name :: "RuleAction \<Rightarrow> string" where
  "action_name Allow = ''allow''"
| "action_name Block = ''block''"

definition or_dash :: "string option \<Rightarrow> string" where
  "or_dash s = (case s of Some s \<Rightarrow> s | None \<Rightarrow> ''-'')"

definition print_status :: "Status \<Rightarrow> line list" where
  "print_status s =
     [Out (''travelmoded '' @ s_version s),
      Out (''  uptime:              '' @ show_uint (s_uptime_secs s) @ ''s''),
      Out (''  paused:              '' @ yes_no (s_paused s)),
      Out (''  filtering:           '' @ (if s_filtering_active s then ''active'' else ''inactive'')),
      Out (''  rules:               '' @ show_nat (s_rules_count s)),
      Out (''  tracked connections: '' @ show_nat (s_tracked_connections s)),
      Out (''  tracked processes:   '' @ show_nat (s_tracked_processes s))]"

definition interface_row :: "InterfaceInfo \<Rightarrow> string list" where
  "interface_row i =
     [if_name i, kind_name (if_kind i), if if_is_up i then ''up'' else ''down'', or_dash (if_mac i),
      join '', '' (map show_ip (if_addrs i))]"

definition print_network :: "NetworkInfo \<Rightarrow> line list" where
  "print_network n =
     (case ni_ssid n of Some ssid \<Rightarrow> [Out (''SSID:    '' @ ssid)] | None \<Rightarrow> []) @
     (case ni_metered n of Some metered \<Rightarrow> [Out (''Metered: '' @ yes_no metered)] | None \<Rightarrow> []) @
     [Out (''Gateway: '' @ or_dash (map_option show_ip (ni_gateway n))),
      Out (''Primary: '' @ or_dash (ni_primary_interface n)),
      Out (''DNS:     '' @ (if ni_dns_servers n = [] then ''-'' else join '', '' (map show_ip (ni_dns_servers n)))),
      Out ''''] @
     print_table 5 ([''NAME'', ''KIND'', ''STATE'', ''MAC'', ''ADDRESSES''] # map interface_row (ni_interfaces n))"

definition process_row :: "ProcessInfo \<Rightarrow> string list" where
  "process_row p = [show_uint (pi_pid p), pi_name p, or_dash (pi_user p), or_dash (map_option display (pi_exe p))]"

definition print_processes :: "ProcessInfo list \<Rightarrow> line list" where
  "print_processes ps = print_table 4 ([''PID'', ''NAME'', ''USER'', ''EXE''] # map process_row ps)"

definition connection_row :: "ConnectionInfo \<Rightarrow> string list" where
  "connection_row c =
     [case c_process_name c of Some n \<Rightarrow> n | None \<Rightarrow> ''?'', protocol_name (c_protocol c),
      show_ip (c_local_addr c) @ '':'' @ show_uint (c_local_port c),
      show_ip (c_remote_addr c) @ '':'' @ show_uint (c_remote_port c),
      cli_human_bytes (c_bytes_sent c), cli_human_bytes (c_bytes_recv c)]"

definition print_connections :: "ConnectionInfo list \<Rightarrow> line list" where
  "print_connections cs =
     print_table 6 ([''PROCESS'', ''PROTO'', ''LOCAL'', ''REMOTE'', ''SENT'', ''RECV''] # map connection_row cs)"

definition app_row :: "AppUsage \<Rightarrow> string list" where
  "app_row a =
     [au_name a, cli_human_bytes (au_bytes_sent a), cli_human_bytes (au_bytes_recv a),
      show_uint (au_connections a), if au_blocked a then ''blocked'' else ''allowed'']"

definition print_top :: "AppUsage list \<Rightarrow> line list" where
  "print_top apps = print_table 5 ([''APP'', ''SENT'', ''RECV'', ''CONNS'', ''STATE''] # map app_row apps)"

definition rule_row :: "(time \<Rightarrow> string) \<Rightarrow> Rule \<Rightarrow> string list" where
  "rule_row format_time r =
     [show_uint (r_id r), r_name r, action_name (r_action r), display (r_exe_path r), yes_no (r_persistent r),
      or_dash (map_option format_time (r_expires_at r))]"

definition cli_print_rules :: "(time \<Rightarrow> string) \<Rightarrow> Rule list \<Rightarrow> line list" where
  "cli_print_rules format_time rules =
     print_table 6 ([''ID'', ''NAME'', ''ACTION'', ''EXE'', ''PERSIST'', ''EXPIRES''] # map (rule_row format_time) rules)"

definition print_pretty :: "cli_env \<Rightarrow> Response \<Rightarrow> line list" where
  "print_pretty env response =
     (case response of
        RStatus s \<Rightarrow> print_status s
      | RNetwork n \<Rightarrow> print_network n
      | RProcesses ps \<Rightarrow> print_processes ps
      | RConnections cs \<Rightarrow> print_connections cs
      | RTop apps \<Rightarrow> print_top apps
      | RRules rules \<Rightarrow> cli_print_rules (ce_format_time env) rules
      | RError message \<Rightarrow> [Err (''daemon error: '' @ message)]
      | other \<Rightarrow> [Out (co_debug (ce_codec env) other)])"

subsection \<open>Commands\<close>

definition query_of :: "Command \<Rightarrow> Request option" where
  "query_of cmd =
     (case cmd of
        StatusCmd \<Rightarrow> Some GetStatus
      | NetworkCmd \<Rightarrow> Some GetNetwork
      | PsCmd \<Rightarrow> Some GetProcesses
      | ConnectionsCmd \<Rightarrow> Some GetConnections
      | TopCmd \<Rightarrow> Some GetTop
      | RulesCmd \<Rightarrow> Some ListRules
      | _ \<Rightarrow> None)"

definition add_target :: "cli_env \<Rightarrow> Cli \<Rightarrow> string \<Rightarrow> RuleAction \<Rightarrow> u64 option \<Rightarrow> bool \<Rightarrow> line list \<times> (string + unit)" where
  "add_target env cli target action temp no_persist =
     (case resolve_rule env (cl_socket cli) target action temp no_persist of
        Inl e \<Rightarrow> ([], Inl e)
      | Inr input \<Rightarrow> simple_request env (cl_socket cli) (cl_json cli) (AddRule input))"

definition cli_run :: "cli_env \<Rightarrow> Cli \<Rightarrow> (line list \<times> (string + unit)) may_panic" where
  "cli_run env cli =
     (case cl_command cli of
        BlockTarget target temp no_persist \<Rightarrow> Some (add_target env cli target Block temp no_persist)
      | AllowTarget target temp no_persist \<Rightarrow> Some (add_target env cli target Allow temp no_persist)
      | RemoveId i \<Rightarrow> Some (simple_request env (cl_socket cli) (cl_json cli) (RemoveRule i))
      | PauseAll \<Rightarrow> Some (simple_request env (cl_socket cli) (cl_json cli) (SetPaused True))
      | ResumeAll \<Rightarrow> Some (simple_request env (cl_socket cli) (cl_json cli) (SetPaused False))
      | WatchCmd \<Rightarrow> Some (watch env (cl_socket cli))
      | _ \<Rightarrow>
          (case query_of (cl_command cli) of
             None \<Rightarrow> None
           | Some request \<Rightarrow>
               (case roundtrip (ce_codec env) (cl_socket cli) (ce_request env) request of
                  Inl e \<Rightarrow> Some ([], Inl e)
                | Inr response \<Rightarrow>
                    Some (if cl_json cli then print_json env response else print_pretty env response, Inr ()))))"

text \<open>What is printed, and whether the exit status is success.\<close>

definition cli_main :: "cli_env \<Rightarrow> Cli \<Rightarrow> (line list \<times> bool) may_panic" where
  "cli_main env cli =
     (case cli_run env cli of
        None \<Rightarrow> None
      | Some (ls, Inr _) \<Rightarrow> Some (ls, True)
      | Some (ls, Inl e) \<Rightarrow> Some (ls @ [Err (''travelmode: '' @ e)], False))"

section \<open>Lemmas\<close>

subsection \<open>Requests\<close>

lemma roundtrip_served:
  assumes "agree co dec enc" "fits (co_enc co) request" "request \<noteq> Subscribe"
    and "dispatch ex se request d = Some (response, d')" "fits enc response"
  shows "roundtrip co socket (served ex dec enc se d) request = Inr response"
proof -
  obtain rb pb where s: "co_enc co request = Some rb" "length pb \<le> unat MAX_FRAME" "co_dec co pb = Some response"
    "handle_client ex dec enc (served_io se (frame_of rb)) d = Some (\<lparr>wr_out = frame_of pb, wr_limit = None\<rparr>, Some Closed, d')"
    using served_answer [OF assms] by blast
  have "read_frame (co_dec co) \<lparr>rd_bytes = frame_of pb, rd_broken = False\<rparr> = Inr (response, \<lparr>rd_bytes = [], rd_broken = False\<rparr>)"
    using read_frame_small [OF s(2), of "co_dec co" "[]" False] s(3) by simp
  with s show ?thesis
    by (simp add: roundtrip_def cli_connect_def served_def write_frame_ok)
qed

text \<open>The daemon accepts the rule, and from then on blocks what the rule says and what it blocked
  before.\<close>

lemma add_request_blocks:
  assumes "dispatch ex se (AddRule input) d = Some (response, d')" "i_ttl_secs input = None"
  shows "response = ROk \<and> (is_blocked t p (ds_rules (d_state d')) \<longleftrightarrow>
    (i_action input = Block \<and> path_eq (i_exe_path input) p) \<or> is_blocked t p (ds_rules (d_state d)))"
proof -
  obtain rule rules disk where ad: "add (ex_chrono ex) (ex_to_json ex) (se_fs se) (se_now se) input
      (ds_rules (d_state d), ds_disk (d_state d)) = Some (rule, rules, disk)"
    and d': "response = ROk" "ds_rules (d_state d') = rules"
    using assms(1) by (auto simp: Let_def publish_def split: option.splits)
  have "add_locked (ex_chrono ex) (se_now se) input (ds_rules (d_state d)) = Some (rule, rules)"
    using ad by (auto simp: add_def split: option.splits)
  then have r: "in_rules rules = filter (\<lambda>r. key_of r \<noteq> key_of rule) (in_rules (ds_rules (d_state d))) @ [rule]"
    "r_action rule = i_action input" "r_exe_path rule = i_exe_path input" "r_expires_at rule = None"
    using assms(2) by (auto simp: add_locked_Some expiry_def)
  have "is_blocked t p rules \<longleftrightarrow> (i_action input = Block \<and> path_eq (i_exe_path input) p) \<or>
      is_blocked t p (ds_rules (d_state d))"
    using r(2-4) by (auto simp: is_blocked_def list_ex_iff r(1) is_expired_def key_of_def path_eq_def)
  with d' show ?thesis by simp
qed

lemma add_target_served:
  assumes "resolve_exe env (cl_socket cli) target = Inr exe"
    and "input = \<lparr>i_name = case file_name exe of Some n \<Rightarrow> n | None \<Rightarrow> target, i_exe_path = exe, i_action = action,
           i_persistent = (\<not> no_persist \<and> temp = None), i_ttl_secs = temp\<rparr>"
    and "ce_request env = served ex dec enc se d" "agree (ce_codec env) dec enc"
    and "fits (co_enc (ce_codec env)) (AddRule input)" "fits enc ROk"
    and "dispatch ex se (AddRule input) d = Some (ROk, d')"
  shows "add_target env cli target action temp no_persist =
    (if cl_json cli then print_json env ROk else [], Inr ())"
proof -
  have "roundtrip (ce_codec env) (cl_socket cli) (ce_request env) (AddRule input) = Inr ROk"
    unfolding assms(3) by (rule roundtrip_served [OF assms(4,5) _ assms(7,6)]) simp
  then show ?thesis
    using assms(1,2) by (simp add: add_target_def resolve_rule_def simple_request_def Let_def)
qed

subsection \<open>Tables\<close>

lemma char_count_append [simp]: "char_count (s @ t) = char_count s + char_count t"
  by (simp add: char_count_def)

lemma char_count_Nil [simp]: "char_count [] = 0"
  by (simp add: char_count_def)

lemma char_count_spaces [simp]: "char_count (replicate n CHR '' '') = n"
  by (simp add: char_count_def)

lemma char_count_pad: "char_count cell \<le> width \<Longrightarrow> char_count (pad width cell) = width"
  by (simp add: pad_def)

lemma length_widen [simp]: "length (widen ws row) = length ws"
  by (induction ws row rule: widen.induct) auto

lemma widen_ge: "i < length ws \<Longrightarrow> ws ! i \<le> widen ws row ! i"
  by (induction ws row arbitrary: i rule: widen.induct) (auto simp: nth_Cons split: nat.split)

lemma widen_fits: "i < length ws \<Longrightarrow> i < length row \<Longrightarrow> char_count (row ! i) \<le> widen ws row ! i"
  by (induction ws row arbitrary: i rule: widen.induct) (auto simp: nth_Cons split: nat.split)

lemma length_widths [simp]: "length (foldl widen ws rows) = length ws"
  by (induction rows arbitrary: ws) auto

lemma widths_ge: "i < length ws \<Longrightarrow> ws ! i \<le> foldl widen ws rows ! i"
proof (induction rows arbitrary: ws)
  case (Cons r rows)
  from Cons.IH [of "widen ws r"] Cons.prems widen_ge [of i ws r] show ?case by simp
qed simp

lemma widths_fit:
  "row \<in> set rows \<Longrightarrow> i < length ws \<Longrightarrow> i < length row \<Longrightarrow> char_count (row ! i) \<le> foldl widen ws rows ! i"
proof (induction rows arbitrary: ws)
  case (Cons r rows)
  then show ?case
    using widen_fits [of i ws row] widths_ge [of i "widen ws row" rows]
    by (cases "row = r") (auto intro: order_trans)
qed simp

lemma table_line_cell:
  assumes "i < length row" "length row = length ws" "\<And>j. j < i \<Longrightarrow> char_count (row ! j) \<le> ws ! j"
  shows "\<exists>before after. table_line ws row = before @ row ! i @ after \<and>
    char_count before = sum_list (map (\<lambda>w. w + 2) (take i ws))"
  using assms
proof (induction ws row arbitrary: i rule: table_line.induct)
  case (1 w ws cell)
  then show ?case by (intro exI [of _ "[]"]) simp
next
  case (2 w ws cell c row)
  show ?case
  proof (cases i)
    case 0
    then show ?thesis
      by (intro exI [of _ "[]"] exI [of _ "replicate (w + 2 - char_count cell) CHR '' '' @ table_line ws (c # row)"])
        (simp add: pad_def)
  next
    case (Suc j)
    have "\<exists>before after. table_line ws (c # row) = before @ (c # row) ! j @ after \<and>
        char_count before = sum_list (map (\<lambda>w. w + 2) (take j ws))"
      using 2 Suc by (intro 2) fastforce+
    then obtain before after where b: "table_line ws (c # row) = before @ (c # row) ! j @ after"
      "char_count before = sum_list (map (\<lambda>w. w + 2) (take j ws))" by blast
    have "char_count (pad (w + 2) cell) = w + 2"
      using 2(4) [of 0] Suc by (simp add: char_count_pad)
    with b Suc show ?thesis by (intro exI [of _ "pad (w + 2) cell @ before"] exI [of _ after]) simp
  qed
qed auto

lemma cli_human_loop_eq: "cli_human_loop v u = human_loop v u"
proof (induction v u rule: human_loop.induct)
  case (1 v u)
  then show ?case
    by (subst human_loop.simps, subst cli_human_loop.simps) (simp add: cli_UNITS_def UNITS_def)
qed

text \<open>Both clients print a byte count in the same way.\<close>

lemma cli_human_bytes_eq: "cli_human_bytes = human_bytes"
proof -
  have u: "cli_UNITS = UNITS" by (simp add: cli_UNITS_def UNITS_def)
  show ?thesis unfolding fun_eq_iff cli_human_bytes_def human_bytes_def cli_human_loop_eq u by simp
qed

subsection \<open>Watching\<close>

lemma watch_frames:
  assumes "\<And>e. e \<in> set es \<Longrightarrow> co_dec (ce_codec env) (body e) = Some (REvent e) \<and> length (body e) \<le> unat MAX_FRAME"
    and "length rest < 4"
  shows "watch_events env \<lparr>rd_bytes = concat (map (\<lambda>e. frame_of (body e)) es) @ rest, rd_broken = broken\<rparr> =
    map (\<lambda>e. case ce_event_json env e of Some line \<Rightarrow> Out line
      | None \<Rightarrow> Err (''travelmode: cannot serialize event: '' @ ce_serde_error env)) es"
  using assms(1)
proof (induction es)
  case Nil
  have "\<exists>e. read_frame (co_dec (ce_codec env)) \<lparr>rd_bytes = rest, rd_broken = broken\<rparr> = Inl e"
    using assms(2) by (cases broken) (simp_all add: read_frame_def read_exact_def)
  then show ?case by (auto simp: watch_events.simps)
next
  case (Cons e es)
  then have "read_frame (co_dec (ce_codec env))
      \<lparr>rd_bytes = frame_of (body e) @ concat (map (\<lambda>e. frame_of (body e)) es) @ rest, rd_broken = broken\<rparr> =
    Inr (REvent e, \<lparr>rd_bytes = concat (map (\<lambda>e. frame_of (body e)) es) @ rest, rd_broken = broken\<rparr>)"
    using read_frame_small [of "body e" "co_dec (ce_codec env)" "concat (map (\<lambda>e. frame_of (body e)) es) @ rest" broken]
    by simp
  with Cons show ?case by (simp add: watch_events.simps [of env "\<lparr>rd_bytes = frame_of (body e) @ _, rd_broken = _\<rparr>"] split: option.split)
qed

section \<open>Properties\<close>

definition target_rule :: "string \<Rightarrow> path \<Rightarrow> RuleAction \<Rightarrow> bool \<Rightarrow> RuleInput" where
  "target_rule target exe action no_persist =
     \<lparr>i_name = (case file_name exe of Some n \<Rightarrow> n | None \<Rightarrow> target), i_exe_path = exe, i_action = action,
      i_persistent = \<not> no_persist, i_ttl_secs = None\<rparr>"

lemma add_dispatched:
  "i_ttl_secs input = None \<Longrightarrow> \<exists>d'. dispatch ex se (AddRule input) d = Some (ROk, d')"
proof -
  assume "i_ttl_secs input = None"
  then have "add_locked (ex_chrono ex) (se_now se) input (ds_rules (d_state d)) \<noteq> None"
    by (simp add: add_locked_panic_iff expiry_def)
  then show ?thesis by (auto simp: add_def Let_def split: prod.split)
qed

lemma cli_adds_rule:
  assumes "resolve_exe env (cl_socket cli) target = Inr exe"
    and "cl_command cli = (if action = Block then BlockTarget target None np else AllowTarget target None np)"
    and "ce_request env = served ex dec enc se d" "agree (ce_codec env) dec enc"
    and "fits (co_enc (ce_codec env)) (AddRule (target_rule target exe action np))" "fits enc ROk"
  shows "\<exists>d'. dispatch ex se (AddRule (target_rule target exe action np)) d = Some (ROk, d') \<and>
    cli_main env cli = Some (if cl_json cli then print_json env ROk else [], True) \<and>
    (\<forall>t p. is_blocked t p (ds_rules (d_state d')) \<longleftrightarrow>
      (action = Block \<and> path_eq exe p) \<or> is_blocked t p (ds_rules (d_state d)))"
proof -
  let ?input = "target_rule target exe action np"
  have i: "i_ttl_secs ?input = None" "i_action ?input = action" "i_exe_path ?input = exe" by (simp_all add: target_rule_def)
  obtain d' where d': "dispatch ex se (AddRule ?input) d = Some (ROk, d')" using add_dispatched [OF i(1)] by blast
  have "add_target env cli target action None np = (if cl_json cli then print_json env ROk else [], Inr ())"
    using assms(1,3-6) d' by (intro add_target_served [where input = ?input]) (simp_all add: target_rule_def)
  moreover have "action = Allow" if "action \<noteq> Block" using that by (cases action) auto
  ultimately have "cli_main env cli = Some (if cl_json cli then print_json env ROk else [], True)"
    using assms(2) by (auto simp: cli_main_def cli_run_def split: if_splits)
  with d' add_request_blocks [OF d' i(1)] i show ?thesis by auto
qed

text \<open>C25: \<open>travelmode block\<close> without a lifetime, once its target is resolved and the daemon is
  reached: the daemon accepts the rule, the exit status is success, and from then on and for ever
  the daemon blocks the resolved path and what it blocked before, nothing else.\<close>

theorem cli_block:
  assumes "resolve_exe env (cl_socket cli) target = Inr exe" "cl_command cli = BlockTarget target None np"
    and "ce_request env = served ex dec enc se d" "agree (ce_codec env) dec enc"
    and "fits (co_enc (ce_codec env)) (AddRule (target_rule target exe Block np))" "fits enc ROk"
  shows "\<exists>d'. dispatch ex se (AddRule (target_rule target exe Block np)) d = Some (ROk, d') \<and>
    cli_main env cli = Some (if cl_json cli then print_json env ROk else [], True) \<and>
    (\<forall>t p. is_blocked t p (ds_rules (d_state d')) \<longleftrightarrow> path_eq exe p \<or> is_blocked t p (ds_rules (d_state d)))"
  using cli_adds_rule [of env cli target exe Block np, OF assms(1) _ assms(3-6)] assms(2) by simp

text \<open>a program named without a slash that \<open>PATH\<close> finds through a symbolic link is not blocked:
  \<open>travelmode block\<close> succeeds, but the rule holds the link's path, and the path of the program
  itself, which is what the daemon sees of a process, stays as unblocked as it was.\<close>

theorem cli_block_symlink:
  assumes "SLASH \<notin> set target" "which env target = Some link" "ce_canonicalize env link = Inr exe" "\<not> path_eq link exe"
    and "cl_command cli = BlockTarget target None np" "\<not> cl_json cli"
    and "ce_request env = served ex dec enc se d" "agree (ce_codec env) dec enc"
    and "fits (co_enc (ce_codec env)) (AddRule (target_rule target link Block np))" "fits enc ROk"
  shows "\<exists>d'. dispatch ex se (AddRule (target_rule target link Block np)) d = Some (ROk, d') \<and>
    cli_main env cli = Some ([], True) \<and>
    (\<forall>t. is_blocked t exe (ds_rules (d_state d')) = is_blocked t exe (ds_rules (d_state d)))"
proof -
  have "resolve_exe env (cl_socket cli) target = Inr link" using assms(1,2) by (simp add: resolve_exe_def)
  from cli_adds_rule [of env cli target link Block np, OF this _ assms(7-10)] assms(4-6) show ?thesis by auto
qed

text \<open>\<open>travelmode allow\<close> never lifts a block: it succeeds, and the daemon blocks exactly what it
  blocked before.\<close>

theorem cli_allow_lifts_nothing:
  assumes "resolve_exe env (cl_socket cli) target = Inr exe" "cl_command cli = AllowTarget target None np"
    and "ce_request env = served ex dec enc se d" "agree (ce_codec env) dec enc"
    and "fits (co_enc (ce_codec env)) (AddRule (target_rule target exe Allow np))" "fits enc ROk"
  shows "\<exists>d'. dispatch ex se (AddRule (target_rule target exe Allow np)) d = Some (ROk, d') \<and>
    cli_main env cli = Some (if cl_json cli then print_json env ROk else [], True) \<and>
    (\<forall>t p. is_blocked t p (ds_rules (d_state d')) = is_blocked t p (ds_rules (d_state d)))"
  using cli_adds_rule [of env cli target exe Allow np, OF assms(1) _ assms(3-6)] assms(2) by simp

text \<open>C37: the exit status.  A command that changes the daemon fails when the daemon cannot be
  asked, and otherwise succeeds exactly when the daemon said yes or \<open>--json\<close> was given, so with
  \<open>--json\<close> a refused request exits with success; \<open>block\<close> and \<open>allow\<close> first fail when their target
  cannot be resolved, saying why, and otherwise ask for the rule of the path it resolved to.  A query that is
  answered always succeeds, also when the answer is an error, and \<open>watch\<close> succeeds exactly when it
  reached the daemon and could send its request.  No command line panics.\<close>

theorem cli_exit_status:
  fixes env cli
  defines "ask \<equiv> roundtrip (ce_codec env) (cl_socket cli) (ce_request env)"
  defines "accepted \<equiv> \<lambda>request. ask request = Inr ROk \<or> (cl_json cli \<and> \<not> isl (ask request))"
  defines "status \<equiv> \<lambda>target action temp np.
      (case resolve_exe env (cl_socket cli) target of
         Inl e \<Rightarrow> cli_main env cli = Some ([Err (''travelmode: '' @ e)], False)
       | Inr exe \<Rightarrow> \<exists>ls. cli_main env cli = Some (ls, accepted (AddRule \<lparr>
           i_name = (case file_name exe of Some n \<Rightarrow> n | None \<Rightarrow> target), i_exe_path = exe, i_action = action,
           i_persistent = (\<not> np \<and> temp = None), i_ttl_secs = temp\<rparr>)))"
  shows "(case cl_command cli of
      BlockTarget target temp np \<Rightarrow> status target Block temp np
    | AllowTarget target temp np \<Rightarrow> status target Allow temp np
    | RemoveId i \<Rightarrow> \<exists>ls. cli_main env cli = Some (ls, accepted (RemoveRule i))
    | PauseAll \<Rightarrow> \<exists>ls. cli_main env cli = Some (ls, accepted (SetPaused True))
    | ResumeAll \<Rightarrow> \<exists>ls. cli_main env cli = Some (ls, accepted (SetPaused False))
    | WatchCmd \<Rightarrow> \<exists>ls. cli_main env cli = Some (ls, \<exists>w answer w'. cli_connect (cl_socket cli) (ce_request env) = Inr (w, answer) \<and>
        write_frame (co_enc (ce_codec env)) Subscribe w = (w', Inr ()))
    | cmd \<Rightarrow> \<exists>request. query_of cmd = Some request \<and> (\<exists>ls. cli_main env cli = Some (ls, \<not> isl (ask request))))"
proof -
  have simple: "\<exists>ls. (case simple_request env (cl_socket cli) (cl_json cli) request of
        (ls, Inr _) \<Rightarrow> Some (ls, True)
      | (ls, Inl e) \<Rightarrow> Some (ls @ [Err (''travelmode: '' @ e)], False)) = Some (ls, accepted request)" for request
    unfolding accepted_def ask_def simple_request_def by (auto split: sum.splits Response.splits)
  have run: "\<exists>ls. cli_main env cli = Some (ls, ok)"
    if "cli_run env cli = Some r" "\<exists>ls. (case r of (ls, Inr _) \<Rightarrow> Some (ls, True)
      | (ls, Inl e) \<Rightarrow> Some (ls @ [Err (''travelmode: '' @ e)], False)) = Some (ls, ok)" for r ok
    using that by (auto simp: cli_main_def split: prod.splits sum.splits)
  have add: "status target action temp np" if "cli_run env cli = Some (add_target env cli target action temp np)"
    for target action temp np
  proof (cases "resolve_exe env (cl_socket cli) target")
    case (Inl e)
    with that show ?thesis by (simp add: status_def cli_main_def add_target_def resolve_rule_def)
  next
    case (Inr exe)
    with run [OF that, unfolded add_target_def resolve_rule_def Inr sum.case Let_def, OF simple] show ?thesis
      by (simp add: status_def)
  qed
  show ?thesis
  proof (cases "cl_command cli")
    case (RemoveId i)
    then show ?thesis using run [OF _ simple] by (simp add: cli_run_def)
  next
    case PauseAll
    then show ?thesis using run [OF _ simple] by (simp add: cli_run_def)
  next
    case ResumeAll
    then show ?thesis using run [OF _ simple] by (simp add: cli_run_def)
  next
    case (BlockTarget target temp np)
    then show ?thesis using add by (simp add: cli_run_def)
  next
    case (AllowTarget target temp np)
    then show ?thesis using add by (simp add: cli_run_def)
  next
    case WatchCmd
    then show ?thesis by (auto simp: cli_main_def cli_run_def watch_def split: sum.splits prod.splits option.splits)
  qed (auto simp: query_of_def cli_main_def cli_run_def ask_def split: sum.splits prod.splits)
qed

text \<open>in a printed table every cell starts at its column's offset, whatever the other cells hold:
  the widths before it summed up, each with the two spaces between the columns.\<close>

theorem table_aligned:
  assumes "\<forall>row \<in> set rows. length row = n" "row \<in> set rows" "i < n"
  shows "\<exists>before after. table_line (foldl widen (replicate n 0) rows) row = before @ row ! i @ after \<and>
    char_count before = sum_list (map (\<lambda>w. w + 2) (take i (foldl widen (replicate n 0) rows)))"
  using assms by (intro table_line_cell) (simp_all add: widths_fit)

text \<open>\<open>watch\<close> prints the events the daemon sent it, all of them and in order, one JSON line each,
  and succeeds when the daemon closes the connection, also in the middle of a frame's length.\<close>

theorem watch_prints:
  assumes "ce_request env = Stream \<lparr>wr_out = [], wr_limit = None\<rparr> (\<lambda>_. \<lparr>rd_bytes = wr_out w @ rest, rd_broken = broken\<rparr>)"
    and "co_enc (ce_codec env) Subscribe \<noteq> None" "decodes_encoded enc (co_dec (ce_codec env))" "length rest < 4"
    and "\<forall>e \<in> set es. \<exists>body. enc (REvent e) = Some body \<and> length body \<le> unat MAX_FRAME"
    and "stream_events enc (map Got es) \<lparr>wr_out = [], wr_limit = None\<rparr> = (w, None)"
    and "\<forall>e \<in> set es. ce_event_json env e = Some (json e)" "cl_command cli = WatchCmd"
  shows "cli_main env cli = Some (map (\<lambda>e. Out (json e)) es, True)"
proof -
  define body where "body e = the (enc (REvent e))" for e
  have b: "enc (REvent e) = Some (body e) \<and> length (body e) \<le> unat MAX_FRAME" if "e \<in> set es" for e
    using assms(5) that by (auto simp: body_def)
  have r: "received (map Got es) = es" "SenderGone \<notin> set (map Got es)" by (induction es) auto
  have w: "wr_out w = concat (map (\<lambda>e. frame_of (body e)) es)"
    using stream_events_frames [of "map Got es" enc body "\<lparr>wr_out = [], wr_limit = None\<rparr>"] b r assms(6) by simp
  have "watch_events env \<lparr>rd_bytes = wr_out w @ rest, rd_broken = broken\<rparr> =
      map (\<lambda>e. case ce_event_json env e of Some line \<Rightarrow> Out line
        | None \<Rightarrow> Err (''travelmode: cannot serialize event: '' @ ce_serde_error env)) es"
    unfolding w by (rule watch_frames [OF _ assms(4)]) (use b assms(3) in \<open>auto simp: decodes_encoded_def\<close>)
  also have "\<dots> = map (\<lambda>e. Out (json e)) es" using assms(7) by simp
  finally have ev: "watch_events env \<lparr>rd_bytes = wr_out w @ rest, rd_broken = broken\<rparr> = map (\<lambda>e. Out (json e)) es" .
  obtain sb where "co_enc (ce_codec env) Subscribe = Some sb" using assms(2) by blast
  with ev assms(1,8) show ?thesis
    by (simp add: cli_main_def cli_run_def watch_def cli_connect_def write_frame_ok)
qed

section \<open>Witnesses\<close>

text \<open>A system where \<open>/usr/bin/app\<close> is a link to \<open>/opt/app/app\<close>.\<close>

definition cli_codec :: "RuleInput \<Rightarrow> codec" where
  "cli_codec input = \<lparr>co_enc = (\<lambda>r. if r = AddRule input then Some [65] else if r = Subscribe then Some [66] else demo_req_enc r),
     co_dec = demo_dec, co_error = (\<lambda>_. ''error''), co_debug = (\<lambda>_. ''response'')\<rparr>"

definition cli_dec :: "RuleInput \<Rightarrow> bytes \<Rightarrow> Request option" where
  "cli_dec input bs = (if bs = [65] then Some (AddRule input) else if bs = [66] then Some Subscribe else demo_req_dec bs)"

definition cli_env_demo :: "RuleInput \<Rightarrow> connection \<Rightarrow> cli_env" where
  "cli_env_demo input c = \<lparr>ce_codec = cli_codec input, ce_exists = (\<lambda>_. True), ce_canonicalize = (\<lambda>_. Inr ''/opt/app/app''),
     ce_PATH = Some ''/bin:/usr/bin'', ce_is_file = (\<lambda>p. p = ''/usr/bin/app''), ce_mode = (\<lambda>_. Some 493),
     ce_lookup = Refused ''no'', ce_request = c, ce_pretty = (\<lambda>_. Some ''{}''),
     ce_event_json = (\<lambda>_. Some ''event''), ce_serde_error = ''error'', ce_format_time = (\<lambda>_. '''')\<rparr>"

definition cli_demo :: "Command \<Rightarrow> Cli" where
  "cli_demo cmd = \<lparr>cl_socket = ''/s'', cl_json = False, cl_command = cmd\<rparr>"

lemma demo_req_enc_start: "demo_req_enc r = Some body \<Longrightarrow> body \<noteq> [65] \<and> body \<noteq> [66]"
  by (erule demo_req_enc.elims) (auto split: if_splits)

lemma cli_codec_agree: "agree (cli_codec input) (cli_dec input) demo_enc"
  "fits (co_enc (cli_codec input)) (AddRule input)"
proof -
  have "cli_dec input body = Some r" if "co_enc (cli_codec input) r = Some body" for r body
  proof (cases "r = AddRule input \<or> r = Subscribe")
    case False
    with that have "demo_req_enc r = Some body" by (simp add: cli_codec_def)
    with demo_codec_decodes(2) demo_req_enc_start [of r body] show ?thesis
      by (auto simp: cli_dec_def decodes_encoded_def)
  qed (use that in \<open>auto simp: cli_codec_def cli_dec_def\<close>)
  then show "agree (cli_codec input) (cli_dec input) demo_enc"
    using demo_codec_decodes(1) by (simp add: agree_def decodes_encoded_def cli_codec_def demo_codec_def)
qed (simp_all add: fits_def cli_codec_def MAX_FRAME_def)

lemma fits_ok: "fits demo_enc ROk"
  by (simp add: fits_def MAX_FRAME_def)

abbreviation served_demo :: "RuleInput \<Rightarrow> connection" where
  "served_demo input \<equiv> served demo_ex (cli_dec input) demo_enc demo_se demo_d"

lemma cli_env_demo_simps [simp]:
  "ce_codec (cli_env_demo input c) = cli_codec input" "ce_request (cli_env_demo input c) = c"
  "cl_socket (cli_demo cmd) = ''/s''" "cl_command (cli_demo cmd) = cmd" "cl_json (cli_demo cmd) = False"
  by (simp_all add: cli_env_demo_def cli_demo_def)

lemma which_demo: "which (cli_env_demo input c) ''app'' = Some ''/usr/bin/app''"
  by (simp add: which_def cli_env_demo_def is_executable_def path_join_def is_absolute_def SLASH_def Let_def)

lemma cli_block_witness:
  "\<exists>d'. cli_main (cli_env_demo (target_rule ''./app'' ''/opt/app/app'' Block True)
      (served_demo (target_rule ''./app'' ''/opt/app/app'' Block True))) (cli_demo (BlockTarget ''./app'' None True)) =
      Some ([], True) \<and>
    dispatch demo_ex demo_se (AddRule (target_rule ''./app'' ''/opt/app/app'' Block True)) demo_d = Some (ROk, d') \<and>
    is_blocked 5 ''/opt/app/app'' (ds_rules (d_state d'))"
proof -
  let ?i = "target_rule ''./app'' ''/opt/app/app'' Block True"
  let ?env = "cli_env_demo ?i (served_demo ?i)" and ?cli = "cli_demo (BlockTarget ''./app'' None True)"
  have "resolve_exe ?env (cl_socket ?cli) ''./app'' = Inr ''/opt/app/app''"
    by (simp add: resolve_exe_def SLASH_def cli_env_demo_def)
  from cli_block [OF this, of True demo_ex "cli_dec ?i" demo_enc demo_se demo_d] cli_codec_agree [of ?i] fits_ok
  show ?thesis by (auto simp del: dispatch.simps)
qed

lemma cli_block_symlink_witness:
  "\<exists>d'. cli_main (cli_env_demo (target_rule ''app'' ''/usr/bin/app'' Block True)
      (served_demo (target_rule ''app'' ''/usr/bin/app'' Block True))) (cli_demo (BlockTarget ''app'' None True)) =
      Some ([], True) \<and>
    dispatch demo_ex demo_se (AddRule (target_rule ''app'' ''/usr/bin/app'' Block True)) demo_d = Some (ROk, d') \<and>
    \<not> is_blocked 5 ''/opt/app/app'' (ds_rules (d_state d'))"
proof -
  let ?i = "target_rule ''app'' ''/usr/bin/app'' Block True"
  let ?env = "cli_env_demo ?i (served_demo ?i)" and ?cli = "cli_demo (BlockTarget ''app'' None True)"
  have s: "SLASH \<notin> set ''app''" by (simp add: SLASH_def)
  have c: "ce_canonicalize ?env ''/usr/bin/app'' = Inr ''/opt/app/app''" by (simp add: cli_env_demo_def)
  have n: "\<not> path_eq ''/usr/bin/app'' ''/opt/app/app''" by code_simp
  have "\<not> is_blocked 5 ''/opt/app/app'' (ds_rules (d_state demo_d))"
    by (simp add: is_blocked_def demo_d_def demo_store_def demo_rule_def) code_simp
  then show ?thesis
    using cli_block_symlink [OF s which_demo c n, of ?cli True demo_ex "cli_dec ?i" demo_enc demo_se demo_d]
      cli_codec_agree [of ?i] fits_ok by (auto simp del: dispatch.simps)
qed

lemma cli_allow_lifts_nothing_witness:
  "\<exists>d'. cli_main (cli_env_demo (target_rule ''./app'' ''/opt/app/app'' Allow True)
      (served_demo (target_rule ''./app'' ''/opt/app/app'' Allow True))) (cli_demo (AllowTarget ''./app'' None True)) =
      Some ([], True) \<and>
    dispatch demo_ex demo_se (AddRule (target_rule ''./app'' ''/opt/app/app'' Allow True)) demo_d = Some (ROk, d') \<and>
    is_blocked 5 ''/bin/a'' (ds_rules (d_state d')) = is_blocked 5 ''/bin/a'' (ds_rules (d_state demo_d))"
proof -
  let ?i = "target_rule ''./app'' ''/opt/app/app'' Allow True"
  let ?env = "cli_env_demo ?i (served_demo ?i)" and ?cli = "cli_demo (AllowTarget ''./app'' None True)"
  have "resolve_exe ?env (cl_socket ?cli) ''./app'' = Inr ''/opt/app/app''"
    by (simp add: resolve_exe_def SLASH_def cli_env_demo_def)
  from cli_allow_lifts_nothing [OF this, of True demo_ex "cli_dec ?i" demo_enc demo_se demo_d] cli_codec_agree [of ?i] fits_ok
  show ?thesis by (auto simp del: dispatch.simps)
qed

lemma cli_exit_status_witness:
  "\<exists>ls. cli_main (cli_env_demo (target_rule [] [] Allow True) (Refused ''no'')) (cli_demo (BlockTarget ''app'' None False)) = Some (ls, False)"
proof -
  let ?env = "cli_env_demo (target_rule [] [] Allow True) (Refused ''no'')" let ?cli = "cli_demo (BlockTarget ''app'' None False)"
  have r: "resolve_exe ?env (cl_socket ?cli) ''app'' = Inr ''/usr/bin/app''" by code_simp
  have "isl (roundtrip (ce_codec ?env) (cl_socket ?cli) (ce_request ?env) request)" for request
    by (simp add: roundtrip_def cli_connect_def cli_env_demo_def)
  then have "\<not> roundtrip (ce_codec ?env) (cl_socket ?cli) (ce_request ?env) request = Inr ROk" for request
    by (metis isl_def sum.distinct(1))
  with cli_exit_status [of ?env ?cli] r show ?thesis
    by (auto simp: cli_demo_def \<open>\<And>request. isl _\<close>)
qed

lemma table_aligned_witness:
  "\<exists>before after. table_line (foldl widen (replicate 2 0) [[''ID'', ''NAME''], [''12345'', ''x'']]) [''ID'', ''NAME''] =
     before @ ''NAME'' @ after \<and> char_count before = 7"
  using table_aligned [of "[[''ID'', ''NAME''], [''12345'', ''x'']]" 2 "[''ID'', ''NAME'']" 1]
  by (simp add: numeral_eq_Suc char_count_def)

lemma watch_prints_witness:
  "\<exists>w :: writer. cli_main (cli_env_demo (target_rule [] [] Allow True)
      (Stream \<lparr>wr_out = [], wr_limit = None\<rparr> (\<lambda>_. \<lparr>rd_bytes = wr_out w @ [0, 0], rd_broken = True\<rparr>)))
      (cli_demo WatchCmd) = Some ([Out ''event'', Out ''event''], True)"
proof -
  let ?es = "[PausedChanged True, PausedChanged False]"
  obtain w r where w: "stream_events demo_enc (map Got ?es) \<lparr>wr_out = [], wr_limit = None\<rparr> = (w, r)"
    by (meson surj_pair)
  then have "r = None" by (simp add: write_frame_def write_all_def)
  with w have w: "stream_events demo_enc (map Got ?es) \<lparr>wr_out = [], wr_limit = None\<rparr> = (w, None)" by simp
  have s: "\<forall>e \<in> set ?es. \<exists>body. demo_enc (REvent e) = Some body \<and> length body \<le> unat MAX_FRAME"
    by (simp add: MAX_FRAME_def)
  let ?env = "cli_env_demo (target_rule [] [] Allow True)
    (Stream \<lparr>wr_out = [], wr_limit = None\<rparr> (\<lambda>_. \<lparr>rd_bytes = wr_out w @ [0, 0], rd_broken = True\<rparr>))"
  have d: "decodes_encoded demo_enc (co_dec (ce_codec ?env))"
    using demo_codec_decodes(1) by (simp add: cli_codec_def demo_codec_def)
  have "cli_main ?env (cli_demo WatchCmd) = Some (map (\<lambda>e. Out ''event'') ?es, True)"
    by (rule watch_prints [OF _ _ d _ s w, of "[0, 0]" True "\<lambda>_. ''event''"])
      (simp_all add: cli_codec_def, simp_all add: cli_env_demo_def)
  then show ?thesis by auto
qed

end
