(* ===== verification/Sections.thy ===== *)
theory Sections
  imports GuiState Icons
begin

text \<open>
  The sections of the GUI's list pages (\<open>crates/gui/src/pages/mod.rs\<close>): list boxes that GTK sorts by
  the keys of their rows.  A widget is its pointer.  GTK's sorting, the allocation of widgets and the
  loading of textures are parameters.  What the applications page and the connections page have in
  common, a table of rows kept in step with a table of data, is the interface \<open>list_page\<close>.
\<close>

section \<open>Sections\<close>

type_synonym widget = nat

record SortKey =
  sk_primary :: u64
  sk_secondary :: u64
  sk_name :: string

text \<open>The sort keys' cells.  A row has one \<^typ>\<open>SortKey\<close>, shared between the row and its section, and
  it stays the same for as long as the row exists: it is found by the row's widget.\<close>

type_synonym cells = "widget \<Rightarrow> SortKey"

text \<open>The widgets that have a key, in any order, and the children of the list box in the order shown.\<close>

record SectionList =
  sl_visible :: bool
  sl_list :: "widget list"
  sl_keys :: "widget list"

type_synonym gtk_sort = "(widget \<Rightarrow> widget \<Rightarrow> Ordering) \<Rightarrow> widget list \<Rightarrow> widget list"

definition section_new :: SectionList where
  "section_new = \<lparr>sl_visible = True, sl_list = [], sl_keys = []\<rparr>"

definition sort_func :: "cells \<Rightarrow> widget list \<Rightarrow> widget \<Rightarrow> widget \<Rightarrow> Ordering" where
  "sort_func cells keys a b =
     (if a \<in> set keys \<and> b \<in> set keys then
        cmp_rows (sk_primary (cells a), sk_secondary (cells a), sk_name (cells a))
          (sk_primary (cells b), sk_secondary (cells b), sk_name (cells b))
      else Equal)"

definition section_invalidate :: "gtk_sort \<Rightarrow> cells \<Rightarrow> SectionList \<Rightarrow> SectionList" where
  "section_invalidate srt cells s = s\<lparr>sl_list := srt (sort_func cells (sl_keys s)) (sl_list s)\<rparr>"

definition section_insert :: "gtk_sort \<Rightarrow> cells \<Rightarrow> widget \<Rightarrow> SectionList \<Rightarrow> SectionList" where
  "section_insert srt cells row s =
     section_invalidate srt cells (s\<lparr>sl_keys := row # removeAll row (sl_keys s), sl_list := sl_list s @ [row]\<rparr>)"

definition section_remove :: "widget \<Rightarrow> SectionList \<Rightarrow> SectionList" where
  "section_remove row s = s\<lparr>sl_keys := removeAll row (sl_keys s), sl_list := remove1 row (sl_list s)\<rparr>"

definition section_len :: "SectionList \<Rightarrow> nat" where
  "section_len s = length (sl_keys s)"

definition section_is_empty :: "SectionList \<Rightarrow> bool" where
  "section_is_empty s \<longleftrightarrow> section_len s = 0"
text \<open>What the toolkit does: sorting, fresh widgets, textures.\<close>

record toolkit =
  tk_sort :: gtk_sort
  tk_alloc :: "widget list \<Rightarrow> widget"
  tk_loads :: "path \<Rightarrow> bool"

text \<open>The end of both pages' updates: sort again, and hide a section that is empty.\<close>

definition finish_section :: "toolkit \<Rightarrow> cells \<Rightarrow> SectionList \<Rightarrow> SectionList" where
  "finish_section tk cells s =
     (let s = section_invalidate (tk_sort tk) cells s in s\<lparr>sl_visible := \<not> section_is_empty s\<rparr>)"

section \<open>Specification\<close>

text \<open>The order of the rows: more traffic first, then the name.\<close>

datatype row_key = RowKey u64 u64 string

instantiation row_key :: linorder
begin

fun less_eq_row_key :: "row_key \<Rightarrow> row_key \<Rightarrow> bool" where
  "less_eq_row_key (RowKey a0 a1 a2) (RowKey b0 b1 b2) \<longleftrightarrow> b0 < a0 \<or> (a0 = b0 \<and> (b1 < a1 \<or> (a1 = b1 \<and> a2 \<le> b2)))"

definition less_row_key :: "row_key \<Rightarrow> row_key \<Rightarrow> bool" where
  "less_row_key a b \<longleftrightarrow> a \<le> b \<and> \<not> b \<le> a"

instance
proof
  fix a b c :: row_key
  show "a < b \<longleftrightarrow> a \<le> b \<and> \<not> b \<le> a" by (rule less_row_key_def)
  show "a \<le> a" by (cases a) simp
  show "a \<le> b \<Longrightarrow> b \<le> c \<Longrightarrow> a \<le> c" by (cases a; cases b; cases c) auto
  show "a \<le> b \<Longrightarrow> b \<le> a \<Longrightarrow> a = b" by (cases a; cases b) auto
  show "a \<le> b \<or> b \<le> a" by (cases a; cases b) auto
qed

end

definition cell_key :: "cells \<Rightarrow> widget \<Rightarrow> row_key" where
  "cell_key cells w = RowKey (sk_primary (cells w)) (sk_secondary (cells w)) (sk_name (cells w))"

definition shown_sorted :: "cells \<Rightarrow> SectionList \<Rightarrow> bool" where
  "shown_sorted cells s \<longleftrightarrow> sorted (map (cell_key cells) (sl_list s))"

text \<open>What is documented of the toolkit: sorting permutes, and orders by a comparison that is a total
  preorder on the rows; a new widget is not one of the live ones.\<close>

definition total_preorder :: "(widget \<Rightarrow> widget \<Rightarrow> Ordering) \<Rightarrow> widget list \<Rightarrow> bool" where
  "total_preorder c ws \<longleftrightarrow>
     (\<forall>a \<in> set ws. \<forall>b \<in> set ws. (c a b = Greater \<longleftrightarrow> c b a = Less)) \<and>
     (\<forall>a \<in> set ws. \<forall>b \<in> set ws. \<forall>d \<in> set ws. c a b \<noteq> Greater \<longrightarrow> c b d \<noteq> Greater \<longrightarrow> c a d \<noteq> Greater)"

definition toolkit_ok :: "toolkit \<Rightarrow> bool" where
  "toolkit_ok tk \<longleftrightarrow>
     (\<forall>c ws. mset (tk_sort tk c ws) = mset ws) \<and>
     (\<forall>c ws. total_preorder c ws \<longrightarrow> sorted_wrt (\<lambda>a b. c a b \<noteq> Greater) (tk_sort tk c ws)) \<and>
     (\<forall>ws. tk_alloc tk ws \<notin> set ws)"

text \<open>What a section should hold: these widgets, each once, and a key for each.\<close>

definition sec_holds :: "SectionList \<Rightarrow> widget multiset \<Rightarrow> bool" where
  "sec_holds s ws \<longleftrightarrow> mset (sl_list s) = ws \<and> mset (sl_keys s) = ws"

section \<open>Lemmas\<close>

subsection \<open>Sorting\<close>

lemma cmp_rows_key: "cmp_rows (a0, a1, a2) (b0, b1, b2) \<noteq> Greater \<longleftrightarrow> RowKey a0 a1 a2 \<le> RowKey b0 b1 b2"
  by (auto simp: cmp_def then_with_def split: if_splits)

lemma cmp_rows_swap: "cmp_rows a b = Greater \<longleftrightarrow> cmp_rows b a = Less"
  by (cases a; cases b) (auto simp: cmp_def then_with_def)

lemma sort_func_key:
  "a \<in> set keys \<Longrightarrow> b \<in> set keys \<Longrightarrow> sort_func cells keys a b \<noteq> Greater \<longleftrightarrow> cell_key cells a \<le> cell_key cells b"
  by (simp add: sort_func_def cell_key_def cmp_rows_key del: cmp_rows.simps less_eq_row_key.simps)

lemma sort_func_total:
  assumes "set ws \<subseteq> set keys"
  shows "total_preorder (sort_func cells keys) ws"
proof -
  have "sort_func cells keys a b = Greater \<longleftrightarrow> sort_func cells keys b a = Less" for a b
    by (auto simp: sort_func_def cmp_rows_swap simp del: cmp_rows.simps)
  moreover have "sort_func cells keys a d \<noteq> Greater"
    if "a \<in> set ws" "b \<in> set ws" "d \<in> set ws" "sort_func cells keys a b \<noteq> Greater" "sort_func cells keys b d \<noteq> Greater" for a b d
  proof -
    have k: "a \<in> set keys" "b \<in> set keys" "d \<in> set keys" using that(1-3) assms by (simp_all add: subset_iff)
    have "cell_key cells a \<le> cell_key cells b" "cell_key cells b \<le> cell_key cells d"
      using that(4,5) sort_func_key k by blast+
    then have "cell_key cells a \<le> cell_key cells d" by (rule order_trans)
    then show ?thesis using sort_func_key k by blast
  qed
  ultimately show ?thesis unfolding total_preorder_def by blast
qed

subsection \<open>Sections\<close>

lemma holds_new [simp]: "sec_holds section_new {#}"
  by (simp add: sec_holds_def section_new_def)

lemma holds_insert:
  assumes "toolkit_ok tk" "sec_holds s ws" "w \<notin># ws"
  shows "sec_holds (section_insert (tk_sort tk) cells w s) (add_mset w ws)"
proof -
  have "removeAll w (sl_keys s) = sl_keys s"
    using assms(2,3) by (intro removeAll_id) (metis sec_holds_def set_mset_mset)
  with assms show ?thesis
    by (simp add: sec_holds_def section_insert_def section_invalidate_def toolkit_ok_def)
qed

lemma holds_remove:
  assumes "sec_holds s (add_mset w ws)" "w \<notin># ws"
  shows "sec_holds (section_remove w s) ws"
proof -
  have "mset (removeAll w (sl_keys s)) = ws"
    using assms filter_mset_cong [of ws ws "(\<noteq>) w" "\<lambda>_. True"]
    by (auto simp: sec_holds_def removeAll_filter_not_eq)
  then show ?thesis using assms(1) by (simp add: sec_holds_def section_remove_def)
qed

lemma holds_invalidate:
  assumes "toolkit_ok tk" "sec_holds s ws"
  shows "sec_holds (section_invalidate (tk_sort tk) cells s) ws" "shown_sorted cells (section_invalidate (tk_sort tk) cells s)"
proof -
  show "sec_holds (section_invalidate (tk_sort tk) cells s) ws"
    using assms by (simp add: sec_holds_def section_invalidate_def toolkit_ok_def)
  have eq: "set (sl_list s) = set (sl_keys s)" using assms(2) by (metis sec_holds_def set_mset_mset)
  then have "total_preorder (sort_func cells (sl_keys s)) (sl_list s)" by (simp add: sort_func_total)
  with assms(1) have s: "sorted_wrt (\<lambda>a b. sort_func cells (sl_keys s) a b \<noteq> Greater)
      (tk_sort tk (sort_func cells (sl_keys s)) (sl_list s))" by (simp add: toolkit_ok_def)
  have m: "set (tk_sort tk (sort_func cells (sl_keys s)) (sl_list s)) = set (sl_keys s)"
    using assms(1) eq by (metis toolkit_ok_def set_mset_mset)
  have "sorted_wrt (\<lambda>a b. cell_key cells a \<le> cell_key cells b) (tk_sort tk (sort_func cells (sl_keys s)) (sl_list s))"
    by (rule sorted_wrt_mono_rel [OF _ s]) (simp add: m sort_func_key)
  then show "shown_sorted cells (section_invalidate (tk_sort tk) cells s)"
    by (simp add: shown_sorted_def section_invalidate_def sorted_map)
qed

lemma section_empty: "sec_holds s ws \<Longrightarrow> section_is_empty s \<longleftrightarrow> ws = {#}"
  by (auto simp: sec_holds_def section_is_empty_def section_len_def)

lemma section_visible [simp]:
  "sec_holds (s\<lparr>sl_visible := b\<rparr>) ws = sec_holds s ws" "shown_sorted cells (s\<lparr>sl_visible := b\<rparr>) = shown_sorted cells s"
  by (simp_all add: sec_holds_def shown_sorted_def)
subsection \<open>Rows of a page\<close>

lemma mset_update_delete:
  assumes "hm_wf m"
  shows "mset (AList.update k v m) = add_mset (k, v) (mset (AList.delete k m))"
proof -
  have "mset (AList.update k v m) = mset ((k, v) # AList.delete k m)"
  proof (rule map_of_eq_imp_mset_eq)
    show "distinct (map fst ((k, v) # AList.delete k m))"
      using assms dom_delete [of k m] by (simp add: distinct_delete)
  qed (use assms in \<open>simp_all add: distinct_update update_conv' delete_conv'\<close>)
  then show ?thesis by simp
qed

lemma mset_entry_delete: "hm_wf m \<Longrightarrow> map_of m k = Some v \<Longrightarrow> mset m = add_mset (k, v) (mset (AList.delete k m))"
  by (rule hm.mset_remove)

text \<open>The widgets of the rows for which \<open>in_sec\<close> holds, for both kinds of pages.\<close>

definition widgets_of :: "('r \<Rightarrow> widget) \<Rightarrow> ('r \<Rightarrow> bool) \<Rightarrow> (string \<times> 'r) list \<Rightarrow> widget multiset" where
  "widgets_of w in_sec rows = image_mset (w \<circ> snd) (filter_mset (in_sec \<circ> snd) (mset rows))"

definition distinct_widgets :: "('r \<Rightarrow> widget) \<Rightarrow> (string \<times> 'r) list \<Rightarrow> bool" where
  "distinct_widgets w rows \<longleftrightarrow> hm_wf rows \<and> distinct (map (w \<circ> snd) rows)"

lemma widgets_of_Nil [simp]: "widgets_of w p [] = {#}" "distinct_widgets w []"
  by (simp_all add: widgets_of_def distinct_widgets_def)

lemma widgets_of_entry:
  assumes "hm_wf rows" "map_of rows k = Some r"
  shows "widgets_of w p rows = (if p r then add_mset (w r) (widgets_of w p (AList.delete k rows)) else widgets_of w p (AList.delete k rows))"
  unfolding widgets_of_def mset_entry_delete [OF assms] by simp

lemma widgets_of_update:
  assumes "hm_wf rows"
  shows "widgets_of w p (AList.update k r rows) =
    (if p r then add_mset (w r) (widgets_of w p (AList.delete k rows)) else widgets_of w p (AList.delete k rows))"
  unfolding widgets_of_def mset_update_delete [OF assms] by simp

lemma set_widgets_of: "set_mset (widgets_of w p rows) \<subseteq> set (map (w \<circ> snd) rows)"
  by (auto simp: widgets_of_def)

lemma distinct_entry:
  assumes "distinct_widgets w rows" "map_of rows k = Some r"
  shows "distinct_widgets w (AList.delete k rows)" "w r \<notin> set (map (w \<circ> snd) (AList.delete k rows))"
proof -
  have "mset (map (w \<circ> snd) rows) = mset (w r # map (w \<circ> snd) (AList.delete k rows))"
    using mset_entry_delete [of rows k r] assms by (simp add: distinct_widgets_def)
  then have "distinct (w r # map (w \<circ> snd) (AList.delete k rows))"
    using assms(1) by (metis distinct_widgets_def mset_eq_imp_distinct_iff)
  with assms(1) show "distinct_widgets w (AList.delete k rows)" "w r \<notin> set (map (w \<circ> snd) (AList.delete k rows))"
    by (simp_all add: distinct_widgets_def distinct_delete)
qed

lemma distinct_row_update:
  assumes "distinct_widgets w (AList.delete k rows)" "hm_wf rows" "w r \<notin> set (map (w \<circ> snd) (AList.delete k rows))"
  shows "distinct_widgets w (AList.update k r rows)"
proof -
  have "mset (map (w \<circ> snd) (AList.update k r rows)) = mset (w r # map (w \<circ> snd) (AList.delete k rows))"
    using mset_update_delete [OF assms(2), of k r] by simp
  then have "distinct (map (w \<circ> snd) (AList.update k r rows))"
    using assms(1,3) by (metis distinct_widgets_def mset_eq_imp_distinct_iff distinct.simps(2))
  with assms(2) show ?thesis by (simp add: distinct_widgets_def distinct_update)
qed

lemma widget_of_row:
  assumes "hm_wf rows" "map_of rows k = Some r" "p r"
  shows "w r \<in># widgets_of w p rows"
  by (simp add: widgets_of_entry [OF assms(1,2)] assms(3))

lemma widgets_differ:
  assumes "distinct_widgets w rows" "map_of rows k = Some r" "map_of rows k' = Some r'" "k \<noteq> k'"
  shows "w r \<noteq> w r'"
proof -
  have "map_of (AList.delete k rows) k' = Some r'" using assms(3,4) by (simp add: delete_conv')
  then have "w r' \<in> set (map (w \<circ> snd) (AList.delete k rows))" by (force dest: map_of_SomeD)
  with distinct_entry(2) [OF assms(1,2)] show ?thesis by metis
qed
lemma not_in_widgets: "w r \<notin> set (map (w \<circ> snd) rows) \<Longrightarrow> w r \<notin># widgets_of w p rows"
  using set_widgets_of [of w p rows] by blast

section \<open>List pages\<close>

text \<open>A page keeps a table of rows, each in the section of its group, in step with a table of data.
  \<open>rows\<close>, \<open>cells\<close> and \<open>sec\<close> are its parts; \<open>row_ok\<close> is what holds of every row, \<open>displays d\<close> of one that is up
  to date with \<open>d\<close>, and \<open>outs\<close> is what the page sent.\<close>

definition list_page_ok :: "('p \<Rightarrow> (string \<times> 'r) list) \<Rightarrow> ('p \<Rightarrow> cells) \<Rightarrow> ('p \<Rightarrow> 'g \<Rightarrow> SectionList) \<Rightarrow> ('r \<Rightarrow> widget)
    \<Rightarrow> ('r \<Rightarrow> 'g) \<Rightarrow> (string \<Rightarrow> 'r \<Rightarrow> SortKey \<Rightarrow> bool) \<Rightarrow> 'p \<Rightarrow> bool" where
  "list_page_ok rows cells sec wid grp row_ok p \<longleftrightarrow> distinct_widgets wid (rows p) \<and>
     (\<forall>g. sec_holds (sec p g) (widgets_of wid (\<lambda>r. grp r = g) (rows p))) \<and>
     (\<forall>k r. map_of (rows p) k = Some r \<longrightarrow> row_ok k r (cells p (wid r)))"

definition list_page_shows :: "('p \<Rightarrow> (string \<times> 'r) list) \<Rightarrow> ('p \<Rightarrow> cells) \<Rightarrow> ('r \<Rightarrow> widget)
    \<Rightarrow> ('d \<Rightarrow> 'r \<Rightarrow> SortKey \<Rightarrow> bool) \<Rightarrow> 'p \<Rightarrow> string \<Rightarrow> 'd \<Rightarrow> bool" where
  "list_page_shows rows cells wid displays p k d \<longleftrightarrow>
     (\<exists>r. map_of (rows p) k = Some r \<and> displays d r (cells p (wid r)))"

text \<open>What a row keeps from the data it was made for.\<close>

definition list_page_kept :: "('p \<Rightarrow> (string \<times> 'r) list) \<Rightarrow> ('p \<Rightarrow> cells) \<Rightarrow> ('r \<Rightarrow> widget)
    \<Rightarrow> ('r \<Rightarrow> SortKey \<Rightarrow> 's) \<Rightarrow> 'p \<Rightarrow> string \<Rightarrow> 's option" where
  "list_page_kept rows cells wid kept p k = map_option (\<lambda>r. kept r (cells p (wid r))) (map_of (rows p) k)"

locale list_page =
  fixes rows :: "'p \<Rightarrow> (string \<times> 'r) list"
    and cells :: "'p \<Rightarrow> cells"
    and sec :: "'p \<Rightarrow> 'g \<Rightarrow> SectionList"
    and wid :: "'r \<Rightarrow> widget"
    and grp :: "'r \<Rightarrow> 'g"
    and row_ok :: "string \<Rightarrow> 'r \<Rightarrow> SortKey \<Rightarrow> bool"
    and displays :: "'d \<Rightarrow> 'r \<Rightarrow> SortKey \<Rightarrow> bool"
    and kept :: "'r \<Rightarrow> SortKey \<Rightarrow> 's"
    and first :: "'d \<Rightarrow> 's"
    and key_ok :: "string \<Rightarrow> 'd \<Rightarrow> bool"
    and outs :: "'p \<Rightarrow> 'o"
    and tk :: toolkit
    and drop_one :: "string \<Rightarrow> 'p \<Rightarrow> 'p"
    and visit :: "string \<times> 'd \<Rightarrow> 'p \<Rightarrow> 'p"
    and finish :: "'p \<Rightarrow> 'p"
  assumes drop_absent: "map_of (rows p) k = None \<Longrightarrow> drop_one k p = p"
    and drop_present: "map_of (rows p) k = Some r \<Longrightarrow> rows (drop_one k p) = AList.delete k (rows p) \<and>
      cells (drop_one k p) = cells p \<and> outs (drop_one k p) = outs p \<and>
      sec (drop_one k p) g = (if g = grp r then section_remove (wid r) (sec p g) else sec p g)"
    and visit_present: "map_of (rows p) k = Some r \<Longrightarrow> row_ok k r (cells p (wid r)) \<Longrightarrow> key_ok k d \<Longrightarrow>
      \<exists>r' c cs. wid r' = wid r \<and> row_ok k r' c \<and> displays d r' c \<and> kept r' c = kept r (cells p (wid r)) \<and>
        rows (visit (k, d) p) = AList.update k r' (rows p) \<and> cells (visit (k, d) p) = (cells p)(wid r' := c) \<and>
        outs (visit (k, d) p) = outs p \<and>
        (\<forall>g. sec (visit (k, d) p) g =
          (if grp r' = grp r then sec p g
           else if g = grp r' then section_insert (tk_sort tk) cs (wid r) (sec p g)
           else if g = grp r then section_remove (wid r) (sec p g) else sec p g))"
    and visit_absent: "map_of (rows p) k = None \<Longrightarrow> key_ok k d \<Longrightarrow>
      \<exists>r' c cs. wid r' = tk_alloc tk (map (wid \<circ> snd) (rows p)) \<and> row_ok k r' c \<and> displays d r' c \<and> kept r' c = first d \<and>
        rows (visit (k, d) p) = AList.update k r' (rows p) \<and> cells (visit (k, d) p) = (cells p)(wid r' := c) \<and>
        outs (visit (k, d) p) = outs p \<and>
        (\<forall>g. sec (visit (k, d) p) g = (if g = grp r' then section_insert (tk_sort tk) cs (wid r') (sec p g) else sec p g))"
    and finish_page: "rows (finish p) = rows p \<and> cells (finish p) = cells p \<and> outs (finish p) = outs p \<and>
      sec (finish p) g = finish_section tk (cells p) (sec p g)"
begin

abbreviation page_ok :: "'p \<Rightarrow> bool" where
  "page_ok \<equiv> list_page_ok rows cells sec wid grp row_ok"

abbreviation page_displays :: "'p \<Rightarrow> string \<Rightarrow> 'd \<Rightarrow> bool" where
  "page_displays \<equiv> list_page_shows rows cells wid displays"

abbreviation page_kept :: "'p \<Rightarrow> string \<Rightarrow> 's option" where
  "page_kept \<equiv> list_page_kept rows cells wid kept"

lemma page_okD:
  assumes "page_ok p"
  shows "hm_wf (rows p)" "distinct_widgets wid (rows p)" "sec_holds (sec p g) (widgets_of wid (\<lambda>r. grp r = g) (rows p))"
    "map_of (rows p) k = Some r \<Longrightarrow> row_ok k r (cells p (wid r))"
  using assms by (auto simp: list_page_ok_def distinct_widgets_def)

text \<open>The section of a group, with the row of one key taken out.\<close>

lemma sec_entry:
  assumes "page_ok p" "map_of (rows p) k = Some r"
  shows "sec_holds (sec p g) (if grp r = g then add_mset (wid r) (widgets_of wid (\<lambda>r. grp r = g) (AList.delete k (rows p)))
      else widgets_of wid (\<lambda>r. grp r = g) (AList.delete k (rows p)))"
    "wid r \<notin># widgets_of wid q (AList.delete k (rows p))"
proof -
  show "sec_holds (sec p g) (if grp r = g then add_mset (wid r) (widgets_of wid (\<lambda>r. grp r = g) (AList.delete k (rows p)))
      else widgets_of wid (\<lambda>r. grp r = g) (AList.delete k (rows p)))"
    using page_okD(3) [OF assms(1), of g] unfolding widgets_of_entry [OF page_okD(1) [OF assms(1)] assms(2)] .
  show "wid r \<notin># widgets_of wid q (AList.delete k (rows p))"
    by (rule not_in_widgets [OF distinct_entry(2) [OF page_okD(2) [OF assms(1)] assms(2)]])
qed

subsection \<open>Dropping rows\<close>

lemma drop_ok:
  assumes "page_ok p"
  shows "page_ok (drop_one k p)" "rows (drop_one k p) = AList.delete k (rows p)" "outs (drop_one k p) = outs p"
    "cells (drop_one k p) = cells p"
proof -
  have "page_ok (drop_one k p) \<and> rows (drop_one k p) = AList.delete k (rows p) \<and> outs (drop_one k p) = outs p \<and>
    cells (drop_one k p) = cells p"
  proof (cases "map_of (rows p) k")
    case None
    then show ?thesis using assms drop_absent by (simp add: delete_absent)
  next
    case (Some r)
    note d = drop_present [OF Some]
    have "sec_holds (sec (drop_one k p) g) (widgets_of wid (\<lambda>r. grp r = g) (AList.delete k (rows p)))" for g
      using d [of g] sec_entry(1) [OF assms Some, of g] holds_remove [OF _ sec_entry(2) [OF assms Some]]
      by (simp split: if_splits)
    moreover have "distinct_widgets wid (AList.delete k (rows p))"
      by (rule distinct_entry(1) [OF page_okD(2) [OF assms] Some])
    ultimately show ?thesis
      using d page_okD(4) [OF assms] by (auto simp: list_page_ok_def delete_conv' split: if_splits)
  qed
  then show "page_ok (drop_one k p)" "rows (drop_one k p) = AList.delete k (rows p)" "outs (drop_one k p) = outs p"
    "cells (drop_one k p) = cells p" by blast+
qed

lemma fold_drop_ok:
  "page_ok p \<Longrightarrow> page_ok (fold drop_one ks p) \<and> outs (fold drop_one ks p) = outs p \<and> cells (fold drop_one ks p) = cells p \<and>
     map_of (rows (fold drop_one ks p)) k = (if k \<in> set ks then None else map_of (rows p) k)"
  by (induction ks arbitrary: p) (auto simp: drop_ok delete_conv')

subsection \<open>Visiting one entry\<close>

text \<open>What the row of an entry keeps: what the row it had kept, or else the entry itself.\<close>

definition kept_or :: "'d \<Rightarrow> 's option \<Rightarrow> 's" where
  "kept_or d old = (case old of None \<Rightarrow> first d | Some s \<Rightarrow> s)"

text \<open>A page that differs from an old one by a row that displays its data.\<close>

lemma replace_row:
  assumes ok: "page_ok p" and rows: "rows p' = AList.update k r (rows p)" and cells: "cells p' = (cells p)(wid r := c)"
    and r: "row_ok k r c" "displays d r c"
    and fresh: "wid r \<notin> set (map (wid \<circ> snd) (AList.delete k (rows p)))" "distinct_widgets wid (AList.delete k (rows p))"
    and sec: "\<And>g. sec_holds (sec p' g) (if grp r = g then add_mset (wid r) (widgets_of wid (\<lambda>r. grp r = g) (AList.delete k (rows p)))
      else widgets_of wid (\<lambda>r. grp r = g) (AList.delete k (rows p)))"
  shows "page_ok p' \<and> page_displays p' k d \<and> dom (map_of (rows p')) = insert k (dom (map_of (rows p))) \<and>
    (\<forall>k' d'. k' \<noteq> k \<longrightarrow> page_displays p k' d' \<longrightarrow> page_displays p' k' d') \<and>
    (\<forall>k'. page_kept p' k' = (if k' = k then Some (kept r c) else page_kept p k'))"
proof -
  have get: "map_of (rows p') k' = (if k' = k then Some r else map_of (rows p) k')" for k'
    unfolding rows by (simp add: update_conv')
  have same: "cells p' (wid q) = cells p (wid q)" if "map_of (rows p) k' = Some q" "k' \<noteq> k" for k' q
  proof -
    have "map_of (AList.delete k (rows p)) k' = Some q" using that by (simp add: delete_conv')
    then have "wid q \<in> set (map (wid \<circ> snd) (AList.delete k (rows p)))" by (force dest: map_of_SomeD)
    with fresh(1) have "wid q \<noteq> wid r" by metis
    then show ?thesis by (simp add: cells)
  qed
  have "distinct_widgets wid (rows p')"
    unfolding rows by (rule distinct_row_update [OF fresh(2) page_okD(1) [OF ok] fresh(1)])
  moreover have "sec_holds (sec p' g) (widgets_of wid (\<lambda>r. grp r = g) (rows p'))" for g
    using sec [of g] unfolding rows widgets_of_update [OF page_okD(1) [OF ok]] .
  moreover have "row_ok k' q (cells p' (wid q))" if "map_of (rows p') k' = Some q" for k' q
    using that r(1) page_okD(4) [OF ok, of k' q] same by (cases "k' = k") (auto simp: get cells)
  ultimately have "page_ok p'" by (simp add: list_page_ok_def)
  moreover have "page_displays p' k d" using r(2) by (simp add: list_page_shows_def get cells)
  moreover have "page_displays p' k' d'" if "k' \<noteq> k" "page_displays p k' d'" for k' d'
    using that same by (auto simp: list_page_shows_def get)
  moreover have "dom (map_of (rows p')) = insert k (dom (map_of (rows p)))" by (auto simp: get split: if_splits)
  moreover have "page_kept p' k' = (if k' = k then Some (kept r c) else page_kept p k')" for k'
    using same by (cases "map_of (rows p) k'") (auto simp: list_page_kept_def get cells)
  ultimately show ?thesis by blast
qed

lemma visit_ok:
  assumes "toolkit_ok tk" "page_ok p" "key_ok k d"
  shows "page_ok (visit (k, d) p) \<and> page_displays (visit (k, d) p) k d \<and>
    dom (map_of (rows (visit (k, d) p))) = insert k (dom (map_of (rows p))) \<and>
    (\<forall>k' d'. k' \<noteq> k \<longrightarrow> page_displays p k' d' \<longrightarrow> page_displays (visit (k, d) p) k' d') \<and>
    outs (visit (k, d) p) = outs p \<and>
    (\<forall>k'. page_kept (visit (k, d) p) k' = (if k' = k then Some (kept_or d (page_kept p k)) else page_kept p k'))"
proof (cases "map_of (rows p) k")
  case (Some r)
  obtain r' c cs where v: "wid r' = wid r" "row_ok k r' c" "displays d r' c"
    "rows (visit (k, d) p) = AList.update k r' (rows p)" "cells (visit (k, d) p) = (cells p)(wid r' := c)"
    "outs (visit (k, d) p) = outs p" "kept r' c = kept r (cells p (wid r))"
    and s: "\<And>g. sec (visit (k, d) p) g = (if grp r' = grp r then sec p g
      else if g = grp r' then section_insert (tk_sort tk) cs (wid r) (sec p g)
      else if g = grp r then section_remove (wid r) (sec p g) else sec p g)"
    using visit_present [OF Some page_okD(4) [OF assms(2) Some] assms(3)] by blast
  note e = sec_entry [OF assms(2) Some] and f = distinct_entry [OF page_okD(2) [OF assms(2)] Some]
  have "sec_holds (sec (visit (k, d) p) g) (if grp r' = g then add_mset (wid r') (widgets_of wid (\<lambda>r. grp r = g) (AList.delete k (rows p)))
      else widgets_of wid (\<lambda>r. grp r = g) (AList.delete k (rows p)))" for g
    unfolding s v(1) using e(1) [of g] holds_remove [OF _ e(2)] holds_insert [OF assms(1) _ e(2)] by (auto split: if_splits)
  moreover have "kept_or d (page_kept p k) = kept r' c" by (simp add: kept_or_def list_page_kept_def Some v(7))
  ultimately show ?thesis using replace_row [OF assms(2) v(4,5,2,3)] f v(1,6) by simp
next
  case None
  obtain r' c cs where v: "wid r' = tk_alloc tk (map (wid \<circ> snd) (rows p))" "row_ok k r' c" "displays d r' c"
    "rows (visit (k, d) p) = AList.update k r' (rows p)" "cells (visit (k, d) p) = (cells p)(wid r' := c)"
    "outs (visit (k, d) p) = outs p" "kept r' c = first d"
    and s: "\<And>g. sec (visit (k, d) p) g = (if g = grp r' then section_insert (tk_sort tk) cs (wid r') (sec p g) else sec p g)"
    using visit_absent [OF None assms(3)] by blast
  have del: "AList.delete k (rows p) = rows p" using None by (rule delete_absent)
  have w: "wid r' \<notin> set (map (wid \<circ> snd) (rows p))" unfolding v(1) using assms(1) unfolding toolkit_ok_def by blast
  have "sec_holds (sec (visit (k, d) p) g) (if grp r' = g then add_mset (wid r') (widgets_of wid (\<lambda>r. grp r = g) (AList.delete k (rows p)))
      else widgets_of wid (\<lambda>r. grp r = g) (AList.delete k (rows p)))" for g
    unfolding s del using page_okD(3) [OF assms(2), of g] holds_insert [OF assms(1) _ not_in_widgets [OF w]] by auto
  moreover have "kept_or d (page_kept p k) = kept r' c" by (simp add: kept_or_def list_page_kept_def None v(7))
  ultimately show ?thesis
    using replace_row [OF assms(2) v(4,5,2,3)] w page_okD(2) [OF assms(2)] v(6) unfolding del by simp
qed

lemma fold_visit_ok:
  assumes "toolkit_ok tk" "page_ok p" "distinct (map fst ds)" "\<forall>(k, d) \<in> set ds. key_ok k d"
  shows "page_ok (fold visit ds p) \<and> outs (fold visit ds p) = outs p \<and>
    (\<forall>(k, d) \<in> set ds. page_displays (fold visit ds p) k d) \<and>
    dom (map_of (rows (fold visit ds p))) = fst ` set ds \<union> dom (map_of (rows p)) \<and>
    (\<forall>k d. k \<notin> fst ` set ds \<longrightarrow> page_displays p k d \<longrightarrow> page_displays (fold visit ds p) k d)"
  using assms(2-)
proof (induction ds arbitrary: p)
  case (Cons e ds)
  obtain k d where e: "e = (k, d)" by fastforce
  have "key_ok k d" using Cons.prems(3) e by simp
  note v = visit_ok [OF assms(1) Cons.prems(1) this]
  have "distinct (map fst ds)" "k \<notin> fst ` set ds" "\<forall>(k, d) \<in> set ds. key_ok k d" using Cons.prems(2,3) e by auto
  with Cons.IH [of "visit (k, d) p"] v e show ?case by auto
qed auto

lemma fold_visit_kept:
  assumes "toolkit_ok tk" "page_ok p" "distinct (map fst ds)" "\<forall>(k, d) \<in> set ds. key_ok k d"
  shows "page_kept (fold visit ds p) k = (case map_of ds k of None \<Rightarrow> page_kept p k | Some d \<Rightarrow> Some (kept_or d (page_kept p k)))"
  using assms(2-)
proof (induction ds arbitrary: p)
  case (Cons e ds)
  obtain q d where e: "e = (q, d)" by fastforce
  have q: "key_ok q d" "q \<notin> fst ` set ds" using Cons.prems(2,3) e by auto
  have "map_of ds q = None" using q(2) by (metis domIff dom_map_of_conv_image_fst)
  moreover have "page_kept (fold visit ds (visit (q, d) p)) k =
      (case map_of ds k of None \<Rightarrow> page_kept (visit (q, d) p) k | Some d' \<Rightarrow> Some (kept_or d' (page_kept (visit (q, d) p) k)))"
    using visit_ok [OF assms(1) Cons.prems(1) q(1)] Cons.prems(2,3) e by (intro Cons.IH) auto
  moreover have "page_kept (visit (q, d) p) k = (if k = q then Some (kept_or d (page_kept p q)) else page_kept p k)"
    using visit_ok [OF assms(1) Cons.prems(1) q(1)] by blast
  ultimately show ?case by (cases "k = q"; cases "map_of ds k") (simp_all add: e)
qed simp

subsection \<open>The whole update\<close>

lemma finish_ok:
  assumes "toolkit_ok tk" "page_ok p"
  shows "page_ok (finish p)" "shown_sorted (cells p) (sec (finish p) g)"
    "sl_visible (sec (finish p) g) \<longleftrightarrow> (\<exists>k r. map_of (rows p) k = Some r \<and> grp r = g)"
    "section_is_empty (sec (finish p) g) \<longleftrightarrow> \<not> sl_visible (sec (finish p) g)"
proof -
  let ?ws = "\<lambda>g. widgets_of wid (\<lambda>r. grp r = g) (rows p)"
  let ?inv = "\<lambda>g. section_invalidate (tk_sort tk) (cells p) (sec p g)"
  have i: "sec_holds (?inv g) (?ws g)" "shown_sorted (cells p) (?inv g)" for g
    using holds_invalidate [OF assms(1) page_okD(3) [OF assms(2)]] by blast+
  have s: "sec (finish p) g = (?inv g)\<lparr>sl_visible := \<not> section_is_empty (?inv g)\<rparr>" for g
    using finish_page [of p g] by (simp add: finish_section_def Let_def)
  have f: "rows (finish p) = rows p" "cells (finish p) = cells p" using finish_page by blast+
  show "page_ok (finish p)"
    using assms(2) i(1) by (simp add: list_page_ok_def s f)
  show "shown_sorted (cells p) (sec (finish p) g)" using i(2) by (simp add: s)
  have "(\<exists>w. w \<in># ?ws g) \<longleftrightarrow> (\<exists>k r. (k, r) \<in> set (rows p) \<and> grp r = g)"
    by (force simp: widgets_of_def)
  then have "?ws g \<noteq> {#} \<longleftrightarrow> (\<exists>k r. (k, r) \<in> set (rows p) \<and> grp r = g)"
    by (metis multiset_nonemptyE empty_not_add_mset multi_member_split)
  then show "sl_visible (sec (finish p) g) \<longleftrightarrow> (\<exists>k r. map_of (rows p) k = Some r \<and> grp r = g)"
    using section_empty [OF i(1), of g] page_okD(1) [OF assms(2)] by (simp add: s)
  show "section_is_empty (sec (finish p) g) \<longleftrightarrow> \<not> sl_visible (sec (finish p) g)"
    by (simp add: s section_is_empty_def section_len_def)
qed

lemma row_in_section:
  assumes "page_ok p" "map_of (rows p) k = Some r"
  shows "wid r \<in> set (sl_list (sec p (grp r)))"
proof -
  have "wid r \<in># mset (sl_list (sec p (grp r)))"
    using sec_entry(1) [OF assms, of "grp r"] by (simp add: sec_holds_def)
  then show ?thesis by simp
qed

lemma update_ok:
  assumes "toolkit_ok tk" "page_ok p" "distinct (map fst ds)" "\<forall>(k, d) \<in> set ds. key_ok k d"
    and "p' = finish (fold visit ds (fold drop_one (filter (\<lambda>k. map_of ds k = None) (map fst (rows p))) p))"
  shows "page_ok p' \<and> outs p' = outs p \<and> dom (map_of (rows p')) = dom (map_of ds) \<and>
    (\<forall>k d. map_of ds k = Some d \<longrightarrow> page_displays p' k d \<and> page_kept p' k = Some (kept_or d (page_kept p k))) \<and>
    (\<forall>g. shown_sorted (cells p') (sec p' g)) \<and>
    (\<forall>g. sl_visible (sec p' g) \<longleftrightarrow> (\<exists>k r. map_of (rows p') k = Some r \<and> grp r = g)) \<and>
    (\<forall>g. section_is_empty (sec p' g) \<longleftrightarrow> \<not> sl_visible (sec p' g))"
proof -
  let ?stale = "filter (\<lambda>k. map_of ds k = None) (map fst (rows p))"
  let ?p1 = "fold drop_one ?stale p" let ?p2 = "fold visit ds ?p1"
  have 1: "page_ok ?p1" "outs ?p1 = outs p" "cells ?p1 = cells p"
    "map_of (rows ?p1) k = (if k \<in> set ?stale then None else map_of (rows p) k)" for k
    using fold_drop_ok [OF assms(2)] by blast+
  have "dom (map_of (rows ?p1)) \<subseteq> fst ` set ds"
  proof
    fix k assume "k \<in> dom (map_of (rows ?p1))"
    then have "k \<notin> set ?stale" "k \<in> fst ` set (rows p)"
      by (auto simp: 1(4) dom_map_of_conv_image_fst [symmetric] split: if_splits)
    then have "map_of ds k \<noteq> None" by auto
    then show "k \<in> fst ` set ds" by (metis domIff dom_map_of_conv_image_fst)
  qed
  with fold_visit_ok [OF assms(1) 1(1) assms(3,4)]
  have 2: "page_ok ?p2" "outs ?p2 = outs p" "dom (map_of (rows ?p2)) = fst ` set ds"
    "\<forall>(k, d) \<in> set ds. page_displays ?p2 k d" using 1(2) by auto
  have f: "rows p' = rows ?p2" "cells p' = cells ?p2" "outs p' = outs ?p2" using finish_page [of ?p2] assms(5) by simp_all
  have "page_displays p' k d" if "map_of ds k = Some d" for k d
    using map_of_SomeD [OF that] 2(4) by (auto simp: list_page_shows_def f)
  moreover have "page_kept p' k = Some (kept_or d (page_kept p k))" if "map_of ds k = Some d" for k d
  proof -
    have "page_kept ?p1 k = page_kept p k" using that by (simp add: list_page_kept_def 1(3,4))
    moreover have "page_kept p' k = page_kept ?p2 k" by (simp add: list_page_kept_def f)
    ultimately show ?thesis using fold_visit_kept [OF assms(1) 1(1) assms(3,4), of k] that by simp
  qed
  ultimately show ?thesis using 2 finish_ok [OF assms(1) 2(1)]
    by (simp add: f) (simp add: assms(5) dom_map_of_conv_image_fst)
qed

end

end
