(* ===== verification/GuiPages.thy ===== *)
theory GuiPages
  imports Sections GuiClient Format
begin

text \<open>
  The two list pages of the GUI (\<open>crates/gui/src/pages/applications.rs\<close> and \<open>connections.rs\<close>): rows
  that are kept in step with the state, and the switches that send commands.  What a page shows is
  a record of the properties the code sets.  Both pages interpret \<open>list_page\<close>.
\<close>

section \<open>The applications page\<close>

text \<open>\<open>ar_name\<close> and \<open>ar_exe\<close> are what the switch's handler captured when the row was made.\<close>

record AppRow =
  ar_row :: widget
  ar_title :: string
  ar_subtitle :: string
  ar_dimmed :: bool
  ar_icon :: Image
  ar_active :: bool
  ar_sensitive :: bool
  ar_updating :: bool
  ar_rule_id :: "u64 option"
  ar_blocked :: bool
  ar_name :: string
  ar_exe :: "path option"

record AppsPage =
  pa_allowed :: SectionList
  pa_blocked :: SectionList
  pa_empty_label :: bool
  pa_rows :: "(string, AppRow) hashmap"
  pa_cells :: cells

definition apps_page_new :: AppsPage where
  "apps_page_new = \<lparr>pa_allowed = section_new, pa_blocked = section_new\<lparr>sl_visible := False\<rparr>, pa_empty_label = True,
     pa_rows = [], pa_cells = (\<lambda>_. \<lparr>sk_primary = 0, sk_secondary = 0, sk_name = []\<rparr>)\<rparr>"

definition apps_section :: "AppsPage \<Rightarrow> bool \<Rightarrow> SectionList" where
  "apps_section page blocked = (if blocked then pa_blocked page else pa_allowed page)"

definition on_section :: "bool \<Rightarrow> (SectionList \<Rightarrow> SectionList) \<Rightarrow> AppsPage \<Rightarrow> AppsPage" where
  "on_section blocked f page =
     (if blocked then page\<lparr>pa_blocked := f (pa_blocked page)\<rparr> else page\<lparr>pa_allowed := f (pa_allowed page)\<rparr>)"

subsection \<open>The switch\<close>

text \<open>The handler of \<open>state-set\<close>: what it sends when the switch goes to \<open>active\<close>.\<close>

definition switch_handler :: "AppRow \<Rightarrow> bool \<Rightarrow> GuiCmd list" where
  "switch_handler r active =
     (if ar_updating r then []
      else if active then (case ar_rule_id r of Some i \<Rightarrow> [UnblockCmd i] | None \<Rightarrow> [])
      else (case ar_exe r of Some exe \<Rightarrow> [BlockCmd (ar_name r) exe] | None \<Rightarrow> []))"

text \<open>A switch that changes its position runs its handler, whoever moves it.\<close>

definition set_active :: "bool \<Rightarrow> AppRow \<Rightarrow> AppRow \<times> GuiCmd list" where
  "set_active active r =
     (if ar_active r = active then (r, []) else (r\<lparr>ar_active := active\<rparr>, switch_handler r active))"

subsection \<open>Rows\<close>

definition up_arrow :: string where "up_arrow = [CHR 0xE2, CHR 0x86, CHR 0x91]"
definition down_arrow :: string where "down_arrow = [CHR 0xE2, CHR 0x86, CHR 0x93]"
definition middle_dot :: string where "middle_dot = [CHR 0xC2, CHR 0xB7]"
definition long_dash :: string where "long_dash = [CHR 0xE2, CHR 0x80, CHR 0x94]"

definition app_subtitle :: "AppEntry \<Rightarrow> string" where
  "app_subtitle app =
     up_arrow @ '' '' @ human_speed (ap_speed_up app) @ '' '' @ middle_dot @ '' '' @
     down_arrow @ '' '' @ human_speed (ap_speed_down app) @ ''  '' @ long_dash @ ''  total '' @
     up_arrow @ '' '' @ human_bytes (ap_bytes_sent app) @ '' '' @ down_arrow @ '' '' @ human_bytes (ap_bytes_recv app)"

definition app_sort_key :: "AppEntry \<Rightarrow> SortKey \<Rightarrow> SortKey" where
  "app_sort_key app k = k\<lparr>sk_primary := ap_bytes_recv app, sk_secondary := ap_bytes_sent app\<rparr>"

definition refresh_row :: "(path \<Rightarrow> bool) \<Rightarrow> AppEntry \<Rightarrow> bool \<Rightarrow> AppRow \<Rightarrow> cells \<Rightarrow> AppRow \<times> cells \<times> GuiCmd list" where
  "refresh_row loads app dark r cells =
     (let cells = cells(ar_row r := app_sort_key app (cells (ar_row r)));
          r = r\<lparr>ar_icon := set_ui_icon loads (ar_icon r) ''app-generic'' dark,
                ar_subtitle := app_subtitle app, ar_dimmed := ap_blocked app,
                ar_rule_id := ap_block_rule_id app, ar_updating := True\<rparr>;
          (r, cmds) = set_active (is_allowed app) r;
          r = r\<lparr>ar_sensitive := (ap_exe app \<noteq> None), ar_updating := False\<rparr>
      in (r, cells, cmds))"

definition create_row :: "toolkit \<Rightarrow> AppEntry \<Rightarrow> AppsPage \<Rightarrow> AppRow \<times> cells" where
  "create_row tk app page =
     (let row = tk_alloc tk (map (ar_row \<circ> snd) (pa_rows page)) in
      (\<lparr>ar_row = row, ar_title = ap_name app, ar_subtitle = [], ar_dimmed = False,
        ar_icon = ui_image (tk_loads tk) ''app-generic'' False, ar_active = False, ar_sensitive = True,
        ar_updating = False, ar_rule_id = ap_block_rule_id app, ar_blocked = ap_blocked app,
        ar_name = ap_name app, ar_exe = ap_exe app\<rparr>,
       (pa_cells page)(row := \<lparr>sk_primary = ap_bytes_recv app, sk_secondary = ap_bytes_sent app, sk_name = ap_name app\<rparr>)))"

subsection \<open>Updating the page\<close>

definition drop_row :: "string \<Rightarrow> AppsPage \<Rightarrow> AppsPage" where
  "drop_row key page =
     (case map_of (pa_rows page) key of
        None \<Rightarrow> page
      | Some r \<Rightarrow> on_section (ar_blocked r) (section_remove (ar_row r)) (page\<lparr>pa_rows := AList.delete key (pa_rows page)\<rparr>))"

definition move_row :: "toolkit \<Rightarrow> bool \<Rightarrow> AppRow \<Rightarrow> AppsPage \<Rightarrow> AppRow \<times> AppsPage" where
  "move_row tk blocked r page =
     (if ar_blocked r = blocked then (r, page)
      else (let page = on_section (ar_blocked r) (section_remove (ar_row r)) page;
                page = on_section blocked (section_insert (tk_sort tk) (pa_cells page) (ar_row r)) page
            in (r\<lparr>ar_blocked := blocked\<rparr>, page)))"

definition visit_app :: "toolkit \<Rightarrow> bool \<Rightarrow> string \<times> AppEntry \<Rightarrow> AppsPage \<times> GuiCmd list \<Rightarrow> AppsPage \<times> GuiCmd list" where
  "visit_app tk dark entry acc =
     (let (key, app) = entry; (page, sent) = acc in
      case map_of (pa_rows page) key of
        Some r \<Rightarrow>
          (let (r, page) = move_row tk (ap_blocked app) r page;
               (r, cells, cmds) = refresh_row (tk_loads tk) app dark r (pa_cells page)
           in (page\<lparr>pa_rows := AList.update key r (pa_rows page), pa_cells := cells\<rparr>, sent @ cmds))
      | None \<Rightarrow>
          (let (r, cells) = create_row tk app page;
               (r, cells, cmds) = refresh_row (tk_loads tk) app dark r cells;
               page = on_section (ap_blocked app) (section_insert (tk_sort tk) cells (ar_row r)) (page\<lparr>pa_cells := cells\<rparr>)
           in (page\<lparr>pa_rows := AList.update key r (pa_rows page)\<rparr>, sent @ cmds)))"

definition finish_apps :: "toolkit \<Rightarrow> AppsPage \<Rightarrow> AppsPage" where
  "finish_apps tk page =
     (let allowed = section_invalidate (tk_sort tk) (pa_cells page) (pa_allowed page);
          blocked = section_invalidate (tk_sort tk) (pa_cells page) (pa_blocked page)
      in page\<lparr>pa_allowed := allowed\<lparr>sl_visible := \<not> section_is_empty allowed\<rparr>,
              pa_blocked := blocked\<lparr>sl_visible := \<not> section_is_empty blocked\<rparr>,
              pa_empty_label := section_is_empty allowed \<and> section_is_empty blocked\<rparr>)"

definition apps_update :: "toolkit \<Rightarrow> ClientState \<Rightarrow> bool \<Rightarrow> AppsPage \<Rightarrow> AppsPage \<times> GuiCmd list" where
  "apps_update tk st dark page =
     (let stale = filter (\<lambda>k. map_of (cs_apps st) k = None) (map fst (pa_rows page));
          page = fold drop_row stale page;
          (page, sent) = fold (visit_app tk dark) (cs_apps st) (page, [])
      in (finish_apps tk page, sent))"

text \<open>The user flips the switch of a row.\<close>

definition flip_switch :: "string \<Rightarrow> AppsPage \<Rightarrow> AppsPage \<times> GuiCmd list" where
  "flip_switch key page =
     (case map_of (pa_rows page) key of
        None \<Rightarrow> (page, [])
      | Some r \<Rightarrow>
          if \<not> ar_sensitive r then (page, [])
          else (let (r, cmds) = set_active (\<not> ar_active r) r
                in (page\<lparr>pa_rows := AList.update key r (pa_rows page)\<rparr>, cmds)))"
section \<open>Specification\<close>

text \<open>The invariant of the applications page.\<close>

definition app_row_ok :: "string \<Rightarrow> AppRow \<Rightarrow> SortKey \<Rightarrow> bool" where
  "app_row_ok k r c \<longleftrightarrow> \<not> ar_updating r \<and> gui_app_key (ar_exe r) (ar_name r) = k \<and> sk_name c = ar_name r"

definition apps_page_ok :: "AppsPage \<Rightarrow> bool" where
  "apps_page_ok page \<longleftrightarrow> distinct_widgets ar_row (pa_rows page) \<and>
     (\<forall>b. sec_holds (apps_section page b) (widgets_of ar_row (\<lambda>r. ar_blocked r = b) (pa_rows page))) \<and>
     (\<forall>k r. map_of (pa_rows page) k = Some r \<longrightarrow> app_row_ok k r (pa_cells page (ar_row r)))"

text \<open>A row shows an application.\<close>

definition row_shows :: "AppEntry \<Rightarrow> AppRow \<Rightarrow> bool" where
  "row_shows app r \<longleftrightarrow> ar_subtitle r = app_subtitle app \<and> ar_dimmed r = ap_blocked app \<and>
     ar_rule_id r = ap_block_rule_id app \<and> ar_active r = is_allowed app \<and>
     ar_sensitive r = (ap_exe app \<noteq> None) \<and> ar_blocked r = ap_blocked app"

definition app_displays :: "AppEntry \<Rightarrow> AppRow \<Rightarrow> SortKey \<Rightarrow> bool" where
  "app_displays app r c \<longleftrightarrow> row_shows app r \<and> sk_primary c = ap_bytes_recv app \<and> sk_secondary c = ap_bytes_sent app"

definition page_shows :: "AppsPage \<Rightarrow> string \<Rightarrow> AppEntry \<Rightarrow> bool" where
  "page_shows page k app \<longleftrightarrow>
     (\<exists>r. map_of (pa_rows page) k = Some r \<and> app_displays app r (pa_cells page (ar_row r)))"

section \<open>Lemmas\<close>

subsection \<open>The applications page\<close>

lemma apps_page_new_ok: "apps_page_ok apps_page_new"
  by (simp add: apps_page_ok_def apps_page_new_def apps_section_def)

lemma on_section_simps [simp]:
  "apps_section (on_section b f page) b' = (if b = b' then f (apps_section page b) else apps_section page b')"
  "pa_rows (on_section b f page) = pa_rows page" "pa_cells (on_section b f page) = pa_cells page"
  "apps_section (page\<lparr>pa_rows := rows\<rparr>) b = apps_section page b"
  "apps_section (page\<lparr>pa_cells := cells\<rparr>) b = apps_section page b"
  by (auto simp: on_section_def apps_section_def)

text \<open>What a row looks like once it was refreshed; refreshing sends nothing.\<close>

definition refreshed :: "(path \<Rightarrow> bool) \<Rightarrow> AppEntry \<Rightarrow> bool \<Rightarrow> AppRow \<Rightarrow> AppRow" where
  "refreshed loads app dark r = r\<lparr>ar_icon := set_ui_icon loads (ar_icon r) ''app-generic'' dark,
     ar_subtitle := app_subtitle app, ar_dimmed := ap_blocked app, ar_rule_id := ap_block_rule_id app,
     ar_active := is_allowed app, ar_sensitive := (ap_exe app \<noteq> None), ar_updating := False\<rparr>"

lemma refresh_row_eq:
  "refresh_row loads app dark r cells =
     (refreshed loads app dark r, cells(ar_row r := app_sort_key app (cells (ar_row r))), [])"
  by (simp add: refresh_row_def refreshed_def set_active_def switch_handler_def Let_def)

lemma refreshed_simps [simp]:
  "ar_row (refreshed loads app dark r) = ar_row r" "ar_blocked (refreshed loads app dark r) = ar_blocked r"
  "ar_name (refreshed loads app dark r) = ar_name r" "ar_exe (refreshed loads app dark r) = ar_exe r"
  "ar_title (refreshed loads app dark r) = ar_title r" "ar_updating (refreshed loads app dark r) = False"
  by (simp_all add: refreshed_def)

lemma app_sort_key_name [simp]: "sk_name (app_sort_key app k) = sk_name k"
  by (simp add: app_sort_key_def)

lemma row_shows_refreshed: "ar_blocked r = ap_blocked app \<Longrightarrow> row_shows app (refreshed loads app dark r)"
  by (simp add: row_shows_def refreshed_def)

lemma refreshed_ok:
  "app_row_ok k r c \<Longrightarrow> app_row_ok k (refreshed loads app dark r) (app_sort_key app c)"
  "ar_blocked r = ap_blocked app \<Longrightarrow> app_displays app (refreshed loads app dark r) (app_sort_key app c)"
  by (simp_all add: app_row_ok_def app_displays_def row_shows_refreshed) (simp add: app_sort_key_def)

lemma visit_app_present:
  assumes "map_of (pa_rows page) k = Some r"
  shows "visit_app tk dark (k, app) (page, sent) =
    (let r' = refreshed (tk_loads tk) app dark (r\<lparr>ar_blocked := ap_blocked app\<rparr>);
         page' = (if ar_blocked r = ap_blocked app then page
           else on_section (ap_blocked app) (section_insert (tk_sort tk) (pa_cells page) (ar_row r))
             (on_section (ar_blocked r) (section_remove (ar_row r)) page))
     in (page'\<lparr>pa_rows := AList.update k r' (pa_rows page),
          pa_cells := (pa_cells page)(ar_row r := app_sort_key app (pa_cells page (ar_row r)))\<rparr>, sent))"
proof -
  have same: "r\<lparr>ar_blocked := ap_blocked app\<rparr> = r" if "ar_blocked r = ap_blocked app"
    unfolding that [symmetric] by simp
  show ?thesis
    by (cases "ar_blocked r = ap_blocked app") (simp_all add: assms visit_app_def move_row_def refresh_row_eq Let_def same)
qed

lemma create_row_parts:
  assumes "create_row tk app page = (r, cells)" "gui_app_key (ap_exe app) (ap_name app) = k"
  shows "ar_row r = tk_alloc tk (map (ar_row \<circ> snd) (pa_rows page))" "ar_blocked r = ap_blocked app"
    "app_row_ok k r (cells (ar_row r))" "cells(ar_row r := c) = (pa_cells page)(ar_row r := c)"
    "ar_title r = ap_name app" "ar_name r = ap_name app" "ar_exe r = ap_exe app" "sk_name (cells (ar_row r)) = ap_name app"
proof -
  have "cells = (pa_cells page)(ar_row r := cells (ar_row r))" using assms(1) by (auto simp: create_row_def Let_def)
  then show "cells(ar_row r := c) = (pa_cells page)(ar_row r := c)" by (metis fun_upd_upd)
qed (use assms in \<open>auto simp: create_row_def Let_def app_row_ok_def\<close>)

text \<open>The applications page is a list page, together with the commands it sent.\<close>

interpretation apps: list_page "\<lambda>acc. pa_rows (fst acc)" "\<lambda>acc. pa_cells (fst acc)" "\<lambda>acc. apps_section (fst acc)"
  ar_row ar_blocked app_row_ok app_displays "\<lambda>r c. (ar_title r, ar_name r, ar_exe r, sk_name c)"
  "\<lambda>app. (ap_name app, ap_name app, ap_exe app, ap_name app)" "\<lambda>k app. gui_app_key (ap_exe app) (ap_name app) = k" snd tk
  "\<lambda>k. apfst (drop_row k)" "visit_app tk dark" "apfst (finish_apps tk)" for tk dark
proof unfold_locales
  fix acc :: "AppsPage \<times> GuiCmd list" and k r d g
  obtain page sent where acc: "acc = (page, sent)" by fastforce
  show "map_of (pa_rows (fst acc)) k = None \<Longrightarrow> apfst (drop_row k) acc = acc" by (simp add: acc drop_row_def)
  show "map_of (pa_rows (fst acc)) k = Some r \<Longrightarrow>
      pa_rows (fst (apfst (drop_row k) acc)) = AList.delete k (pa_rows (fst acc)) \<and>
      pa_cells (fst (apfst (drop_row k) acc)) = pa_cells (fst acc) \<and> snd (apfst (drop_row k) acc) = snd acc \<and>
      apps_section (fst (apfst (drop_row k) acc)) g =
        (if g = ar_blocked r then section_remove (ar_row r) (apps_section (fst acc) g) else apps_section (fst acc) g)"
    by (auto simp: acc drop_row_def)
  show "pa_rows (fst (apfst (finish_apps tk) acc)) = pa_rows (fst acc) \<and>
      pa_cells (fst (apfst (finish_apps tk) acc)) = pa_cells (fst acc) \<and> snd (apfst (finish_apps tk) acc) = snd acc \<and>
      apps_section (fst (apfst (finish_apps tk) acc)) g = finish_section tk (pa_cells (fst acc)) (apps_section (fst acc) g)"
    by (simp add: acc finish_apps_def finish_section_def apps_section_def Let_def)
next
  fix acc :: "AppsPage \<times> GuiCmd list" and k r and d :: AppEntry
  assume r: "map_of (pa_rows (fst acc)) k = Some r" "app_row_ok k r (pa_cells (fst acc) (ar_row r))"
  obtain page sent where acc: "acc = (page, sent)" by fastforce
  let ?r = "r\<lparr>ar_blocked := ap_blocked d\<rparr>"
  have "app_row_ok k ?r (pa_cells page (ar_row r))" using r(2) by (simp add: acc app_row_ok_def)
  with r(1) show "\<exists>r' c cs. ar_row r' = ar_row r \<and> app_row_ok k r' c \<and> app_displays d r' c \<and>
      (ar_title r', ar_name r', ar_exe r', sk_name c) = (ar_title r, ar_name r, ar_exe r, sk_name (pa_cells (fst acc) (ar_row r))) \<and>
      pa_rows (fst (visit_app tk dark (k, d) acc)) = AList.update k r' (pa_rows (fst acc)) \<and>
      pa_cells (fst (visit_app tk dark (k, d) acc)) = (pa_cells (fst acc))(ar_row r' := c) \<and>
      snd (visit_app tk dark (k, d) acc) = snd acc \<and>
      (\<forall>g. apps_section (fst (visit_app tk dark (k, d) acc)) g =
        (if ar_blocked r' = ar_blocked r then apps_section (fst acc) g
         else if g = ar_blocked r' then section_insert (tk_sort tk) cs (ar_row r) (apps_section (fst acc) g)
         else if g = ar_blocked r then section_remove (ar_row r) (apps_section (fst acc) g) else apps_section (fst acc) g))"
    using refreshed_ok(1) [of k ?r "pa_cells page (ar_row r)" "tk_loads tk" d dark]
      refreshed_ok(2) [where r = ?r and app = d and loads = "tk_loads tk" and dark = dark]
    by (intro exI [of _ "refreshed (tk_loads tk) d dark ?r"] exI [of _ "app_sort_key d (pa_cells page (ar_row r))"]
        exI [of _ "pa_cells page"]) (auto simp: acc visit_app_present Let_def)
next
  fix acc :: "AppsPage \<times> GuiCmd list" and k and d :: AppEntry
  assume k: "map_of (pa_rows (fst acc)) k = None" "gui_app_key (ap_exe d) (ap_name d) = k"
  obtain page sent where acc: "acc = (page, sent)" by fastforce
  obtain r cells where c: "create_row tk d page = (r, cells)" by fastforce
  note r = create_row_parts [OF c k(2)]
  let ?c = "app_sort_key d (cells (ar_row r))"
  show "\<exists>r' c cs. ar_row r' = tk_alloc tk (map (ar_row \<circ> snd) (pa_rows (fst acc))) \<and> app_row_ok k r' c \<and> app_displays d r' c \<and>
      (ar_title r', ar_name r', ar_exe r', sk_name c) = (ap_name d, ap_name d, ap_exe d, ap_name d) \<and>
      pa_rows (fst (visit_app tk dark (k, d) acc)) = AList.update k r' (pa_rows (fst acc)) \<and>
      pa_cells (fst (visit_app tk dark (k, d) acc)) = (pa_cells (fst acc))(ar_row r' := c) \<and>
      snd (visit_app tk dark (k, d) acc) = snd acc \<and>
      (\<forall>g. apps_section (fst (visit_app tk dark (k, d) acc)) g =
        (if g = ar_blocked r' then section_insert (tk_sort tk) cs (ar_row r') (apps_section (fst acc) g)
         else apps_section (fst acc) g))"
    using k(1) c r(1,2) refreshed_ok(1) [OF r(3), of "tk_loads tk" d dark] refreshed_ok(2) [OF r(2), where loads = "tk_loads tk" and dark = dark]
    by (intro exI [of _ "refreshed (tk_loads tk) d dark r"] exI [of _ ?c] exI [of _ "(pa_cells page)(ar_row r := ?c)"])
      (simp add: acc visit_app_def refresh_row_eq r(4) [unfolded r(1)] r(5-7) r(8) [unfolded r(1)] Let_def)
qed

lemma apps_list_page:
  "apps_page_ok page = list_page_ok (\<lambda>acc. pa_rows (fst acc)) (\<lambda>acc. pa_cells (fst acc)) (\<lambda>acc. apps_section (fst acc))
     ar_row ar_blocked app_row_ok (page, sent)"
  "page_shows page k app = list_page_shows (\<lambda>acc. pa_rows (fst acc)) (\<lambda>acc. pa_cells (fst acc)) ar_row app_displays (page, sent) k app"
  by (simp_all add: apps_page_ok_def list_page_ok_def page_shows_def list_page_shows_def)

lemma fold_apfst: "fold (\<lambda>k. apfst (f k)) ks (x, y) = (fold f ks x, y)"
  by (induction ks arbitrary: x) simp_all

lemma page_shows_widget:
  assumes "apps_page_ok page" "page_shows page k app"
  shows "\<exists>r. map_of (pa_rows page) k = Some r \<and> row_shows app r \<and>
    cell_key (pa_cells page) (ar_row r) = RowKey (ap_bytes_recv app) (ap_bytes_sent app) (ar_name r) \<and>
    ar_row r \<in> set (sl_list (apps_section page (ap_blocked app)))"
proof -
  obtain r where r: "map_of (pa_rows page) k = Some r" "app_displays app r (pa_cells page (ar_row r))"
    using assms(2) by (auto simp: page_shows_def)
  have "ar_row r \<in> set (sl_list (apps_section page (ar_blocked r)))"
    using apps.row_in_section [of "(page, [])"] assms(1) r(1)
    by (simp add: apps_list_page [where sent = "[] :: GuiCmd list"])
  moreover have "app_row_ok k r (pa_cells page (ar_row r))" using assms(1) r(1) by (simp add: apps_page_ok_def)
  ultimately show ?thesis using r by (auto simp: app_displays_def row_shows_def cell_key_def app_row_ok_def)
qed

lemma apps_update_ok:
  assumes "toolkit_ok tk" "apps_page_ok page" "apps_ok st" "apps_update tk st dark page = (page', sent)"
  shows "sent = [] \<and> apps_page_ok page' \<and> dom (map_of (pa_rows page')) = dom (map_of (cs_apps st)) \<and>
    (\<forall>k app. map_of (cs_apps st) k = Some app \<longrightarrow> page_shows page' k app) \<and>
    (\<forall>b. shown_sorted (pa_cells page') (apps_section page' b)) \<and>
    (\<forall>b. sl_visible (apps_section page' b) \<longleftrightarrow> (\<exists>k app. map_of (cs_apps st) k = Some app \<and> ap_blocked app = b)) \<and>
    (pa_empty_label page' \<longleftrightarrow> cs_apps st = [])"
proof -
  have p': "(page', sent) = apfst (finish_apps tk) (fold (visit_app tk dark) (cs_apps st) (fold (\<lambda>k. apfst (drop_row k))
      (filter (\<lambda>k. map_of (cs_apps st) k = None) (map fst (pa_rows (fst (page, [] :: GuiCmd list))))) (page, [])))"
    using assms(4) unfolding fst_conv fold_apfst by (simp add: apps_update_def Let_def split_def apfst_def map_prod_def)
  have "distinct (map fst (cs_apps st))" "\<forall>(k, app) \<in> set (cs_apps st). gui_app_key (ap_exe app) (ap_name app) = k"
    using assms(3) by (auto simp: apps_ok_def bt_wf_def)
  note u = apps.update_ok [OF assms(1) assms(2) [unfolded apps_list_page [where sent = "[] :: GuiCmd list"]] this p',
      folded apps_list_page, unfolded fst_conv snd_conv]
  have dom: "dom (map_of (pa_rows page')) = dom (map_of (cs_apps st))"
    and up: "\<And>k app. map_of (cs_apps st) k = Some app \<Longrightarrow> page_shows page' k app"
    and vis: "\<And>b. sl_visible (apps_section page' b) \<longleftrightarrow> (\<exists>k r. map_of (pa_rows page') k = Some r \<and> ar_blocked r = b)"
    using u by blast+
  have same: "ar_blocked r = ap_blocked app" if "map_of (pa_rows page') k = Some r" "map_of (cs_apps st) k = Some app" for k r app
    using up [OF that(2)] that(1) by (auto simp: page_shows_def app_displays_def row_shows_def)
  have key: "(\<exists>r. map_of (pa_rows page') k = Some r) \<longleftrightarrow> (\<exists>app. map_of (cs_apps st) k = Some app)" for k
    using dom by blast
  have "(\<exists>k r. map_of (pa_rows page') k = Some r \<and> ar_blocked r = b) \<longleftrightarrow>
      (\<exists>k app. map_of (cs_apps st) k = Some app \<and> ap_blocked app = b)" for b
    using same key by blast
  then have vis': "sl_visible (apps_section page' b) \<longleftrightarrow> (\<exists>k app. map_of (cs_apps st) k = Some app \<and> ap_blocked app = b)" for b
    by (simp add: vis)
  have "pa_empty_label page' \<longleftrightarrow> \<not> sl_visible (apps_section page' False) \<and> \<not> sl_visible (apps_section page' True)"
    using p' by (auto simp: apfst_def map_prod_def split_def finish_apps_def apps_section_def Let_def)
  also have "\<dots> \<longleftrightarrow> (\<forall>k. map_of (cs_apps st) k = None)"
    unfolding vis' by (metis (full_types) option.exhaust option.distinct(1))
  also have "\<dots> \<longleftrightarrow> cs_apps st = []" by (metis map_of_eq_empty_iff ext)
  finally have empty: "pa_empty_label page' \<longleftrightarrow> cs_apps st = []" .
  show ?thesis unfolding vis' empty using u by blast
qed

subsection \<open>The switch\<close>

lemma flip_switch_sends:
  assumes "apps_page_ok page" "page_shows page k app" "ap_exe app = Some exe" "is_absolute exe"
    and "gui_app_key (ap_exe app) (ap_name app) = k" "ap_blocked app = (ap_block_rule_id app \<noteq> None)"
    and "map_of (pa_rows page) k = Some r"
  shows "snd (flip_switch k page) =
    (case ap_block_rule_id app of Some i \<Rightarrow> [UnblockCmd i] | None \<Rightarrow> [BlockCmd (ar_name r) exe])"
proof -
  have r: "row_shows app r" using assms(2,7) by (auto simp: page_shows_def app_displays_def)
  have ok: "\<not> ar_updating r" "gui_app_key (ar_exe r) (ar_name r) = k"
    using assms(1,7) by (auto simp: apps_page_ok_def app_row_ok_def)
  have k: "k = exe" using assms(3,5) by (simp add: gui_app_key_def display_def)
  have "ar_exe r = Some exe"
  proof (cases "ar_exe r")
    case None
    with ok(2) k have "exe = ''name:'' @ ar_name r" by (simp add: gui_app_key_def)
    with assms(4) show ?thesis by (simp add: is_absolute_def SLASH_def)
  next
    case (Some p)
    with ok(2) k show ?thesis by (simp add: gui_app_key_def display_def)
  qed
  with r ok(1) assms(3,6,7) show ?thesis
    by (auto simp: flip_switch_def set_active_def switch_handler_def row_shows_def is_allowed_def split: option.split)
qed

section \<open>The connections page\<close>

record ConnRow =
  cr_row :: widget
  cr_title :: string
  cr_subtitle :: string
  cr_icon :: Image
  cr_stats :: string
  cr_proto :: Protocol

record ConnsPage =
  pc_tcp :: SectionList
  pc_udp :: SectionList
  pc_other :: SectionList
  pc_empty_label :: bool
  pc_rows :: "(string, ConnRow) hashmap"
  pc_cells :: cells

definition conns_page_new :: ConnsPage where
  "conns_page_new = \<lparr>pc_tcp = section_new, pc_udp = section_new\<lparr>sl_visible := False\<rparr>,
     pc_other = section_new\<lparr>sl_visible := False\<rparr>, pc_empty_label = True, pc_rows = [],
     pc_cells = (\<lambda>_. \<lparr>sk_primary = 0, sk_secondary = 0, sk_name = []\<rparr>)\<rparr>"

fun conns_section :: "ConnsPage \<Rightarrow> Protocol \<Rightarrow> SectionList" where
  "conns_section page Tcp = pc_tcp page"
| "conns_section page Udp = pc_udp page"
| "conns_section page OtherProto = pc_other page"

fun on_proto :: "Protocol \<Rightarrow> (SectionList \<Rightarrow> SectionList) \<Rightarrow> ConnsPage \<Rightarrow> ConnsPage" where
  "on_proto Tcp f page = page\<lparr>pc_tcp := f (pc_tcp page)\<rparr>"
| "on_proto Udp f page = page\<lparr>pc_udp := f (pc_udp page)\<rparr>"
| "on_proto OtherProto f page = page\<lparr>pc_other := f (pc_other page)\<rparr>"

definition drop_conn :: "string \<Rightarrow> ConnsPage \<Rightarrow> ConnsPage" where
  "drop_conn key page =
     (case map_of (pc_rows page) key of
        None \<Rightarrow> page
      | Some r \<Rightarrow> on_proto (cr_proto r) (section_remove (cr_row r)) (page\<lparr>pc_rows := AList.delete key (pc_rows page)\<rparr>))"

definition stats_text :: "ConnectionInfo \<Rightarrow> string" where
  "stats_text conn = up_arrow @ '' '' @ human_bytes (c_bytes_sent conn) @ '' '' @
     down_arrow @ '' '' @ human_bytes (c_bytes_recv conn)"

text \<open>The \<open>Debug\<close> name of a protocol in lower case.\<close>

fun proto_label :: "Protocol \<Rightarrow> string" where
  "proto_label Tcp = ''tcp''"
| "proto_label Udp = ''udp''"
| "proto_label OtherProto = ''other''"

definition new_conn_row :: "toolkit \<Rightarrow> ConnectionInfo \<Rightarrow> bool \<Rightarrow> ConnsPage \<Rightarrow> ConnRow \<times> SortKey" where
  "new_conn_row tk conn dark page =
     (let process = conn_name conn in
      (\<lparr>cr_row = tk_alloc tk (map (cr_row \<circ> snd) (pc_rows page)),
        cr_title = process @ '' '' @ middle_dot @ '' '' @ proto_label (c_protocol conn),
        cr_subtitle = show_ip (c_remote_addr conn) @ '':'' @ show_uint (c_remote_port conn),
        cr_icon = ui_image (tk_loads tk) ''connections'' dark, cr_stats = stats_text conn, cr_proto = c_protocol conn\<rparr>,
       \<lparr>sk_primary = c_bytes_sent conn + c_bytes_recv conn, sk_secondary = 0,
        sk_name = process @ show_ip (c_remote_addr conn)\<rparr>))"

definition visit_conn :: "toolkit \<Rightarrow> bool \<Rightarrow> string \<times> ConnectionInfo \<Rightarrow> ConnsPage \<Rightarrow> ConnsPage" where
  "visit_conn tk dark entry page =
     (let (key, conn) = entry; total = c_bytes_sent conn + c_bytes_recv conn in
      case map_of (pc_rows page) key of
        Some r \<Rightarrow> page\<lparr>
          pc_cells := (pc_cells page)(cr_row r := (pc_cells page (cr_row r))\<lparr>sk_primary := total\<rparr>),
          pc_rows := AList.update key (r\<lparr>cr_stats := stats_text conn,
            cr_icon := set_ui_icon (tk_loads tk) (cr_icon r) ''connections'' dark\<rparr>) (pc_rows page)\<rparr>
      | None \<Rightarrow>
          (let (r, key_cells) = new_conn_row tk conn dark page;
               page = page\<lparr>pc_cells := (pc_cells page)(cr_row r := key_cells)\<rparr>;
               page = on_proto (c_protocol conn) (section_insert (tk_sort tk) (pc_cells page) (cr_row r)) page
           in page\<lparr>pc_rows := AList.update key r (pc_rows page)\<rparr>))"

definition finish_conns :: "toolkit \<Rightarrow> ConnsPage \<Rightarrow> ConnsPage" where
  "finish_conns tk page =
     (let f = finish_section tk (pc_cells page);
          page = page\<lparr>pc_tcp := f (pc_tcp page), pc_udp := f (pc_udp page), pc_other := f (pc_other page)\<rparr>
      in page\<lparr>pc_empty_label := section_is_empty (pc_tcp page) \<and> section_is_empty (pc_udp page) \<and>
           section_is_empty (pc_other page)\<rparr>)"

definition conns_update :: "toolkit \<Rightarrow> ClientState \<Rightarrow> bool \<Rightarrow> ConnsPage \<Rightarrow> ConnsPage" where
  "conns_update tk st dark page =
     (let stale = filter (\<lambda>k. map_of (cs_conns st) k = None) (map fst (pc_rows page));
          page = fold drop_conn stale page;
          page = fold (visit_conn tk dark) (cs_conns st) page
      in finish_conns tk page)"

subsection \<open>Lemmas\<close>

lemma on_proto_simps [simp]:
  "conns_section (on_proto p f page) q = (if p = q then f (conns_section page p) else conns_section page q)"
  "pc_rows (on_proto p f page) = pc_rows page" "pc_cells (on_proto p f page) = pc_cells page"
  "conns_section (page\<lparr>pc_rows := rows\<rparr>) q = conns_section page q"
  "conns_section (page\<lparr>pc_cells := cells\<rparr>) q = conns_section page q"
  by (cases p; cases q; simp)+

definition conns_page_ok :: "ConnsPage \<Rightarrow> bool" where
  "conns_page_ok page \<longleftrightarrow> distinct_widgets cr_row (pc_rows page) \<and>
     (\<forall>p. sec_holds (conns_section page p) (widgets_of cr_row (\<lambda>r. cr_proto r = p) (pc_rows page))) \<and>
     (\<forall>k r. map_of (pc_rows page) k = Some r \<longrightarrow> sk_secondary (pc_cells page (cr_row r)) = 0)"

lemma conns_page_new_ok: "conns_page_ok conns_page_new"
proof -
  have "sec_holds (conns_section conns_page_new p) {#}" for p
    by (cases p) (simp_all add: conns_page_new_def)
  then show ?thesis by (simp add: conns_page_ok_def) (simp add: conns_page_new_def)
qed

text \<open>The row of a flow is up to date.\<close>

definition conn_displays :: "ConnectionInfo \<Rightarrow> ConnRow \<Rightarrow> SortKey \<Rightarrow> bool" where
  "conn_displays conn r c \<longleftrightarrow> cr_stats r = stats_text conn \<and> sk_primary c = c_bytes_sent conn + c_bytes_recv conn"

definition conn_shows :: "ConnsPage \<Rightarrow> string \<Rightarrow> ConnectionInfo \<Rightarrow> bool" where
  "conn_shows page k conn \<longleftrightarrow>
     (\<exists>r. map_of (pc_rows page) k = Some r \<and> conn_displays conn r (pc_cells page (cr_row r)))"

text \<open>What a row is made with and keeps: its title, its subtitle, its section and the name it is sorted by.\<close>

definition conn_static :: "ConnectionInfo \<Rightarrow> string \<times> string \<times> Protocol \<times> string" where
  "conn_static conn =
     (conn_name conn @ '' '' @ middle_dot @ '' '' @ proto_label (c_protocol conn),
      show_ip (c_remote_addr conn) @ '':'' @ show_uint (c_remote_port conn),
      c_protocol conn, conn_name conn @ show_ip (c_remote_addr conn))"

text \<open>The connections page is a list page that sends nothing.\<close>

lemma new_conn_row_parts:
  assumes "new_conn_row tk conn dark page = (r, c)"
  shows "cr_row r = tk_alloc tk (map (cr_row \<circ> snd) (pc_rows page))" "conn_displays conn r c" "cr_proto r = c_protocol conn"
    "(cr_title r, cr_subtitle r, cr_proto r, sk_name c) = conn_static conn" "sk_secondary c = 0"
  using assms by (auto simp: new_conn_row_def conn_displays_def conn_static_def Let_def)

interpretation conns: list_page pc_rows pc_cells conns_section cr_row cr_proto "\<lambda>_ _ c. sk_secondary c = 0" conn_displays
  "\<lambda>r c. (cr_title r, cr_subtitle r, cr_proto r, sk_name c)" conn_static "\<lambda>_ _. True"
  "\<lambda>_. ()" tk drop_conn "visit_conn tk dark" "finish_conns tk" for tk dark
proof unfold_locales
  fix page :: ConnsPage and k r g
  show "map_of (pc_rows page) k = None \<Longrightarrow> drop_conn k page = page" by (simp add: drop_conn_def)
  show "map_of (pc_rows page) k = Some r \<Longrightarrow> pc_rows (drop_conn k page) = AList.delete k (pc_rows page) \<and>
      pc_cells (drop_conn k page) = pc_cells page \<and> () = () \<and>
      conns_section (drop_conn k page) g =
        (if g = cr_proto r then section_remove (cr_row r) (conns_section page g) else conns_section page g)"
    by (auto simp: drop_conn_def)
  show "pc_rows (finish_conns tk page) = pc_rows page \<and> pc_cells (finish_conns tk page) = pc_cells page \<and> () = () \<and>
      conns_section (finish_conns tk page) g = finish_section tk (pc_cells page) (conns_section page g)"
    by (cases g) (simp_all add: finish_conns_def Let_def)
next
  fix page :: ConnsPage and k r and conn :: ConnectionInfo
  assume "map_of (pc_rows page) k = Some r" "sk_secondary (pc_cells page (cr_row r)) = 0"
  then show "\<exists>r' c cs. cr_row r' = cr_row r \<and> sk_secondary c = 0 \<and> conn_displays conn r' c \<and>
      (cr_title r', cr_subtitle r', cr_proto r', sk_name c) = (cr_title r, cr_subtitle r, cr_proto r, sk_name (pc_cells page (cr_row r))) \<and>
      pc_rows (visit_conn tk dark (k, conn) page) = AList.update k r' (pc_rows page) \<and>
      pc_cells (visit_conn tk dark (k, conn) page) = (pc_cells page)(cr_row r' := c) \<and> () = () \<and>
      (\<forall>g. conns_section (visit_conn tk dark (k, conn) page) g =
        (if cr_proto r' = cr_proto r then conns_section page g
         else if g = cr_proto r' then section_insert (tk_sort tk) cs (cr_row r) (conns_section page g)
         else if g = cr_proto r then section_remove (cr_row r) (conns_section page g) else conns_section page g))"
    by (intro exI [of _ "r\<lparr>cr_stats := stats_text conn, cr_icon := set_ui_icon (tk_loads tk) (cr_icon r) ''connections'' dark\<rparr>"]
        exI [of _ "(pc_cells page (cr_row r))\<lparr>sk_primary := c_bytes_sent conn + c_bytes_recv conn\<rparr>"])
      (simp add: visit_conn_def conn_displays_def Let_def)
next
  fix page :: ConnsPage and k and conn :: ConnectionInfo
  assume k: "map_of (pc_rows page) k = None"
  obtain r c where n: "new_conn_row tk conn dark page = (r, c)" by fastforce
  show "\<exists>r' c cs. cr_row r' = tk_alloc tk (map (cr_row \<circ> snd) (pc_rows page)) \<and> sk_secondary c = 0 \<and> conn_displays conn r' c \<and>
      (cr_title r', cr_subtitle r', cr_proto r', sk_name c) = conn_static conn \<and>
      pc_rows (visit_conn tk dark (k, conn) page) = AList.update k r' (pc_rows page) \<and>
      pc_cells (visit_conn tk dark (k, conn) page) = (pc_cells page)(cr_row r' := c) \<and> () = () \<and>
      (\<forall>g. conns_section (visit_conn tk dark (k, conn) page) g =
        (if g = cr_proto r' then section_insert (tk_sort tk) cs (cr_row r') (conns_section page g) else conns_section page g))"
    using new_conn_row_parts [OF n]
    by (intro exI [of _ r] exI [of _ c] exI [of _ "(pc_cells page)(cr_row r := c)"]) (simp add: visit_conn_def k n Let_def)
qed

lemma conns_list_page:
  "conns_page_ok page = list_page_ok pc_rows pc_cells conns_section cr_row cr_proto (\<lambda>_ _ c. sk_secondary c = 0) page"
  "conn_shows page k conn = list_page_shows pc_rows pc_cells cr_row conn_displays page k conn"
  by (simp_all add: conns_page_ok_def list_page_ok_def conn_shows_def list_page_shows_def)

lemma conns_update_full:
  assumes "toolkit_ok tk" "conns_page_ok page" "conns_ok st" and page': "page' = conns_update tk st dark page"
  shows "conns_page_ok page'" "dom (map_of (pc_rows page')) = dom (map_of (cs_conns st))"
    "map_of (cs_conns st) k = Some conn \<Longrightarrow> conn_shows page' k conn"
    "map_of (pc_rows page') k = Some r \<Longrightarrow> cr_row r \<in> set (sl_list (conns_section page' (cr_proto r))) \<and>
       sl_visible (conns_section page' (cr_proto r))"
    "shown_sorted (pc_cells page') (conns_section page' p)"
    "sl_visible (conns_section page' p) \<Longrightarrow> sl_list (conns_section page' p) \<noteq> []"
    "map_of (cs_conns st) k = Some conn \<Longrightarrow> map_of (pc_rows page') k = Some r \<Longrightarrow>
       (cr_title r, cr_subtitle r, cr_proto r, sk_name (pc_cells page' (cr_row r))) =
       (case map_of (pc_rows page) k of None \<Rightarrow> conn_static conn
        | Some q \<Rightarrow> (cr_title q, cr_subtitle q, cr_proto q, sk_name (pc_cells page (cr_row q))))"
proof -
  have "page' = finish_conns tk (fold (visit_conn tk dark) (cs_conns st)
      (fold drop_conn (filter (\<lambda>k. map_of (cs_conns st) k = None) (map fst (pc_rows page))) page))"
    by (simp add: page' conns_update_def Let_def)
  moreover have "distinct (map fst (cs_conns st))" using assms(3) by (simp add: conns_ok_def)
  ultimately have u: "conns_page_ok page' \<and> dom (map_of (pc_rows page')) = dom (map_of (cs_conns st)) \<and>
      (\<forall>k conn. map_of (cs_conns st) k = Some conn \<longrightarrow> conn_shows page' k conn \<and>
        list_page_kept pc_rows pc_cells cr_row (\<lambda>r c. (cr_title r, cr_subtitle r, cr_proto r, sk_name c)) page' k =
          Some (conns.kept_or conn (list_page_kept pc_rows pc_cells cr_row
            (\<lambda>r c. (cr_title r, cr_subtitle r, cr_proto r, sk_name c)) page k))) \<and>
      (\<forall>p. shown_sorted (pc_cells page') (conns_section page' p)) \<and>
      (\<forall>p. sl_visible (conns_section page' p) \<longleftrightarrow> (\<exists>k r. map_of (pc_rows page') k = Some r \<and> cr_proto r = p))"
    using conns.update_ok [OF assms(1) assms(2) [unfolded conns_list_page], of "cs_conns st" page' dark]
    unfolding conns_list_page by simp
  have row: "cr_row r \<in> set (sl_list (conns_section page' (cr_proto r)))" if "map_of (pc_rows page') k = Some r" for k r
    using conns.row_in_section [OF _ that] u by (simp add: conns_list_page)
  show "conns_page_ok page'" "dom (map_of (pc_rows page')) = dom (map_of (cs_conns st))"
    "map_of (cs_conns st) k = Some conn \<Longrightarrow> conn_shows page' k conn"
    "shown_sorted (pc_cells page') (conns_section page' p)"
    using u by blast+
  show "(cr_title r, cr_subtitle r, cr_proto r, sk_name (pc_cells page' (cr_row r))) =
      (case map_of (pc_rows page) k of None \<Rightarrow> conn_static conn
       | Some q \<Rightarrow> (cr_title q, cr_subtitle q, cr_proto q, sk_name (pc_cells page (cr_row q))))"
    if "map_of (cs_conns st) k = Some conn" "map_of (pc_rows page') k = Some r"
  proof -
    have "list_page_kept pc_rows pc_cells cr_row (\<lambda>r c. (cr_title r, cr_subtitle r, cr_proto r, sk_name c)) page' k =
        Some (conns.kept_or conn (list_page_kept pc_rows pc_cells cr_row
          (\<lambda>r c. (cr_title r, cr_subtitle r, cr_proto r, sk_name c)) page k))" using u that(1) by blast
    with that(2) show ?thesis
      by (cases "map_of (pc_rows page) k") (simp_all add: list_page_kept_def conns.kept_or_def)
  qed
  show "cr_row r \<in> set (sl_list (conns_section page' (cr_proto r))) \<and> sl_visible (conns_section page' (cr_proto r))"
    if "map_of (pc_rows page') k = Some r" using row [OF that] u that by blast
  show "sl_list (conns_section page' p) \<noteq> []" if "sl_visible (conns_section page' p)"
    using u that row by fastforce
qed

section \<open>Properties\<close>

text \<open>A toolkit that sorts by insertion and numbers its widgets.\<close>

fun insort_by :: "(widget \<Rightarrow> widget \<Rightarrow> Ordering) \<Rightarrow> widget \<Rightarrow> widget list \<Rightarrow> widget list" where
  "insort_by c x [] = [x]"
| "insort_by c x (y # ys) = (if c x y = Greater then y # insort_by c x ys else x # y # ys)"

definition demo_toolkit :: toolkit where
  "demo_toolkit = \<lparr>tk_sort = (\<lambda>c ws. foldr (insort_by c) ws []), tk_alloc = (\<lambda>ws. Suc (foldr max ws 0)), tk_loads = (\<lambda>_. True)\<rparr>"

lemma mset_insort_by [simp]: "mset (insort_by c x ys) = add_mset x (mset ys)"
  by (induction ys) auto

lemma total_preorder_subset: "total_preorder c ws \<Longrightarrow> set vs \<subseteq> set ws \<Longrightarrow> total_preorder c vs"
  unfolding total_preorder_def by blast

lemma total_preorder_swap:
  "total_preorder c ws \<Longrightarrow> a \<in> set ws \<Longrightarrow> b \<in> set ws \<Longrightarrow> c a b = Greater \<Longrightarrow> c b a \<noteq> Greater"
  unfolding total_preorder_def by (metis Ordering.distinct(3))

lemma total_preorder_trans:
  "total_preorder c ws \<Longrightarrow> {a, b, d} \<subseteq> set ws \<Longrightarrow> c a b \<noteq> Greater \<Longrightarrow> c b d \<noteq> Greater \<Longrightarrow> c a d \<noteq> Greater"
  unfolding total_preorder_def by blast

lemma insort_by_sorted:
  assumes "total_preorder c (x # ys)" "sorted_wrt (\<lambda>a b. c a b \<noteq> Greater) ys"
  shows "sorted_wrt (\<lambda>a b. c a b \<noteq> Greater) (insort_by c x ys)"
  using assms
proof (induction ys)
  case (Cons y ys)
  have t: "total_preorder c (x # ys)" by (rule total_preorder_subset [OF Cons.prems(1)]) auto
  have set: "set (insort_by c x ys) = insert x (set ys)" by (metis mset_insort_by set_mset_add_mset_insert set_mset_mset)
  have y: "\<forall>z \<in> set ys. c y z \<noteq> Greater" "sorted_wrt (\<lambda>a b. c a b \<noteq> Greater) ys" using Cons.prems(2) by auto
  show ?case
  proof (cases "c x y = Greater")
    case True
    then have "c y x \<noteq> Greater" by (rule total_preorder_swap [OF Cons.prems(1), rotated 2]) simp_all
    with True y set Cons.IH [OF t y(2)] show ?thesis by auto
  next
    case False
    then have "c x z \<noteq> Greater" if "z \<in> set ys" for z
      using total_preorder_trans [OF Cons.prems(1), of x y z] y(1) that by simp
    with False y show ?thesis by auto
  qed
qed simp

lemma demo_toolkit_ok: "toolkit_ok demo_toolkit"
proof -
  have m: "mset (foldr (insort_by c) ws []) = mset ws" for c ws by (induction ws) simp_all
  have s: "sorted_wrt (\<lambda>a b. c a b \<noteq> Greater) (foldr (insort_by c) ws [])" if "total_preorder c ws" for c ws
    using that
  proof (induction ws)
    case (Cons w ws)
    have "set (foldr (insort_by c) ws []) = set ws" by (metis m set_mset_mset)
    then have "total_preorder c (w # foldr (insort_by c) ws [])" "total_preorder c ws"
      by (auto intro!: total_preorder_subset [OF Cons.prems])
    with Cons.IH insort_by_sorted show ?case by simp
  qed simp
  have a: "x \<le> foldr max ws 0" if "x \<in> set ws" for x and ws :: "nat list"
    using that by (induction ws) auto
  have "Suc (foldr max ws 0) \<notin> set ws" for ws :: "nat list" using a [of "Suc (foldr max ws 0)" ws] by auto
  with m s show ?thesis by (simp add: toolkit_ok_def demo_toolkit_def)
qed

text \<open>C26: after an update the applications page is the state: exactly one row per application, with its
  rates and totals, its switch on exactly when it is allowed and usable exactly when its executable
  is known, in the section of its group; each section is ordered by received bytes, sent bytes and
  name and visible exactly when an application is in it; the label is shown exactly when there is
  none.  Moving the switches by the program sends no command.\<close>

theorem apps_page_shows:
  assumes "toolkit_ok tk" "apps_page_ok page" "apps_ok st" "apps_update tk st dark page = (page', sent)"
  shows "sent = [] \<and> apps_page_ok page' \<and> dom (map_of (pa_rows page')) = dom (map_of (cs_apps st)) \<and>
    (\<forall>k app. map_of (cs_apps st) k = Some app \<longrightarrow>
      (\<exists>r. map_of (pa_rows page') k = Some r \<and> row_shows app r \<and>
        cell_key (pa_cells page') (ar_row r) = RowKey (ap_bytes_recv app) (ap_bytes_sent app) (ar_name r) \<and>
        ar_row r \<in> set (sl_list (apps_section page' (ap_blocked app))))) \<and>
    (\<forall>b. shown_sorted (pa_cells page') (apps_section page' b)) \<and>
    (\<forall>b. sl_visible (apps_section page' b) \<longleftrightarrow> (\<exists>k app. map_of (cs_apps st) k = Some app \<and> ap_blocked app = b)) \<and>
    (pa_empty_label page' \<longleftrightarrow> cs_apps st = [])"
  using apps_update_ok [OF assms] page_shows_widget [of page'] by blast

definition page_demo :: ClientState where
  "page_demo = apply_event (RuleAdded \<lparr>r_id = 7, r_name = ''a'', r_exe_path = ''/bin/a'', r_action = Block, r_persistent = True,
     r_expires_at = None, r_profile = ''default'', r_updated_at = 0\<rparr>) client_default"

lemma page_demo_ok: "apps_ok page_demo" "conns_ok page_demo"
  unfolding page_demo_def
  by (rule apply_event_apps apply_event_conns; simp add: apps_ok_def conns_ok_def client_default_def bt_wf_def)+

lemma page_demo_app: "\<exists>app. map_of (cs_apps page_demo) ''/bin/a'' = Some app \<and> ap_blocked app \<and> ap_block_rule_id app = Some 7 \<and>
    ap_exe app = Some ''/bin/a''"
proof -
  have "map_option (\<lambda>a. (ap_blocked a, ap_block_rule_id a, ap_exe a)) (map_of (cs_apps page_demo) ''/bin/a'') =
      Some (True, Some 7, Some ''/bin/a'')" by code_simp
  then show ?thesis by auto
qed

lemma apps_page_shows_witness:
  "\<exists>r page'. apps_update demo_toolkit page_demo True apps_page_new = (page', []) \<and>
     map_of (pa_rows page') ''/bin/a'' = Some r \<and> \<not> ar_active r \<and> ar_sensitive r \<and> sl_visible (pa_blocked page')"
proof -
  obtain page' sent where u: "apps_update demo_toolkit page_demo True apps_page_new = (page', sent)" by fastforce
  note p = apps_page_shows [OF demo_toolkit_ok apps_page_new_ok page_demo_ok(1) u]
  obtain app where a: "map_of (cs_apps page_demo) ''/bin/a'' = Some app" "ap_blocked app" "ap_exe app = Some ''/bin/a''"
    using page_demo_app by blast
  have "sl_visible (apps_section page' True)" using p a(1,2) by blast
  moreover obtain r where "map_of (pa_rows page') ''/bin/a'' = Some r" "row_shows app r" using p a(1) by blast
  ultimately show ?thesis
    using u p a by (intro exI [of _ r] exI [of _ page']) (auto simp: row_shows_def is_allowed_def apps_section_def)
qed

text \<open>C27: after an update the connections page has exactly one row per tracked flow, with its traffic.
  A row made by the update has the flow's program and protocol as its title, its remote end as its subtitle,
  the section of the flow's protocol and the program and remote address as the name it is sorted by; a row
  that was there keeps all four.  Every row is in its section, the sections hold nothing else, each
  is ordered by total bytes and then by name, and is visible exactly when it has a row.\<close>

theorem conns_page_shows:
  fixes dark :: bool
  assumes "toolkit_ok tk" "conns_page_ok page" "conns_ok st"
  defines "page' \<equiv> conns_update tk st dark page"
  shows "conns_page_ok page' \<and>
    dom (map_of (pc_rows page')) = dom (map_of (cs_conns st)) \<and>
    (\<forall>k conn. map_of (cs_conns st) k = Some conn \<longrightarrow> (\<exists>r. map_of (pc_rows page') k = Some r \<and>
      cr_stats r = stats_text conn \<and>
      (cr_title r, cr_subtitle r, cr_proto r) = (case map_of (pc_rows page) k of
         None \<Rightarrow> (conn_name conn @ '' '' @ middle_dot @ '' '' @ proto_label (c_protocol conn),
           show_ip (c_remote_addr conn) @ '':'' @ show_uint (c_remote_port conn), c_protocol conn)
       | Some q \<Rightarrow> (cr_title q, cr_subtitle q, cr_proto q)) \<and>
      cell_key (pc_cells page') (cr_row r) = RowKey (c_bytes_sent conn + c_bytes_recv conn) 0
        (case map_of (pc_rows page) k of None \<Rightarrow> conn_name conn @ show_ip (c_remote_addr conn)
         | Some q \<Rightarrow> sk_name (pc_cells page (cr_row q))) \<and>
      cr_row r \<in> set (sl_list (conns_section page' (cr_proto r))) \<and> sl_visible (conns_section page' (cr_proto r)))) \<and>
    (\<forall>p. mset (sl_list (conns_section page' p)) = widgets_of cr_row (\<lambda>r. cr_proto r = p) (pc_rows page') \<and>
      shown_sorted (pc_cells page') (conns_section page' p) \<and>
      (sl_visible (conns_section page' p) \<longrightarrow> sl_list (conns_section page' p) \<noteq> []))"
proof -
  note u = conns_update_full [OF assms(1-3) page'_def [THEN meta_eq_to_obj_eq]]
  have row: "\<exists>r. map_of (pc_rows page') k = Some r \<and>
      cr_stats r = stats_text conn \<and>
      (cr_title r, cr_subtitle r, cr_proto r) = (case map_of (pc_rows page) k of
         None \<Rightarrow> (conn_name conn @ '' '' @ middle_dot @ '' '' @ proto_label (c_protocol conn),
           show_ip (c_remote_addr conn) @ '':'' @ show_uint (c_remote_port conn), c_protocol conn)
       | Some q \<Rightarrow> (cr_title q, cr_subtitle q, cr_proto q)) \<and>
      cell_key (pc_cells page') (cr_row r) = RowKey (c_bytes_sent conn + c_bytes_recv conn) 0
        (case map_of (pc_rows page) k of None \<Rightarrow> conn_name conn @ show_ip (c_remote_addr conn)
         | Some q \<Rightarrow> sk_name (pc_cells page (cr_row q))) \<and>
      cr_row r \<in> set (sl_list (conns_section page' (cr_proto r))) \<and> sl_visible (conns_section page' (cr_proto r))"
    if k: "map_of (cs_conns st) k = Some conn" for k conn
  proof -
    obtain r where r: "map_of (pc_rows page') k = Some r" "conn_displays conn r (pc_cells page' (cr_row r))"
      using u(3) [OF k] by (auto simp: conn_shows_def)
    have "sk_secondary (pc_cells page' (cr_row r)) = 0" using u(1) r(1) by (simp add: conns_page_ok_def)
    with r u(7) [OF k r(1)] u(4) [OF r(1)] show ?thesis
      by (intro exI [of _ r]) (auto simp: conn_displays_def cell_key_def conn_static_def split: option.splits)
  qed
  have "mset (sl_list (conns_section page' p)) = widgets_of cr_row (\<lambda>r. cr_proto r = p) (pc_rows page')" for p
    using u(1) by (simp add: conns_page_ok_def sec_holds_def)
  with row u(1,2,5,6) show ?thesis by blast
qed

lemma conns_page_shows_witness:
  "\<exists>r. map_of (pc_rows (conns_update demo_toolkit
      (apply_event (ConnectionOpened \<lparr>c_key = ''k'', c_protocol = Udp, c_local_addr = V4 (Ipv4Addr 10 0 0 1), c_local_port = 5,
        c_remote_addr = V4 (Ipv4Addr 1 1 1 1), c_remote_port = 53, c_bytes_sent = 3, c_bytes_recv = 4, c_pid = None,
        c_process_name = None, c_exe = None, c_started = 0, c_last_seen = 0\<rparr>) client_default) True conns_page_new)) ''k'' = Some r \<and>
     cr_stats r = up_arrow @ '' '' @ human_bytes 3 @ '' '' @ down_arrow @ '' '' @ human_bytes 4 \<and> cr_proto r = Udp"
proof -
  let ?c = "\<lparr>c_key = ''k'', c_protocol = Udp, c_local_addr = V4 (Ipv4Addr 10 0 0 1), c_local_port = 5,
        c_remote_addr = V4 (Ipv4Addr 1 1 1 1), c_remote_port = 53, c_bytes_sent = 3, c_bytes_recv = 4, c_pid = None,
        c_process_name = None, c_exe = None, c_started = 0, c_last_seen = 0\<rparr> :: ConnectionInfo"
  let ?st = "apply_event (ConnectionOpened ?c) client_default"
  have ok: "conns_ok ?st" by (rule apply_event_conns) (simp add: conns_ok_def client_default_def)
  have "map_of (cs_conns ?st) ''k'' = Some ?c"
    by (simp add: upsert_conn_def client_default_def Let_def enforce_conn_cap_def enforce_cap.simps MAX_CONNECTIONS_def)
  then obtain r where "map_of (pc_rows (conns_update demo_toolkit ?st True conns_page_new)) ''k'' = Some r" "cr_stats r = stats_text ?c"
    "cr_proto r = Udp"
    using conns_page_shows [OF demo_toolkit_ok conns_page_new_ok ok, of True] by (fastforce simp: conns_page_new_def)
  then show ?thesis by (auto simp: stats_text_def)
qed

end
