(* ===== verification/GuiApp.thy ===== *)
theory GuiApp
  imports GuiPages Machines
begin

text \<open>
  The root component of the GUI (\<open>crates/gui/src/app.rs\<close>), with the dashboard and the settings page
  (\<open>pages/dashboard.rs\<close>, \<open>pages/settings.rs\<close>) and the tray (\<open>tray.rs\<close>): every message is folded into
  the state and the pages are rendered again.  A handler returns the commands it sent.
\<close>

section \<open>Definitions\<close>

subsection \<open>The dashboard\<close>

record Dashboard =
  db_network :: string
  db_metered :: bool
  db_gateway :: string
  db_dns :: string
  db_down_speed :: string
  db_up_speed :: string
  db_session :: string
  db_active :: string
  db_blocked :: string
  db_icons :: "(Image \<times> string) list"

definition pref_icon :: "(path \<Rightarrow> bool) \<Rightarrow> string \<Rightarrow> Image \<times> string" where
  "pref_icon loads icon = (ui_image loads icon False, icon)"

definition dashboard_new :: "(path \<Rightarrow> bool) \<Rightarrow> Dashboard" where
  "dashboard_new loads =
     \<lparr>db_network = [], db_metered = False, db_gateway = [], db_dns = [], db_down_speed = long_dash, db_up_speed = long_dash,
      db_session = [], db_active = [], db_blocked = [],
      db_icons = map (pref_icon loads)
        [''connection'', ''gateway'', ''dns'', ''download'', ''upload'', ''session'', ''apps'', ''blocked'']\<rparr>"

definition refresh_icons :: "(path \<Rightarrow> bool) \<Rightarrow> bool \<Rightarrow> (Image \<times> string) list \<Rightarrow> (Image \<times> string) list" where
  "refresh_icons loads dark rows = map (\<lambda>(img, name). (set_ui_icon loads img name dark, name)) rows"

definition network_title :: "NetworkInfo \<Rightarrow> string option" where
  "network_title net = (case ni_ssid net of Some ssid \<Rightarrow> Some ssid | None \<Rightarrow> ni_primary_interface net)"

definition dashboard_update :: "(path \<Rightarrow> bool) \<Rightarrow> ClientState \<Rightarrow> bool \<Rightarrow> Dashboard \<Rightarrow> Dashboard" where
  "dashboard_update loads st dark d =
     (let d = d\<lparr>db_icons := refresh_icons loads dark (db_icons d)\<rparr>;
          d = (case cs_network st of
              Some net \<Rightarrow> d\<lparr>
                db_network := (case network_title net of Some name \<Rightarrow> name | None \<Rightarrow> ''Not connected''),
                db_metered := (ni_metered net = Some True),
                db_gateway := (case ni_gateway net of Some g \<Rightarrow> show_ip g | None \<Rightarrow> long_dash),
                db_dns := (if ni_dns_servers net = [] then long_dash else join '', '' (map show_ip (ni_dns_servers net)))\<rparr>
            | None \<Rightarrow> d\<lparr>db_network := long_dash, db_gateway := long_dash, db_dns := long_dash, db_metered := False\<rparr>)
      in d\<lparr>db_down_speed := human_speed (cs_speed_down st), db_up_speed := human_speed (cs_speed_up st),
           db_session := down_arrow @ '' '' @ human_bytes (cs_total_down st) @ '' '' @ middle_dot @ '' '' @
             up_arrow @ '' '' @ human_bytes (cs_total_up st),
           db_active := show_nat (active_app_count st), db_blocked := show_nat (blocked_app_count st)\<rparr>)"

subsection \<open>The settings page\<close>

record Settings =
  st_version :: string
  st_uptime :: string
  st_filtering :: string
  st_socket :: string
  st_pause_icon :: Image
  st_pause_active :: bool
  st_pause_updating :: bool
  st_icons :: "(Image \<times> string) list"

definition settings_new :: "(path \<Rightarrow> bool) \<Rightarrow> string \<Rightarrow> Settings" where
  "settings_new loads socket_path =
     \<lparr>st_version = [], st_uptime = [], st_filtering = [], st_socket = socket_path,
      st_pause_icon = ui_image loads ''pause'' False, st_pause_active = False, st_pause_updating = False,
      st_icons = map (pref_icon loads) [''settings'', ''uptime'', ''filtering'', ''socket'', ''plane'', ''license'']\<rparr>"

definition pause_handler :: "Settings \<Rightarrow> bool \<Rightarrow> GuiCmd list" where
  "pause_handler s active = (if \<not> st_pause_updating s then [PauseCmd active] else [])"

definition pause_set_active :: "bool \<Rightarrow> Settings \<Rightarrow> Settings \<times> GuiCmd list" where
  "pause_set_active active s =
     (if st_pause_active s = active then (s, []) else (s\<lparr>st_pause_active := active\<rparr>, pause_handler s active))"

definition settings_update :: "(path \<Rightarrow> bool) \<Rightarrow> ClientState \<Rightarrow> bool \<Rightarrow> Settings \<Rightarrow> Settings \<times> GuiCmd list" where
  "settings_update loads st dark s =
     (let s = s\<lparr>st_icons := refresh_icons loads dark (st_icons s),
                st_pause_icon := set_ui_icon loads (st_pause_icon s) (if cs_paused st then ''play'' else ''pause'') dark\<rparr>;
          s = (case cs_status st of
              Some status \<Rightarrow> s\<lparr>st_version := s_version status, st_uptime := human_uptime (s_uptime_secs status),
                st_filtering := (if s_filtering_active status then ''Active'' else ''Inactive'')\<rparr>
            | None \<Rightarrow> s\<lparr>st_version := long_dash, st_uptime := long_dash, st_filtering := ''Unreachable''\<rparr>);
          s = s\<lparr>st_pause_updating := True\<rparr>;
          (s, cmds) = pause_set_active (cs_paused st) s
      in (s\<lparr>st_pause_updating := False\<rparr>, cmds))"

subsection \<open>The root component\<close>

datatype AppMsg =
    Client ClientMsg
  | Tick
  | Retry
  | ThemeChanged
  | TrayOpen
  | TrayQuit
  | TrayReady bool

record App =
  ga_state :: ClientState
  ga_paused_flag :: bool
  ga_dark_flag :: bool
  ga_tray_available :: bool
  ga_quitting :: bool
  ga_dashboard :: Dashboard
  ga_apps_page :: AppsPage
  ga_conns_page :: ConnsPage
  ga_settings :: Settings
  ga_visible :: bool
  ga_running :: bool
  ga_banner :: bool
  ga_subtitle :: string
  ga_toasts :: "string list"
  ga_tabs :: "(string \<times> string) list" \<comment> \<open>the icon shown and its base name\<close>

definition app_init :: "toolkit \<Rightarrow> path \<Rightarrow> bool \<Rightarrow> App" where
  "app_init tk socket_path dark =
     \<lparr>ga_state = client_default, ga_paused_flag = False, ga_dark_flag = dark, ga_tray_available = False, ga_quitting = False,
      ga_dashboard = dashboard_new (tk_loads tk), ga_apps_page = apps_page_new, ga_conns_page = conns_page_new,
      ga_settings = settings_new (tk_loads tk) (display socket_path), ga_visible = True, ga_running = True,
      ga_banner = True, ga_subtitle = [], ga_toasts = [],
      ga_tabs = map (\<lambda>icon. (ui_icon_name icon dark, icon)) [''plane'', ''apps'', ''connections'', ''settings'']\<rparr>"

definition app_refresh :: "toolkit \<Rightarrow> App \<Rightarrow> App \<times> GuiCmd list" where
  "app_refresh tk app =
     (let dark = ga_dark_flag app; st = ga_state app;
          subtitle = (if \<not> cs_connected st then ''Offline''
            else (case cs_network st of None \<Rightarrow> [] | Some n \<Rightarrow> (case network_title n of Some s \<Rightarrow> s | None \<Rightarrow> [])));
          (apps_page, sent) = apps_update tk st dark (ga_apps_page app);
          (settings, sent') = settings_update (tk_loads tk) st dark (ga_settings app)
      in (app\<lparr>ga_banner := \<not> cs_connected st, ga_subtitle := subtitle,
              ga_tabs := map (\<lambda>(_, icon). (ui_icon_name icon dark, icon)) (ga_tabs app),
              ga_dashboard := dashboard_update (tk_loads tk) st dark (ga_dashboard app),
              ga_apps_page := apps_page,
              ga_conns_page := conns_update tk st dark (ga_conns_page app),
              ga_settings := settings\<rparr>, sent @ sent'))"

fun app_update :: "toolkit \<Rightarrow> AppMsg \<Rightarrow> App \<Rightarrow> App \<times> GuiCmd list" where
  "app_update tk (Client (Connected snapshot)) app =
     app_refresh tk (app\<lparr>ga_paused_flag := s_paused (sn_status snapshot),
       ga_state := apply_snapshot (sn_status snapshot) (sn_network snapshot) (sn_top snapshot) (sn_conns snapshot)
         (sn_rules snapshot) (ga_state app)\<rparr>)"
| "app_update tk (Client Disconnected) app =
     app_refresh tk (app\<lparr>ga_state := (ga_state app)\<lparr>cs_connected := False\<rparr>\<rparr>)"
| "app_update tk (Client (EventMsg event)) app =
     app_refresh tk ((case event of PausedChanged paused \<Rightarrow> app\<lparr>ga_paused_flag := paused\<rparr> | _ \<Rightarrow> app)
       \<lparr>ga_state := apply_event event (ga_state app)\<rparr>)"
| "app_update tk (Client (CommandFailed message)) app = (app\<lparr>ga_toasts := ga_toasts app @ [message]\<rparr>, [])"
| "app_update tk Tick app = app_refresh tk (app\<lparr>ga_state := tick (ga_state app)\<rparr>)"
| "app_update tk Retry app = (app, [Reconnect])"
| "app_update tk ThemeChanged app = app_refresh tk app"
| "app_update tk TrayOpen app = (app\<lparr>ga_visible := True\<rparr>, [])"
| "app_update tk TrayQuit app = (app\<lparr>ga_quitting := True, ga_running := False\<rparr>, [])"
| "app_update tk (TrayReady ok) app = (app\<lparr>ga_tray_available := ok\<rparr>, [])"

subsection \<open>Signals\<close>

text \<open>The window's close request: whether the window is kept.\<close>

definition close_request :: "App \<Rightarrow> App \<times> bool" where
  "close_request app =
     (if ga_tray_available app \<and> \<not> ga_quitting app then (app\<lparr>ga_visible := False\<rparr>, True) else (app, False))"

text \<open>The system's colour scheme changes: the tray is told, and the UI gets a message.\<close>

definition dark_changed :: "bool \<Rightarrow> App \<Rightarrow> App \<times> GuiCmd list \<times> AppMsg" where
  "dark_changed dark app = (app\<lparr>ga_dark_flag := dark\<rparr>, [RefreshTrayIcon], ThemeChanged)"

text \<open>The user flips the pause switch.\<close>

definition flip_pause :: "App \<Rightarrow> App \<times> GuiCmd list" where
  "flip_pause app =
     (let (s, cmds) = pause_set_active (\<not> st_pause_active (ga_settings app)) (ga_settings app)
      in (app\<lparr>ga_settings := s\<rparr>, cmds))"

subsection \<open>The tray\<close>

text \<open>A menu item: its label, its check mark, and what activating it sends.\<close>

datatype MenuItem =
    Standard string AppMsg
  | Checkmark string bool GuiCmd
  | Separator

definition tray_activate :: AppMsg where
  "tray_activate = TrayOpen"

definition tray_menu :: "App \<Rightarrow> MenuItem list" where
  "tray_menu app =
     (let paused = ga_paused_flag app in
      [Standard ''Open Travel Mode'' TrayOpen,
       Checkmark ''Pause Filtering'' paused (PauseCmd (\<not> paused)),
       Separator,
       Standard ''Quit'' TrayQuit])"

definition try_spawn :: "bool \<Rightarrow> AppMsg" where
  "try_spawn registered = (if registered then TrayReady True else TrayReady False)"

subsection \<open>The program\<close>

text \<open>What reaches the GUI: messages, and what the user and the desktop do.\<close>

datatype gui_input =
    Message AppMsg
  | FlipApp string
  | FlipPause
  | DarkNotify bool
  | CloseRequest

definition gui_step :: "toolkit \<Rightarrow> gui_input \<Rightarrow> App \<Rightarrow> App \<times> GuiCmd list" where
  "gui_step tk i app = (case i of
       Message m \<Rightarrow> app_update tk m app
     | FlipApp key \<Rightarrow> (let (page, cmds) = flip_switch key (ga_apps_page app) in (app\<lparr>ga_apps_page := page\<rparr>, cmds))
     | FlipPause \<Rightarrow> flip_pause app
     | DarkNotify dark \<Rightarrow> (let (app, cmds, _) = dark_changed dark app in (app, cmds))
     | CloseRequest \<Rightarrow> (fst (close_request app), []))"

section \<open>Specification\<close>

text \<open>What holds of the program between any two inputs.\<close>

definition app_ok :: "App \<Rightarrow> bool" where
  "app_ok app \<longleftrightarrow> conns_ok (ga_state app) \<and> apps_ok (ga_state app) \<and>
     apps_page_ok (ga_apps_page app) \<and> conns_page_ok (ga_conns_page app) \<and>
     ga_paused_flag app = cs_paused (ga_state app) \<and> \<not> st_pause_updating (ga_settings app) \<and>
     ga_banner app = (\<not> cs_connected (ga_state app))"

text \<open>The window shows the state.\<close>

definition window_shows :: "App \<Rightarrow> bool" where
  "window_shows app \<longleftrightarrow> (let st = ga_state app in
     dom (map_of (pa_rows (ga_apps_page app))) = dom (map_of (cs_apps st)) \<and>
     (\<forall>k a. map_of (cs_apps st) k = Some a \<longrightarrow> page_shows (ga_apps_page app) k a) \<and>
     dom (map_of (pc_rows (ga_conns_page app))) = dom (map_of (cs_conns st)) \<and>
     (\<forall>k c. map_of (cs_conns st) k = Some c \<longrightarrow> conn_shows (ga_conns_page app) k c) \<and>
     st_pause_active (ga_settings app) = cs_paused st)"

text \<open>A snapshot lists every flow once.\<close>

fun input_ok :: "gui_input \<Rightarrow> bool" where
  "input_ok (Message (Client (Connected snapshot))) = distinct (map c_key (sn_conns snapshot))"
| "input_ok _ = True"

text \<open>The messages that draw the pages again.\<close>

fun redraws :: "AppMsg \<Rightarrow> bool" where
  "redraws (Client (CommandFailed _)) = False"
| "redraws (Client _) = True"
| "redraws Tick = True"
| "redraws ThemeChanged = True"
| "redraws _ = False"

section \<open>Lemmas\<close>

lemma tick_app_fields [simp]:
  "ap_exe (tick_app a) = ap_exe a" "ap_blocked (tick_app a) = ap_blocked a"
  "ap_block_rule_id (tick_app a) = ap_block_rule_id a" "ap_name (tick_app a) = ap_name a"
  "ap_bytes_sent (tick_app a) = ap_bytes_sent a" "ap_bytes_recv (tick_app a) = ap_bytes_recv a"
  by (simp_all add: tick_app_def sample_app_def)

lemma apps_ok_tick: "apps_ok st \<Longrightarrow> apps_ok (tick st)"
proof -
  assume ok: "apps_ok st"
  have e: "block_rule_for rules (tick_app a) = block_rule_for rules a" for rules a
    by (rule block_rule_for_cong) simp
  have s: "apply_rule_flags rules (tick_app a) = tick_app a" if "apply_rule_flags rules a = a" for rules a
    using that by (simp add: apply_rule_flags_iff e)
  from ok show ?thesis
    using bt_wf_map [of "cs_apps st" "\<lambda>_. tick_app"]
    by (auto simp: apps_ok_alt tick_def map_apps_def map_of_map_val keyed_def s)
qed

lemma conns_ok_tick: "conns_ok st \<Longrightarrow> conns_ok (tick st)"
  by (simp add: conns_ok_def tick_def)

lemma settings_update_eq:
  "st_pause_active (fst (settings_update loads st dark s)) = cs_paused st"
  "\<not> st_pause_updating (fst (settings_update loads st dark s))" "snd (settings_update loads st dark s) = []"
  by (auto simp: settings_update_def Let_def pause_set_active_def pause_handler_def split: option.split)

lemma pause_set_active_frame:
  "st_pause_updating (fst (pause_set_active b s)) = st_pause_updating s" "st_pause_active (fst (pause_set_active b s)) = b"
  by (simp_all add: pause_set_active_def)

text \<open>Drawing everything again, after any change of the state.\<close>

definition drawable :: "App \<Rightarrow> bool" where
  "drawable app \<longleftrightarrow> conns_ok (ga_state app) \<and> apps_ok (ga_state app) \<and>
     apps_page_ok (ga_apps_page app) \<and> conns_page_ok (ga_conns_page app) \<and> ga_paused_flag app = cs_paused (ga_state app)"

lemma app_ok_drawable: "app_ok app \<Longrightarrow> drawable app"
  by (simp add: app_ok_def drawable_def)

lemma app_refresh_ok:
  assumes "toolkit_ok tk" "drawable app"
  shows "app_ok (fst (app_refresh tk app))" "snd (app_refresh tk app) = []" "window_shows (fst (app_refresh tk app))"
proof -
  obtain page sent where u: "apps_update tk (ga_state app) (ga_dark_flag app) (ga_apps_page app) = (page, sent)" by fastforce
  obtain s sent' where s: "settings_update (tk_loads tk) (ga_state app) (ga_dark_flag app) (ga_settings app) = (s, sent')" by fastforce
  have ok: "conns_ok (ga_state app)" "apps_ok (ga_state app)" "apps_page_ok (ga_apps_page app)"
    "conns_page_ok (ga_conns_page app)" "ga_paused_flag app = cs_paused (ga_state app)"
    using assms(2) by (simp_all add: drawable_def)
  note a = apps_update_ok [OF assms(1) ok(3,2) u]
  note c = conns_update_full [OF assms(1) ok(4,1) refl [of "conns_update tk (ga_state app) (ga_dark_flag app) (ga_conns_page app)"]]
  note t = settings_update_eq [of "tk_loads tk" "ga_state app" "ga_dark_flag app" "ga_settings app", unfolded s fst_conv snd_conv]
  have r: "app_refresh tk app = (fst (app_refresh tk app), sent @ sent')" "ga_settings (fst (app_refresh tk app)) = s"
    "ga_apps_page (fst (app_refresh tk app)) = page" "ga_state (fst (app_refresh tk app)) = ga_state app"
    "ga_conns_page (fst (app_refresh tk app)) = conns_update tk (ga_state app) (ga_dark_flag app) (ga_conns_page app)"
    "ga_paused_flag (fst (app_refresh tk app)) = ga_paused_flag app"
    "ga_banner (fst (app_refresh tk app)) = (\<not> cs_connected (ga_state app))"
    using u s by (simp_all add: app_refresh_def Let_def)
  show "app_ok (fst (app_refresh tk app))" using a c t ok by (simp add: app_ok_def r(2-))
  show "snd (app_refresh tk app) = []" using a t by (subst r(1)) simp
  show "window_shows (fst (app_refresh tk app))" using a c t by (simp add: window_shows_def r(2-))
qed

lemma flip_switch_ok: "apps_page_ok page \<Longrightarrow> apps_page_ok (fst (flip_switch k page))"
proof -
  assume ok: "apps_page_ok page"
  show ?thesis
  proof (cases "map_of (pa_rows page) k")
    case None
    with ok show ?thesis by (simp add: flip_switch_def)
  next
    case (Some r)
    let ?r = "r\<lparr>ar_active := \<not> ar_active r\<rparr>"
    let ?rows = "AList.update k ?r (pa_rows page)"
    have d: "distinct_widgets ar_row (pa_rows page)" "hm_wf (pa_rows page)"
      using ok by (simp_all add: apps_page_ok_def distinct_widgets_def)
    have "distinct_widgets ar_row ?rows"
      using distinct_row_update [OF distinct_entry(1) [OF d(1) Some] d(2), of ?r] distinct_entry(2) [OF d(1) Some] by simp
    moreover have "widgets_of ar_row (\<lambda>r. ar_blocked r = b) ?rows = widgets_of ar_row (\<lambda>r. ar_blocked r = b) (pa_rows page)" for b
      using widgets_of_update [OF d(2), of ar_row "\<lambda>r. ar_blocked r = b" k ?r] widgets_of_entry [OF d(2) Some, of ar_row "\<lambda>r. ar_blocked r = b"]
      by simp
    ultimately have "apps_page_ok (page\<lparr>pa_rows := ?rows\<rparr>)"
      using ok Some by (auto simp: apps_page_ok_def app_row_ok_def update_conv' split: if_splits)
    with ok Some show ?thesis by (simp add: flip_switch_def set_active_def Let_def split_def)
  qed
qed

lemma paused_frame [frame_simps]:
  "cs_paused (upsert_conn c b st) = cs_paused st" "cs_paused (remove_conn key st) = cs_paused st"
  "cs_connected (upsert_conn c b st) = cs_connected st" "cs_connected (remove_conn key st) = cs_connected st"
  by (simp_all add: upsert_conn_def remove_conn_def enforce_conn_cap_def Let_def split_def split: option.split)

lemma apply_event_paused:
  "cs_paused (apply_event e st) = (case e of PausedChanged p \<Rightarrow> p | _ \<Rightarrow> cs_paused st)"
  by (cases e) (simp_all add: frame_simps)

lemma apply_snapshot_paused: "cs_paused (apply_snapshot status network usages conns rules st) = s_paused status"
proof -
  have "cs_paused (fold snapshot_conn cs st) = cs_paused st" for cs st
    by (induction cs arbitrary: st) (simp_all add: snapshot_conn_def)
  then show ?thesis by (simp add: apply_snapshot_def Let_def frame_simps)
qed

subsection \<open>Every step\<close>

text \<open>A message either changes the state and draws it, or touches nothing that is drawn.\<close>

lemma app_update_cases:
  assumes "input_ok (Message m)" "app_ok app"
  obtains (draw) app' where "drawable app'" "app_update tk m app = app_refresh tk app'" "m \<noteq> Retry"
    | (other) "\<not> redraws m" "app_ok (fst (app_update tk m app))" "snd (app_update tk m app) = (if m = Retry then [Reconnect] else [])"
proof -
  have ok: "conns_ok (ga_state app)" "apps_ok (ga_state app)" "ga_paused_flag app = cs_paused (ga_state app)"
    using assms(2) by (simp_all add: app_ok_def)
  show thesis
  proof (cases m)
    case (Client cm)
    show thesis
    proof (cases cm)
      case (Connected sn)
      with Client assms ok show thesis
        using apply_snapshot_ok [of "sn_conns sn" "sn_status sn" "sn_network sn" "sn_top sn" "sn_rules sn" "ga_state app"]
        by (intro draw) (auto simp: drawable_def app_ok_def apply_snapshot_paused)
    next
      case Disconnected
      with Client assms ok show thesis
        by (intro draw) (auto simp: drawable_def app_ok_def conns_ok_def apps_ok_def)
    next
      case (EventMsg e)
      with Client assms ok show thesis
        using apply_event_conns [OF ok(1), of e] apply_event_apps [OF ok(2), of e]
        by (intro draw) (auto simp: drawable_def app_ok_def apply_event_paused simp del: apply_event.simps split: Event.split)
    next
      case (CommandFailed t)
      with Client assms show thesis by (intro other) (simp_all add: app_ok_def)
    qed
  next
    case Tick
    have "cs_paused (tick (ga_state app)) = cs_paused (ga_state app)" by (simp add: tick_def)
    with Tick assms ok show thesis
      using conns_ok_tick [OF ok(1)] apps_ok_tick [OF ok(2)]
      by (intro draw) (auto simp: drawable_def app_ok_def)
  next
    case ThemeChanged
    with assms show thesis by (intro draw) (auto simp: app_ok_drawable)
  qed (use assms(2) in \<open>intro other; simp add: app_ok_def\<close>)+
qed

lemma app_update_ok:
  assumes "toolkit_ok tk" "input_ok (Message m)" "app_ok app"
  shows "app_ok (fst (app_update tk m app))"
    and "snd (app_update tk m app) = (if m = Retry then [Reconnect] else [])"
    and "redraws m \<Longrightarrow> window_shows (fst (app_update tk m app))"
proof -
  have "app_ok (fst (app_update tk m app)) \<and> snd (app_update tk m app) = (if m = Retry then [Reconnect] else []) \<and>
      (redraws m \<longrightarrow> window_shows (fst (app_update tk m app)))"
    by (rule app_update_cases [OF assms(2,3), of tk]) (use app_refresh_ok [OF assms(1)] in \<open>auto\<close>)
  then show "app_ok (fst (app_update tk m app))"
    and "snd (app_update tk m app) = (if m = Retry then [Reconnect] else [])"
    and "redraws m \<Longrightarrow> window_shows (fst (app_update tk m app))" by blast+
qed

lemma gui_step_ok:
  assumes "toolkit_ok tk" "input_ok i" "app_ok app"
  shows "app_ok (fst (gui_step tk i app))"
proof (cases i)
  case (Message m)
  with app_update_ok(1) [OF assms(1) _ assms(3)] assms(2) show ?thesis by (simp add: gui_step_def)
next
  case (FlipApp k)
  with assms(3) flip_switch_ok [of "ga_apps_page app" k] show ?thesis
    by (auto simp: gui_step_def app_ok_def split: prod.split)
next
  case FlipPause
  with assms(3) show ?thesis
    by (simp add: gui_step_def flip_pause_def app_ok_def split_def Let_def pause_set_active_frame)
qed (use assms(3) in \<open>simp_all add: gui_step_def dark_changed_def close_request_def app_ok_def Let_def\<close>)

lemma app_init_ok: "app_ok (app_init tk socket_path dark)"
  by (simp add: app_ok_def app_init_def client_default_def conns_ok_def apps_ok_def bt_wf_def apps_page_new_ok
      conns_page_new_ok settings_new_def)

interpretation window: machine "\<lambda>i app. fst (gui_step tk i app)" input_ok "\<lambda>app. toolkit_ok tk \<longrightarrow> app_ok app" for tk
  by unfold_locales (simp add: gui_step_ok)

section \<open>Properties\<close>

text \<open>C10: Whatever messages, clicks and theme changes the GUI has seen (snapshots with one entry per flow):
  a message that changes the pages draws a window that shows exactly the state (a row for each application and each flow, with its data, and the pause
  switch), the program's own updates of the switches send no command (only the retry button's
  message sends one), and both pause controls, the switch and the tray's check mark, show whether
  filtering is paused and ask for the opposite.\<close>

theorem gui_run:
  assumes "toolkit_ok tk" "list_all input_ok is" "input_ok (Message m)"
    and "fold (\<lambda>i app. fst (gui_step tk i app)) is (app_init tk socket_path dark) = app"
    and "app_update tk m app = (app', sent)"
  shows "sent = (if m = Retry then [Reconnect] else []) \<and>
    (redraws m \<longrightarrow> window_shows app' \<and> ga_banner app' = (\<not> cs_connected (ga_state app')) \<and>
       snd (flip_pause app') = [PauseCmd (\<not> cs_paused (ga_state app'))] \<and>
       Checkmark ''Pause Filtering'' (cs_paused (ga_state app')) (PauseCmd (\<not> cs_paused (ga_state app'))) \<in> set (tray_menu app'))"
proof -
  have "app_ok app"
    using window.run_inv [of tk "app_init tk socket_path dark" "is"] assms(1,2,4) app_init_ok by blast
  note u = app_update_ok [OF assms(1,3) this, unfolded assms(5) fst_conv snd_conv]
  show ?thesis
    using u by (auto simp: window_shows_def app_ok_def flip_pause_def pause_set_active_def pause_handler_def tray_menu_def Let_def)
qed

lemma gui_run_witness:
  "\<exists>app. app_update demo_toolkit Tick (app_init demo_toolkit ''/run/s'' True) = (app, []) \<and> window_shows app \<and> ga_banner app \<and>
     snd (flip_pause app) = [PauseCmd True]"
proof -
  obtain app' sent where u: "app_update demo_toolkit Tick (app_init demo_toolkit ''/run/s'' True) = (app', sent)" by fastforce
  have "ga_state app' = tick client_default"
    using u by (auto simp: app_refresh_def app_init_def split_def Let_def)
  then have "\<not> cs_connected (ga_state app')" "\<not> cs_paused (ga_state app')"
    by (simp_all add: tick_def client_default_def)
  with gui_run [OF demo_toolkit_ok, of "[]" Tick "''/run/s''" True, OF _ _ refl] u show ?thesis by simp
qed

text \<open>What the last word of the tray was.\<close>

definition tray_ready :: "gui_input list \<Rightarrow> bool" where
  "tray_ready is = fold (\<lambda>i b. case i of Message (TrayReady ok) \<Rightarrow> ok | _ \<Rightarrow> b) is False"

lemma app_refresh_frame [simp]:
  "ga_tray_available (fst (app_refresh tk app)) = ga_tray_available app" "ga_quitting (fst (app_refresh tk app)) = ga_quitting app"
  "ga_running (fst (app_refresh tk app)) = ga_running app"
  by (simp_all add: app_refresh_def split_def Let_def)

lemma gui_step_frame:
  "ga_tray_available (fst (gui_step tk i app)) = (case i of Message (TrayReady ok) \<Rightarrow> ok | _ \<Rightarrow> ga_tray_available app)"
  "ga_quitting (fst (gui_step tk i app)) = (ga_quitting app \<or> i = Message TrayQuit)"
  "ga_running (fst (gui_step tk i app)) = (ga_running app \<and> i \<noteq> Message TrayQuit)"
proof -
  have "ga_tray_available (fst (app_update tk m app)) = (case m of TrayReady ok \<Rightarrow> ok | _ \<Rightarrow> ga_tray_available app) \<and>
      ga_quitting (fst (app_update tk m app)) = (ga_quitting app \<or> m = TrayQuit) \<and>
      ga_running (fst (app_update tk m app)) = (ga_running app \<and> m \<noteq> TrayQuit)" for m
    by (cases "(tk, m, app)" rule: app_update.cases) (simp_all split: Event.split)
  then show "ga_tray_available (fst (gui_step tk i app)) = (case i of Message (TrayReady ok) \<Rightarrow> ok | _ \<Rightarrow> ga_tray_available app)"
    "ga_quitting (fst (gui_step tk i app)) = (ga_quitting app \<or> i = Message TrayQuit)"
    "ga_running (fst (gui_step tk i app)) = (ga_running app \<and> i \<noteq> Message TrayQuit)"
    by (cases i; simp add: gui_step_def flip_pause_def dark_changed_def close_request_def split_def Let_def)+
qed

text \<open>Closing the window only hides it exactly when the tray was registered last it reported and
  Quit was not chosen, so the program is never left running without a window to reach it by; it
  stops exactly when Quit was chosen.\<close>

theorem window_close:
  "let app = fold (\<lambda>i app. fst (gui_step tk i app)) is (app_init tk socket_path dark) in
     snd (close_request app) = (tray_ready is \<and> Message TrayQuit \<notin> set is) \<and>
     ga_visible (fst (close_request app)) = (ga_visible app \<and> \<not> (tray_ready is \<and> Message TrayQuit \<notin> set is)) \<and>
     ga_running app = (Message TrayQuit \<notin> set is)"
proof -
  have "ga_tray_available (fold (\<lambda>i app. fst (gui_step tk i app)) is app) =
      fold (\<lambda>i b. case i of Message (TrayReady ok) \<Rightarrow> ok | _ \<Rightarrow> b) is (ga_tray_available app)" for app
    by (induction "is" arbitrary: app) (simp_all add: gui_step_frame)
  moreover have "ga_quitting (fold (\<lambda>i app. fst (gui_step tk i app)) is app) = (ga_quitting app \<or> Message TrayQuit \<in> set is)" for app
    by (induction "is" arbitrary: app) (auto simp: gui_step_frame)
  moreover have "ga_running (fold (\<lambda>i app. fst (gui_step tk i app)) is app) = (ga_running app \<and> Message TrayQuit \<notin> set is)" for app
    by (induction "is" arbitrary: app) (auto simp: gui_step_frame)
  ultimately show ?thesis by (simp add: Let_def close_request_def tray_ready_def app_init_def)
qed

end
