(* ===== verification/Lifecycle.thy ===== *)
theory Lifecycle
  imports System IpcServer
begin

text \<open>
  The daemon from start to exit (\<open>main\<close> in \<open>crates/daemon/src/main.rs\<close>): the firewall is set up, the
  socket bound, and between then and the signal any steps of \<open>System\<close> happen; both ways out go
  through \<open>shutdown\<close>.
\<close>

section \<open>Definitions\<close>

text \<open>The filter of the log: \<open>valid\<close> is whether \<open>EnvFilter\<close> accepts a string.\<close>

definition log_filter :: "(string \<Rightarrow> bool) \<Rightarrow> string option \<Rightarrow> Config \<Rightarrow> string" where
  "log_filter valid rust_log config =
     (let base_filter = (case rust_log of Some s \<Rightarrow> s | None \<Rightarrow> cf_log_level config);
          f = base_filter @ '',netlink_packet_route=error,netlink_proto=error''
      in if valid f then f else ''info,netlink_packet_route=error,netlink_proto=error'')"

text \<open>The signals the daemon gets while it waits.  When the handler of \<open>SIGTERM\<close> could not be installed, that
  signal has its default action and ends the process.\<close>

datatype signal = Interrupt | Terminate

datatype wait_outcome = Waiting | Returned | Killed

fun wait_for_shutdown_signal :: "bool \<Rightarrow> signal list \<Rightarrow> wait_outcome" where
  "wait_for_shutdown_signal handler [] = Waiting"
| "wait_for_shutdown_signal handler (Interrupt # sigs) = Returned"
| "wait_for_shutdown_signal handler (Terminate # sigs) = (if handler then Returned else Killed)"

text \<open>What the daemon meets: whether the rules file can be read if there is one, the clocks, the network,
  the outcomes of binding the socket, whether the handler of \<open>SIGTERM\<close> is installed, and the signals.\<close>

record boot_env =
  bo_readable :: bool
  bo_now :: time
  bo_started :: time
  bo_network :: NetworkInfo
  bo_serve :: serve_env
  bo_handler :: bool
  bo_signals :: "signal list"

definition read_rules :: "bool \<Rightarrow> disk \<Rightarrow> path \<Rightarrow> read_error + string" where
  "read_rules readable dk path =
     (case dk path of None \<Rightarrow> Inl NotFound | Some t \<Rightarrow> if readable then Inr t else Inl ReadFailed)"

definition boot :: "externals \<Rightarrow> 'k nft_exec \<Rightarrow> boot_env \<Rightarrow> Config \<Rightarrow> disk \<Rightarrow> 'k \<Rightarrow> 'k System" where
  "boot ex exec b config dk k =
     (let st = daemon_new (ex_from_json ex) (bo_now b) (bo_started b)
            (read_rules (bo_readable b) dk (cf_rules_file config)) dk config;
          (d, k) = start_firewall exec
            (\<lparr>d_state = st, d_kill = \<lparr>kw_available = None, kw_trace = []\<rparr>, d_toggles = []\<rparr>, k);
          d = refresh_network (bo_network b) d
      in \<lparr>sy_daemon = d, sy_users = user_cache_new, sy_kernel = k\<rparr>)"

text \<open>A whole run that ends in \<open>exit\<close>, with its exit code.\<close>

inductive daemon_run :: "externals \<Rightarrow> 'k nft_exec \<Rightarrow> boot_env \<Rightarrow> Config \<Rightarrow> fs_outcome \<Rightarrow> bool
    \<Rightarrow> disk \<times> 'k \<times> sockets \<Rightarrow> nat \<Rightarrow> Daemon \<times> 'k \<times> sockets \<Rightarrow> bool"
  for ex exec b config fo removed where
  bind_fails: "serve (bo_serve b) config sockets = (None, sockets') \<Longrightarrow>
     reaches ex exec False (boot ex exec b config dk k) s \<Longrightarrow>
     daemon_run ex exec b config fo removed (dk, k, sockets) 1
       (shutdown ex exec fo removed None (sy_daemon s, sy_kernel s, sockets'))"
| signalled: "serve (bo_serve b) config sockets = (Some path, sockets') \<Longrightarrow>
     wait_for_shutdown_signal (bo_handler b) (bo_signals b) = Returned \<Longrightarrow>
     reaches ex exec False (boot ex exec b config dk k) s \<Longrightarrow>
     daemon_run ex exec b config fo removed (dk, k, sockets) 0
       (shutdown ex exec fo removed (Some path) (sy_daemon s, sy_kernel s, sockets'))"

section \<open>Specification\<close>

text \<open>A rules file a daemon wrote: distinct rules, and no id at the end of the range.\<close>

definition file_ok :: "externals \<Rightarrow> disk \<Rightarrow> path \<Rightarrow> bool" where
  "file_ok ex dk path \<longleftrightarrow> (case dk path of None \<Rightarrow> True | Some t \<Rightarrow>
     (case ex_from_json ex t of None \<Rightarrow> True | Some pd \<Rightarrow>
        distinct (map r_id (p_rules pd)) \<and> distinct (map key_of (p_rules pd)) \<and> (\<forall>r \<in> set (p_rules pd). r_id r \<noteq> - 1)))"

section \<open>Lemmas\<close>

subsection \<open>What no step changes\<close>

lemma add_path: "add ch to_json fo now input (r, dk) = Some (rule, r', dk') \<Longrightarrow>
    in_path r' = in_path r \<and> (in_next_id r \<noteq> - 1 \<longrightarrow> in_next_id r' \<noteq> 0)"
  by (auto simp: add_def add_locked_Some eq_neg_iff_add_eq_0 split: option.splits)

lemma remove_path: "remove to_json fo i (r, dk) = (res, r', dk') \<Longrightarrow> in_path r' = in_path r \<and> in_next_id r' = in_next_id r"
  by (auto simp: remove_def remove_locked_def split: prod.splits option.splits)

lemma reap_path: "reap_expired to_json fo now (r, dk) = (ids, r', dk') \<Longrightarrow> in_path r' = in_path r \<and> in_next_id r' = in_next_id r"
  by (auto simp: reap_expired_def reap_locked_def Let_def)

definition store_place :: "'k System \<Rightarrow> path \<Rightarrow> bool" where
  "store_place s path \<longleftrightarrow> (let r = ds_rules (d_state (sy_daemon s)) in in_path r = path \<and> in_next_id r \<noteq> 0)"

lemma dispatch_place:
  assumes "dispatch ex env req d = Some (resp, d')"
    and "\<forall>input. req = AddRule input \<longrightarrow> in_next_id (ds_rules (d_state d)) \<noteq> - 1"
    and "in_next_id (ds_rules (d_state d)) \<noteq> 0"
  shows "in_path (ds_rules (d_state d')) = in_path (ds_rules (d_state d)) \<and> in_next_id (ds_rules (d_state d')) \<noteq> 0"
  using assms
  by (cases req) (auto simp: Let_def publish_def dest: add_path remove_path split: option.splits prod.splits)

lemma sys_step_place:
  "sys_step ex exec fifo s s' \<Longrightarrow> store_place s path \<Longrightarrow> store_place s' path"
proof (induction rule: sys_step.induct)
  case (request env req s resp d')
  then show ?case using dispatch_place [OF request(1,2)] by (simp add: store_place_def Let_def)
next
  case (reap s fo now)
  then show ?case
    by (auto simp: store_place_def reaper_tick_def Let_def publish_all frame_simps dest: reap_path split: prod.split)
next
  case (poll i s)
  then show ?case using poll_once_keeps [of i "d_state (sy_daemon s)"] by (simp add: store_place_def update_state_def)
next
  case (scan i s)
  then show ?case by (simp add: store_place_def scan_processes_def update_state_def frame_simps split: prod.split)
next
  case (packet env now instant payload s v act st')
  then show ?case using decide_frame [OF packet(1)] by (simp add: store_place_def update_state_def)
next
  case (start i s penv)
  then show ?case
    using poll_once_keeps [of i "(d_state (sy_daemon s))\<lparr>ds_attrib := refresh penv (ds_attrib (d_state (sy_daemon s)))\<rparr>"]
    by (simp add: store_place_def first_poll_def Let_def)
qed (simp_all add: store_place_def toggle_def refresh_network_def update_state_def Let_def)

lemma sys_step_firewall:
  "sys_step ex exec fifo s s' \<Longrightarrow> ds_firewall (d_state (sy_daemon s')) = ds_firewall (d_state (sy_daemon s)) \<and>
    (ds_firewall (d_state (sy_daemon s)) = None \<longrightarrow> sy_kernel s' = sy_kernel s)"
proof (induction rule: sys_step.induct)
  case (request env req s resp d')
  then show ?case using dispatch_pause [OF request(1)] by simp
next
  case (reap s fo now)
  then show ?case by (simp add: reaper_tick_def Let_def publish_all frame_simps split: prod.split)
next
  case (poll i s)
  then show ?case using poll_once_keeps [of i "d_state (sy_daemon s)"] by (simp add: update_state_def)
next
  case (scan i s)
  then show ?case by (simp add: scan_processes_def update_state_def frame_simps split: prod.split)
next
  case (packet env now instant payload s v act st')
  then show ?case using decide_keeps [OF packet(1)] by (simp add: update_state_def)
next
  case (start i s penv)
  then show ?case
    using poll_once_keeps [of i "(d_state (sy_daemon s))\<lparr>ds_attrib := refresh penv (ds_attrib (d_state (sy_daemon s)))\<rparr>"]
    by (simp add: first_poll_def Let_def)
qed (simp_all add: toggle_def run_toggle_def refresh_network_def update_state_def Let_def)

subsection \<open>Starting\<close>

lemma boot_state:
  "ds_rules (d_state (sy_daemon (boot ex exec b config dk k))) =
     load (ex_from_json ex) (bo_now b) (cf_rules_file config) (read_rules (bo_readable b) dk (cf_rules_file config))"
  "ds_connections (d_state (sy_daemon (boot ex exec b config dk k))) = []"
  "ds_processes (d_state (sy_daemon (boot ex exec b config dk k))) = []"
  "ds_attrib (d_state (sy_daemon (boot ex exec b config dk k))) = attributor_new"
  "ds_disk (d_state (sy_daemon (boot ex exec b config dk k))) = dk"
  by (simp_all add: boot_def start_firewall_def refresh_network_def daemon_new_def Let_def split: prod.split)

lemma boot_kernel:
  "sy_kernel (boot ex exec b config dk k) = snd (fw_setup exec (cf_queue_num config) False k)"
  "ds_firewall (d_state (sy_daemon (boot ex exec b config dk k))) = fst (fw_setup exec (cf_queue_num config) False k)"
  by (simp_all add: boot_def start_firewall_def refresh_network_def daemon_new_def is_paused_def Let_def split: prod.split)

text \<open>When the setup fails, the table that is left is the one it could not delete.\<close>

lemma boot_firewall:
  assumes "nft_ok exec view" "ds_firewall (d_state (sy_daemon (boot ex exec b config dk k))) = None"
  shows "view (sy_kernel (boot ex exec b config dk k)) (''inet'', ''travelmode'') = None \<or>
    \<not> fst (exec delete_table k) \<and> view (sy_kernel (boot ex exec b config dk k)) = view k"
proof -
  let ?k1 = "snd (exec delete_table k)" let ?script = "NftScript (table_script True (cf_queue_num config))"
  have "\<not> fst (exec ?script ?k1)"
    using assms(2) by (auto simp: boot_kernel fw_setup_def Let_def split: prod.splits if_splits)
  then have "view (sy_kernel (boot ex exec b config dk k)) = view ?k1"
    using nft_failed [OF assms(1)] by (simp add: boot_kernel fw_setup_kernel)
  with delete_runs [OF assms(1), of k] show ?thesis by simp
qed

lemma fw_others:
  assumes "nft_ok exec view" "T \<noteq> (''inet'', ''travelmode'')"
  shows "view (snd (fw_setup exec n paused k)) T = view k T" "view (snd (fw_pause exec fw k)) T = view k T"
    "view (snd (fw_resume exec fw k)) T = view k T" "view (fw_teardown exec fw k) T = view k T"
  using our_command_others [OF assms(1) our_commands(1) assms(2)] our_command_others [OF assms(1) our_commands(2) assms(2)]
    our_command_others [OF assms(1) our_commands(3) assms(2)] our_command_others [OF assms(1) our_commands(4) assms(2)]
  unfolding fw_setup_kernel fw_pause_def fw_resume_def fw_teardown_def by simp_all

lemma sys_step_others:
  assumes "nft_ok exec view" "T \<noteq> (''inet'', ''travelmode'')"
  shows "sys_step ex exec fifo s s' \<Longrightarrow> view (sy_kernel s') T = view (sy_kernel s) T"
proof (induction rule: sys_step.induct)
  case (toggle i s)
  show ?case
    unfolding toggle_kernel using fw_others(2,3) [OF assms] by (simp add: run_toggle_def split: option.split)
next
  case (scan i s)
  then show ?case by (simp add: scan_processes_def update_state_def split: prod.split)
qed (simp_all add: update_state_def)

lemma load_next_id:
  assumes "\<forall>t pd. res = Inr t \<longrightarrow> d t = Some pd \<longrightarrow> (\<forall>r \<in> set (p_rules pd). r_id r \<noteq> - 1)"
  shows "in_next_id (load d now path res) \<noteq> 0"
proof (cases "\<exists>t pd. res = Inr t \<and> d t = Some pd")
  case True
  then obtain t pd where t: "res = Inr t" "d t = Some pd" by blast
  let ?rs = "filter (\<lambda>r. \<not> is_expired r now) (p_rules pd)"
  have "max_id ?rs \<noteq> - 1" using max_id_zero_or_mem [of ?rs] assms t by auto
  then have "max_id ?rs + 1 \<noteq> 0" by (simp add: eq_neg_iff_add_eq_0)
  then have "0 < max_id ?rs + 1" by (simp add: word_neq_0_conv)
  then have "0 < max (p_next_id pd) (max_id ?rs + 1)" by (simp add: less_max_iff_disj)
  with t show ?thesis by (simp add: load_def Let_def)
next
  case False
  then have "load d now path res = \<lparr>in_next_id = 1, in_rules = [], in_path = path\<rparr>"
    by (cases res) (auto simp: load_empty)
  then show ?thesis by simp
qed

lemma boot_place:
  assumes "file_ok ex dk (cf_rules_file config)"
  shows "state_wf (d_state (sy_daemon (boot ex exec b config dk k)))"
    and "store_place (boot ex exec b config dk k) (cf_rules_file config)"
proof -
  let ?path = "cf_rules_file config"
  let ?r = "load (ex_from_json ex) (bo_now b) ?path (read_rules (bo_readable b) dk ?path)"
  have wf: "store_wf ?r"
  proof (cases "read_rules (bo_readable b) dk ?path")
    case (Inl e)
    then show ?thesis by (simp add: load_empty store_wf_def)
  next
    case (Inr t)
    then have "dk ?path = Some t" by (simp add: read_rules_def split: option.splits if_splits)
    with assms load_wf [of "ex_from_json ex" t "bo_now b" ?path] Inr show ?thesis by (simp add: file_ok_def)
  qed
  then show "state_wf (d_state (sy_daemon (boot ex exec b config dk k)))"
    by (simp add: state_wf_def boot_state conns_wf_def processes_wf_def attrib_wf_def attributor_new_def)
  have "in_next_id ?r \<noteq> 0"
    by (rule load_next_id) (use assms in \<open>auto simp: file_ok_def read_rules_def split: option.splits if_splits\<close>)
  then show "store_place (boot ex exec b config dk k) ?path"
    by (auto simp: store_place_def boot_state Let_def load_def split: sum.splits read_error.splits option.splits prod.splits)
qed

lemma shutdown_simps:
  assumes "shutdown ex exec fo removed path (d, k, sockets) = (d', k', sockets')"
  shows "ds_firewall (d_state d') = None" "ds_rules (d_state d') = ds_rules (d_state d)"
    "ds_disk (d_state d') = save_locked (ex_to_json ex) fo (ds_rules (d_state d)) (ds_disk (d_state d))"
    "k' = (case ds_firewall (d_state d) of None \<Rightarrow> k | Some fw \<Rightarrow> fw_teardown exec fw k)"
    "sockets' = (case path of None \<Rightarrow> sockets | Some p \<Rightarrow> if removed then sockets(p := None) else sockets)"
  using assms by (auto simp: shutdown_def save_def Let_def)

lemma serve_path: "fst (serve env config sockets) = Some p \<Longrightarrow> p = cf_socket_path config"
  by (simp add: serve_def Let_def split: if_splits)

text \<open>However the daemon ends, it ends in \<open>shutdown\<close> after some steps.\<close>

lemma daemon_run_ends:
  assumes "daemon_run ex exec b config fo removed (dk, k, sockets) code (d', k', sockets')"
  obtains s path bound where "reaches ex exec False (boot ex exec b config dk k) s"
    "serve (bo_serve b) config sockets = (path, bound)" "code = (if path = None then 1 else 0)"
    "shutdown ex exec fo removed path (sy_daemon s, sy_kernel s, bound) = (d', k', sockets')"
  using assms
proof (cases rule: daemon_run.cases)
  case (bind_fails sockets' s)
  then show thesis using that [of s None sockets'] by simp
next
  case (signalled path sockets' s)
  then show thesis using that [of s "Some path" sockets'] by simp
qed

section \<open>Properties\<close>

text \<open>A daemon that finds the two rules of the other examples in its file.\<close>

definition life_ex :: externals where
  "life_ex = demo_ex\<lparr>ex_from_json := (\<lambda>_. Some \<lparr>p_next_id = 3, p_rules = in_rules demo_store\<rparr>)\<rparr>"

definition life_env :: "bool \<Rightarrow> time \<Rightarrow> boot_env" where
  "life_env readable now = \<lparr>bo_readable = readable, bo_now = now, bo_started = now, bo_network = empty_network,
     bo_serve = \<lparr>sv_mkdir = True, sv_remove = True, sv_bind = True, sv_chmod = True, sv_umask_mode = 493\<rparr>,
     bo_handler = True, bo_signals = [Terminate]\<rparr>"

definition life_config :: Config where
  "life_config = config_default\<lparr>cf_rules_file := ''/etc/r.json''\<rparr>"

abbreviation life_disk :: disk where
  "life_disk \<equiv> [''/etc/r.json'' \<mapsto> ''{}'']"

lemma life_serve: "fst (serve (bo_serve (life_env readable now)) life_config sockets) = Some ''/run/travelmode/daemon.sock''"
  by (simp add: serve_def life_env_def life_config_def config_default_def Let_def)

lemma life_run:
  "\<exists>d' k' sockets'. daemon_run life_ex demo_nft (life_env readable now) life_config all_ok True (life_disk, Map.empty, Map.empty) 0
      (d', k', sockets') \<and>
    ds_rules (d_state d') = ds_rules (d_state (sy_daemon (boot life_ex demo_nft (life_env readable now) life_config life_disk Map.empty))) \<and>
    k' = Map.empty"
proof -
  let ?b = "life_env readable now" let ?s = "boot life_ex demo_nft ?b life_config life_disk Map.empty"
  obtain p bound where s: "serve (bo_serve ?b) life_config Map.empty = (Some p, bound)"
    using life_serve [of readable now Map.empty] by (cases "serve (bo_serve ?b) life_config Map.empty") auto
  obtain d' k' sockets' where r: "shutdown life_ex demo_nft all_ok True (Some p) (sy_daemon ?s, sy_kernel ?s, bound) = (d', k', sockets')"
    by (cases "shutdown life_ex demo_nft all_ok True (Some p) (sy_daemon ?s, sy_kernel ?s, bound)") auto
  have "daemon_run life_ex demo_nft ?b life_config all_ok True (life_disk, Map.empty, Map.empty) 0 (d', k', sockets')"
    using daemon_run.signalled [OF s, of life_ex demo_nft life_disk Map.empty ?s all_ok True] r
    by (simp add: reaches_def) (simp add: life_env_def)
  moreover have "k' = Map.empty"
    using shutdown_simps(4) [OF r] by (simp add: boot_kernel fw_setup_def demo_nft_simps fw_teardown_def)
  ultimately show ?thesis using shutdown_simps(2) [OF r] by blast
qed

lemma life_boot_rules:
  "ds_rules (d_state (sy_daemon (boot life_ex demo_nft (life_env True now) life_config life_disk Map.empty))) =
     snd (reap_locked now demo_store)"
  using load_saved [of demo_store "ex_from_json life_ex" "''{}''" now] demo_store_wf
  by (simp add: boot_state read_rules_def life_env_def life_config_def life_ex_def demo_store_def)

text \<open>C8: However the daemon ends, by a signal or because it cannot bind its socket, and whatever it
  did before, it leaves no nftables table of its own behind, unless \<open>nft\<close> refused to delete one: the
  daemon's, at the end, or an earlier daemon's, at the start, when a new one could not be installed
  either.  It never touched another table, a toggle task that is still pending cannot bring a
  rule back, it exits with success exactly when it could bind its socket, and after a signal the
  socket file is gone when it could be removed.\<close>

theorem daemon_exits:
  assumes "nft_ok exec view"
    and "daemon_run ex exec b config fo removed (dk, k, sockets) code (d', k', sockets')"
  shows "(view k' (''inet'', ''travelmode'') = None \<or>
      (\<exists>s. reaches ex exec False (boot ex exec b config dk k) s \<and>
        exec (Nft [''delete'', ''table'', ''inet'', ''travelmode'']) (sy_kernel s) = (False, k')) \<or>
      (\<not> fst (exec (Nft [''delete'', ''table'', ''inet'', ''travelmode'']) k) \<and>
        fst (fw_setup exec (cf_queue_num config) False k) = None \<and> view k' = view k)) \<and>
    (\<forall>T. T \<noteq> (''inet'', ''travelmode'') \<longrightarrow> view k' T = view k T) \<and>
    (\<forall>paused. run_toggle exec paused d' k' = k') \<and>
    (code = 0 \<longleftrightarrow> fst (serve (bo_serve b) config sockets) \<noteq> None) \<and>
    (code \<noteq> 0 \<or> \<not> removed \<or> sockets' (cf_socket_path config) = None)"
proof -
  let ?our = "(''inet'', ''travelmode'')" let ?boot = "boot ex exec b config dk k"
  obtain s path bound where r: "reaches ex exec False ?boot s"
    "serve (bo_serve b) config sockets = (path, bound)" "code = (if path = None then 1 else 0)"
    "shutdown ex exec fo removed path (sy_daemon s, sy_kernel s, bound) = (d', k', sockets')"
    using assms(2) by (rule daemon_run_ends)
  note sd = shutdown_simps [OF r(4)]
  have fw: "ds_firewall (d_state (sy_daemon s)) = ds_firewall (d_state (sy_daemon ?boot)) \<and>
      (ds_firewall (d_state (sy_daemon ?boot)) = None \<longrightarrow> sy_kernel s = sy_kernel ?boot)"
    using r(1) by (rule reaches_induct) (use sys_step_firewall in fastforce)+
  have left: "view k' ?our = None \<or> exec delete_table (sy_kernel s) = (False, k') \<or>
      \<not> fst (exec delete_table k) \<and> fst (fw_setup exec (cf_queue_num config) False k) = None \<and> view k' = view k"
  proof (cases "ds_firewall (d_state (sy_daemon s))")
    case None
    with fw sd(4) boot_firewall [OF assms(1), of ex b config dk k] show ?thesis by (auto simp: boot_kernel)
  next
    case (Some f)
    then have k': "k' = snd (exec delete_table (sy_kernel s))" by (simp add: sd(4) fw_teardown_def)
    then have "exec delete_table (sy_kernel s) = (False, k')" if "\<not> fst (exec delete_table (sy_kernel s))"
      using that by (simp add: prod_eq_iff)
    with k' delete_runs [OF assms(1), of "sy_kernel s"] show ?thesis by auto
  qed
  have others: "view k' T = view k T" if "T \<noteq> ?our" for T
  proof -
    have "view (sy_kernel s) T = view k T"
      using r(1) by (rule reaches_induct) (use fw_others(1) [OF assms(1) that] sys_step_others [OF assms(1) that] in \<open>simp_all add: boot_kernel\<close>)
    with fw_others(4) [OF assms(1) that] show ?thesis by (simp add: sd(4) split: option.split)
  qed
  have t: "run_toggle exec paused d' k' = k'" for paused by (simp add: run_toggle_def sd(1))
  have "p = cf_socket_path config" if "path = Some p" for p using serve_path [of "bo_serve b" config sockets] r(2) that by simp
  then have "path = None \<or> \<not> removed \<or> sockets' (cf_socket_path config) = None"
    unfolding sd(5) by (cases path) simp_all
  then show ?thesis
    using left others t r(1,2,3) unfolding delete_table_words by (cases path) auto
qed

theorem daemon_exits_witness:
  "\<exists>d' k' sockets'. daemon_run life_ex demo_nft (life_env True 7) life_config all_ok True (life_disk, Map.empty, Map.empty) 0 (d', k', sockets') \<and>
     k' = Map.empty \<and> sockets' ''/run/travelmode/daemon.sock'' = None"
proof -
  obtain d' k' sockets' where r: "daemon_run life_ex demo_nft (life_env True 7) life_config all_ok True
      (life_disk, Map.empty, Map.empty) 0 (d', k', sockets')" and k: "k' = Map.empty" using life_run by blast
  have "cf_socket_path life_config = ''/run/travelmode/daemon.sock''" by (simp add: life_config_def config_default_def)
  with daemon_exits [of demo_nft "\<lambda>R. R", OF demo_nft_ok r] r k show ?thesis by auto
qed

text \<open>C7: What a restart keeps: a daemon that is stopped and started again has all the rules it ended
  with, less those that expired in between, and the same next id: whatever it did, what it
  writes on its way out reads back as its store.  That includes the rules that are neither persistent nor
  have an expiry: the documentation of \<open>Rule\<close> says that such a rule ends when the daemon stops, but
  nothing drops it, a bug of the code.  It is assumed that every call of the last save succeeds, that the file the daemon
  first started from was written by one (\<open>file_ok\<close>), that the store's text reads back as the store, and
  that the file can be read.\<close>

theorem restart_keeps_rules:
  assumes "file_ok ex dk (cf_rules_file config)"
    and "daemon_run ex exec b config all_ok removed (dk, k, sockets) code (d', k', sockets')"
    and "ex_to_json ex \<lparr>p_next_id = in_next_id (ds_rules (d_state d')), p_rules = in_rules (ds_rules (d_state d'))\<rparr> = Some json"
    and "ex_from_json ex json = Some \<lparr>p_next_id = in_next_id (ds_rules (d_state d')), p_rules = in_rules (ds_rules (d_state d'))\<rparr>"
    and "bo_readable b'"
  shows "ds_rules (d_state (sy_daemon (boot ex exec b' config (ds_disk (d_state d')) k'))) =
      snd (reap_locked (bo_now b') (ds_rules (d_state d'))) \<and>
    (\<forall>r \<in> set (in_rules (ds_rules (d_state d'))). \<not> r_persistent r \<and> r_expires_at r = None \<longrightarrow>
      r \<in> set (in_rules (ds_rules (d_state (sy_daemon (boot ex exec b' config (ds_disk (d_state d')) k'))))))"
proof -
  obtain s path bound where r: "reaches ex exec False (boot ex exec b config dk k) s"
    "shutdown ex exec all_ok removed path (sy_daemon s, sy_kernel s, bound) = (d', k', sockets')"
    using assms(2) by (rule daemon_run_ends)
  note sd = shutdown_simps [OF r(2)]
  have wf: "state_wf (d_state (sy_daemon s))"
    using r(1) boot_place(1) [OF assms(1)] sys_step_wf by (rule reaches_induct)
  have place: "store_place s (cf_rules_file config)"
    using r(1) boot_place(2) [OF assms(1)] sys_step_place by (rule reaches_induct)
  let ?st = "ds_rules (d_state d')"
  have st: "store_wf ?st" "in_next_id ?st \<noteq> 0" "in_path ?st = cf_rules_file config"
    using wf place by (simp_all add: sd(2) state_wf_def store_place_def Let_def)
  have "ds_disk (d_state d') (cf_rules_file config) = Some json"
    using assms(3) st(3) by (simp add: sd(2,3) save_locked_def all_ok_def Let_def)
  with load_saved [of ?st "ex_from_json ex" json "bo_now b'"] st assms(4,5)
  have "ds_rules (d_state (sy_daemon (boot ex exec b' config (ds_disk (d_state d')) k'))) = snd (reap_locked (bo_now b') ?st)"
    by (simp add: boot_state read_rules_def)
  then show ?thesis by (simp add: reap_locked_def is_expired_def)
qed

theorem restart_keeps_rules_witness:
  "\<exists>d' k' sockets'. daemon_run life_ex demo_nft (life_env True 7) life_config all_ok True (life_disk, Map.empty, Map.empty) 0 (d', k', sockets') \<and>
     in_rules (ds_rules (d_state (sy_daemon (boot life_ex demo_nft (life_env True 50) life_config (ds_disk (d_state d')) k')))) =
       [demo_rule 1 ''/bin/a'' Block None]"
proof -
  obtain d' k' sockets' where r: "daemon_run life_ex demo_nft (life_env True 7) life_config all_ok True
      (life_disk, Map.empty, Map.empty) 0 (d', k', sockets')"
    and st: "ds_rules (d_state d') = snd (reap_locked 7 demo_store)"
    using life_run [of True 7] life_boot_rules [of 7] by auto
  have e: "snd (reap_locked 7 demo_store) = demo_store"
    by (simp add: reap_locked_def demo_store_def demo_rule_def is_expired_def)
  have f: "file_ok life_ex life_disk (cf_rules_file life_config)"
    using demo_store_wf by (simp add: file_ok_def life_ex_def life_config_def store_wf_def) (simp add: demo_store_def demo_rule_def)
  have j: "ex_to_json life_ex p = Some ''{}''" "ex_from_json life_ex ''{}'' = Some \<lparr>p_next_id = 3, p_rules = in_rules demo_store\<rparr>" for p
    by (simp_all add: life_ex_def demo_ex_def)
  have n: "in_next_id demo_store = 3" by (simp add: demo_store_def)
  have "ds_rules (d_state (sy_daemon (boot life_ex demo_nft (life_env True 50) life_config (ds_disk (d_state d')) k'))) =
      snd (reap_locked 50 demo_store)"
    using restart_keeps_rules [OF f r j(1) _, of "life_env True 50"] j(2) unfolding st e n by (simp add: life_env_def)
  moreover have "in_rules (snd (reap_locked 50 demo_store)) = [demo_rule 1 ''/bin/a'' Block None]"
    by (simp add: reap_locked_def demo_store_def demo_rule_def is_expired_def)
  ultimately show ?thesis using r by (intro exI conjI) auto
qed

text \<open>C38: A rules file that is there but cannot be read or parsed costs the user the rules: the
  daemon starts with an empty store, and when it is stopped it writes that store over the file.\<close>

theorem unreadable_rules_lost:
  assumes "dk (cf_rules_file config) = Some old" "\<not> bo_readable b \<or> ex_from_json ex old = None"
    and "fst (serve (bo_serve b) config sockets) \<noteq> None" "wait_for_shutdown_signal (bo_handler b) (bo_signals b) = Returned"
    and "ex_to_json ex \<lparr>p_next_id = 1, p_rules = []\<rparr> = Some json"
  shows "\<exists>d' k' sockets'. daemon_run ex exec b config all_ok removed (dk, k, sockets) 0 (d', k', sockets') \<and>
    ds_disk (d_state d') (cf_rules_file config) = Some json"
proof -
  let ?s = "boot ex exec b config dk k"
  obtain path bound where s: "serve (bo_serve b) config sockets = (Some path, bound)"
    using assms(3) by (cases "serve (bo_serve b) config sockets") auto
  obtain d' k' sockets' where r: "shutdown ex exec all_ok removed (Some path) (sy_daemon ?s, sy_kernel ?s, bound) = (d', k', sockets')"
    by (cases "shutdown ex exec all_ok removed (Some path) (sy_daemon ?s, sy_kernel ?s, bound)") auto
  have "daemon_run ex exec b config all_ok removed (dk, k, sockets) 0 (d', k', sockets')"
    using daemon_run.signalled [OF s assms(4), of ex exec dk k ?s all_ok removed] r by (simp add: reaches_def)
  moreover have "ds_rules (d_state (sy_daemon ?s)) = \<lparr>in_next_id = 1, in_rules = [], in_path = cf_rules_file config\<rparr>"
    using assms(1,2) by (auto simp: boot_state read_rules_def load_empty)
  then have "ds_disk (d_state d') (cf_rules_file config) = Some json"
    using assms(5) by (simp add: shutdown_simps(3) [OF r] save_locked_def all_ok_def Let_def)
  ultimately show ?thesis by blast
qed

theorem unreadable_rules_lost_witness:
  "\<exists>d' k' sockets'. daemon_run life_ex demo_nft (life_env False 7) life_config all_ok True (life_disk, Map.empty, Map.empty) 0 (d', k', sockets') \<and>
     ds_disk (d_state d') ''/etc/r.json'' = Some ''{}''"
proof -
  have p: "cf_rules_file life_config = ''/etc/r.json''" by (simp add: life_config_def)
  have "\<not> bo_readable (life_env False 7)"
    "wait_for_shutdown_signal (bo_handler (life_env False 7)) (bo_signals (life_env False 7)) = Returned" "ex_to_json life_ex \<lparr>p_next_id = 1, p_rules = []\<rparr> = Some ''{}''"
    by (simp_all add: life_env_def life_ex_def demo_ex_def)
  with unreadable_rules_lost [of life_disk life_config "''{}''" "life_env False 7" life_ex Map.empty "''{}''" demo_nft True Map.empty] p
    life_serve [of False 7 Map.empty]
  show ?thesis by simp
qed

end
