(* ===== verification/EndToEnd.thy ===== *)
theory EndToEnd
  imports Mirror GuiListing GuiApp Cli
begin

text \<open>
  The program as a whole: a switch of the GUI's applications page, the socket, the daemon's rule store
  and the event that comes back.
\<close>

section \<open>Lemmas\<close>

lemma block_rule_for_new:
  assumes "block_rule_for rules a = None" "r_action r = Block" "ap_exe a = Some exe" "path_eq (r_exe_path r) exe"
  shows "block_rule_for (filter P rules @ [r]) a = Some r"
proof -
  have "List.find Q (filter P rules @ [r]) = Some r" if "List.find Q rules = None" "Q r" for Q
    using that by (induction rules) (auto split: if_splits)
  with assms show ?thesis by (simp add: block_rule_for_def)
qed

lemma dispatch_add:
  assumes "i_ttl_secs input = None" "i_action input = Block"
  shows "\<exists>d' r. dispatch ex se (AddRule input) d = Some (ROk, d') \<and>
    ds_events (d_state d') = ds_events (d_state d) @ [RuleAdded r] \<and>
    r \<in> set (in_rules (ds_rules (d_state d'))) \<and>
    r_action r = Block \<and> r_exe_path r = i_exe_path input \<and> r_expires_at r = None \<and> r_persistent r = i_persistent input"
proof -
  obtain r rules disk where a: "add (ex_chrono ex) (ex_to_json ex) (se_fs se) (se_now se) input
      (ds_rules (d_state d), ds_disk (d_state d)) = Some (r, rules, disk)"
    and r: "r \<in> set (in_rules rules)" "r_action r = Block" "r_exe_path r = i_exe_path input" "r_expires_at r = None"
      "r_persistent r = i_persistent input"
    using assms by (auto simp: add_def add_locked_def expiry_def Let_def)
  have "\<exists>d'. dispatch ex se (AddRule input) d = Some (ROk, d') \<and>
      ds_events (d_state d') = ds_events (d_state d) @ [RuleAdded r] \<and> ds_rules (d_state d') = rules"
    by (simp add: a Let_def publish_def)
  with r show ?thesis by auto
qed

lemma settled_row:
  assumes "app_ok app" "window_shows app" "map_of (cs_apps (ga_state app)) k = Some a" "ap_exe a = Some exe" "is_absolute exe"
    and "map_of (pa_rows (ga_apps_page app)) k = Some row"
  shows "snd (flip_switch k (ga_apps_page app)) =
    (case ap_block_rule_id a of Some i \<Rightarrow> [UnblockCmd i] | None \<Rightarrow> [BlockCmd (ar_name row) exe])"
proof -
  have ok: "apps_ok (ga_state app)" "apps_page_ok (ga_apps_page app)" "page_shows (ga_apps_page app) k a"
    using assms(1-3) by (simp_all add: app_ok_def window_shows_def Let_def)
  have "gui_app_key (ap_exe a) (ap_name a) = k" "ap_blocked a = (ap_block_rule_id a \<noteq> None)"
    using ok(1) assms(3) by (auto simp: apps_ok_def apply_rule_flags_iff dest!: map_of_SomeD)
  from flip_switch_sends [OF ok(2,3) assms(4,5) this assms(6)] show ?thesis .
qed

section \<open>A session\<close>

text \<open>The requests of the first fetch.  \<open>at\<close> is the daemon as each request of the session finds it.\<close>

definition fetched :: "Request list" where
  "fetched = [GetStatus, GetNetwork, GetTop, GetConnections, ListRules]"

definition session_with :: "externals \<Rightarrow> (bytes \<Rightarrow> Request option) \<Rightarrow> (Response \<Rightarrow> bytes option) \<Rightarrow> step_env
    \<Rightarrow> (Request \<Rightarrow> Daemon) \<Rightarrow> bytes list \<Rightarrow> session_env" where
  "session_with ex dec enc se at chunks =
     \<lparr>se_subscribe = served ex dec enc se (at Subscribe), se_status = served ex dec enc se (at GetStatus),
      se_network = served ex dec enc se (at GetNetwork), se_top = served ex dec enc se (at GetTop),
      se_conns = served ex dec enc se (at GetConnections), se_rules = served ex dec enc se (at ListRules),
      se_inputs = map Data chunks\<rparr>"

text \<open>The codecs can carry the session's messages.\<close>

definition session_fits :: "externals \<Rightarrow> codec \<Rightarrow> (Response \<Rightarrow> bytes option) \<Rightarrow> step_env \<Rightarrow> (Request \<Rightarrow> Daemon)
    \<Rightarrow> Event list \<Rightarrow> bool" where
  "session_fits ex co enc se at es \<longleftrightarrow> (\<forall>req \<in> set (Subscribe # fetched). fits (co_enc co) req) \<and>
     (\<forall>req \<in> set fetched. \<forall>resp d'. dispatch ex se req (at req) = Some (resp, d') \<longrightarrow> fits enc resp) \<and>
     (\<forall>e \<in> set es. fits enc (REvent e))"

text \<open>The window after a session's messages.\<close>

definition window_after :: "toolkit \<Rightarrow> ClientMsg list \<Rightarrow> App \<Rightarrow> App" where
  "window_after tk msgs app = fold (\<lambda>m app. fst (app_update tk (Client m) app)) msgs app"

lemma fetch_snapshot_served:
  assumes "agree co dec enc" "session_fits ex co enc se at es"
  shows "\<exists>snapshot. fetch_snapshot co socket (session_with ex dec enc se at chunks) = Inr snapshot \<and>
    sn_conns snapshot = map snd (ds_connections (d_state (at GetConnections))) \<and>
    s_paused (sn_status snapshot) = ds_paused (d_state (at GetStatus)) \<and>
    sn_rules snapshot = in_rules (ds_rules (d_state (at ListRules)))"
proof -
  have ask: "one_shot co socket (served ex dec enc se (at req)) req = Inr resp"
    if "req \<in> set fetched" "dispatch ex se req (at req) = Some (resp, d')" for req resp d'
    using assms that by (intro one_shot_served_eq) (auto simp: session_fits_def fetched_def)
  show ?thesis
    using ask [of GetStatus] ask [of GetNetwork] ask [of GetTop] ask [of GetConnections] ask [of ListRules]
    by (simp add: fetched_def fetch_snapshot_def session_with_def fetch_status_def fetch_network_def fetch_top_def
        fetch_connections_def fetch_rules_def is_paused_def list_rules_def Let_def)
qed

lemma subscribe_served: "session_fits ex co enc se at es \<Longrightarrow> subscribe co socket (served ex dec enc se d) = Inr ()"
  by (auto simp: session_fits_def fits_def subscribe_def connect_def served_def write_frame_ok split: option.splits)

text \<open>A session's messages: the snapshot, and then every event.\<close>

lemma session_messages:
  assumes "agree co dec enc" "session_fits ex co enc se at es"
    and "stream_events enc (map Got es) \<lparr>wr_out = [], wr_limit = None\<rparr> = (w, None)" "concat chunks = wr_out w"
  shows "\<exists>snapshot. session co socket (session_with ex dec enc se at chunks) = (Connected snapshot # map EventMsg es, None) \<and>
    sn_conns snapshot = map snd (ds_connections (d_state (at GetConnections))) \<and>
    s_paused (sn_status snapshot) = ds_paused (d_state (at GetStatus)) \<and>
    sn_rules snapshot = in_rules (ds_rules (d_state (at ListRules)))"
proof -
  have "\<forall>e \<in> set es. \<exists>body. enc (REvent e) = Some body \<and> length body \<le> unat MAX_FRAME"
    using assms(2) by (auto simp: session_fits_def fits_def split: option.splits)
  from session_streams [OF _ this assms(3,4), of co socket "[]"] assms(1)
  have "session_loop co socket [] (map Data chunks) = (map EventMsg es, None)" by (simp add: agree_def)
  moreover have "se_subscribe (session_with ex dec enc se at chunks) = served ex dec enc se (at Subscribe)"
    "se_inputs (session_with ex dec enc se at chunks) = map Data chunks" by (simp_all add: session_with_def)
  ultimately show ?thesis
    using fetch_snapshot_served [OF assms(1,2), of socket chunks] subscribe_served [OF assms(2)]
    by (auto simp: session_def)
qed

lemma window_after_events:
  assumes "toolkit_ok tk" "app_ok app" "window_shows app"
  shows "app_ok (window_after tk (map EventMsg es) app) \<and> window_shows (window_after tk (map EventMsg es) app) \<and>
    ga_state (window_after tk (map EventMsg es) app) = fold apply_event es (ga_state app)"
  using assms(2,3)
proof (induction es arbitrary: app)
  case (Cons e es)
  let ?app = "fst (app_update tk (Client (EventMsg e)) app)"
  have "app_ok ?app" "window_shows ?app"
    using app_update_ok [OF assms(1) _ Cons.prems(1), of "Client (EventMsg e)"] by simp_all
  moreover have "ga_state ?app = apply_event e (ga_state app)"
    by (simp add: app_refresh_def split_def Let_def del: apply_event.simps)
  ultimately show ?case using Cons.IH [of ?app] by (simp add: window_after_def del: apply_event.simps app_update.simps)
qed (simp add: window_after_def)

lemma window_after_session:
  assumes "toolkit_ok tk" "app_ok app" "distinct (map c_key (sn_conns snapshot))"
    and window: "window = window_after tk (Connected snapshot # map EventMsg es) app"
  shows "window_shows window" "app_ok window"
    "ga_state window = fold apply_event es (apply_snapshot (sn_status snapshot) (sn_network snapshot) (sn_top snapshot)
       (sn_conns snapshot) (sn_rules snapshot) (ga_state app))"
proof -
  let ?app = "fst (app_update tk (Client (Connected snapshot)) app)"
  have "app_ok ?app" "window_shows ?app"
    using app_update_ok [OF assms(1) _ assms(2), of "Client (Connected snapshot)"] assms(3) by simp_all
  note w = window_after_events [OF assms(1) this, of es]
  have "window = window_after tk (map EventMsg es) ?app" by (simp add: window window_after_def del: app_update.simps)
  moreover have "ga_state ?app = apply_snapshot (sn_status snapshot) (sn_network snapshot) (sn_top snapshot)
      (sn_conns snapshot) (sn_rules snapshot) (ga_state app)"
    by (simp add: app_refresh_def split_def Let_def)
  ultimately show "window_shows window" "app_ok window"
    "ga_state window = fold apply_event es (apply_snapshot (sn_status snapshot) (sn_network snapshot) (sn_top snapshot)
       (sn_conns snapshot) (sn_rules snapshot) (ga_state app))"
    using w by simp_all
qed

lemma fold_gui_paused: "cs_paused (fold apply_event es st) = fold observe_paused es (cs_paused st)"
proof (induction es arbitrary: st)
  case (Cons e es)
  have "cs_paused (apply_event e st) = observe_paused e (cs_paused st)" by (cases e) (simp_all add: apply_event_paused del: apply_event.simps)
  with Cons show ?case by simp
qed simp

section \<open>Properties\<close>

text \<open>C1: Switching a program off: with a window drawn from the daemon's rules, flipping the switch of an
  allowed program sends one command; the daemon accepts it over the socket, stores a permanent rule
  and from then on blocks the program's executable at every instant; and when the event it publishes
  reaches the GUI, the window draws the switch off, with the new rule's id, so that flipping it again
  asks for exactly this rule's removal.\<close>

theorem switch_blocks:
  assumes "toolkit_ok tk" "app_ok app" "window_shows app" "cs_rules (ga_state app) = in_rules (ds_rules (d_state d))"
    and "map_of (cs_apps (ga_state app)) k = Some a" "is_allowed a" "ap_exe a = Some exe" "is_absolute exe"
    and "map_of (pa_rows (ga_apps_page app)) k = Some row" "request_of (BlockCmd (ar_name row) exe) = Some request"
    and "agree co dec enc" "fits (co_enc co) request" "fits enc ROk"
  shows "\<exists>d' r app'. snd (flip_switch k (ga_apps_page app)) = [BlockCmd (ar_name row) exe] \<and>
    send_command co socket (served ex dec enc se d) (BlockCmd (ar_name row) exe) = Inr () \<and>
    dispatch ex se request d = Some (ROk, d') \<and> ds_events (d_state d') = ds_events (d_state d) @ [RuleAdded r] \<and>
    (\<forall>now. is_blocked now exe (ds_rules (d_state d'))) \<and>
    app_update tk (Client (EventMsg (RuleAdded r))) app = (app', []) \<and>
    (\<exists>row'. map_of (pa_rows (ga_apps_page app')) k = Some row' \<and> \<not> ar_active row' \<and> ar_rule_id row' = Some (r_id r)) \<and>
    snd (flip_switch k (ga_apps_page app')) = [UnblockCmd (r_id r)]"
proof -
  have none: "block_rule_for (cs_rules (ga_state app)) a = None" "ap_block_rule_id a = None"
    and st: "apps_ok (ga_state app)"
    using assms(2,5,6) by (auto simp: app_ok_def apps_ok_def apply_rule_flags_iff is_allowed_def dest!: map_of_SomeD)
  have flip: "snd (flip_switch k (ga_apps_page app)) = [BlockCmd (ar_name row) exe]"
    using settled_row [OF assms(2,3,5,7,8,9)] none(2) by simp
  let ?input = "\<lparr>i_name = ar_name row, i_exe_path = exe, i_action = Block, i_persistent = True, i_ttl_secs = None\<rparr> :: RuleInput"
  have rq: "request = AddRule ?input" using assms(10) by simp
  obtain d' r where d': "dispatch ex se (AddRule ?input) d = Some (ROk, d')"
    "ds_events (d_state d') = ds_events (d_state d) @ [RuleAdded r]" "r \<in> set (in_rules (ds_rules (d_state d')))"
    "r_action r = Block" "r_exe_path r = exe" "r_expires_at r = None"
    using dispatch_add [of ?input ex se d] by auto
  have blocked: "is_blocked now exe (ds_rules (d_state d'))" for now
    using d'(3-6) by (auto simp: is_blocked_def is_expired_def list_ex_iff path_eq_def)
  have send: "send_command co socket (served ex dec enc se d) (BlockCmd (ar_name row) exe) = Inr ()"
    using send_served [OF assms(11,10,12), of ex se d ROk d' socket] d'(1) assms(13) rq by simp
  obtain app' sent where u: "app_update tk (Client (EventMsg (RuleAdded r))) app = (app', sent)" by fastforce
  have ok': "app_ok app'" "window_shows app'" "sent = []"
    using app_update_ok [OF assms(1) _ assms(2), of "Client (EventMsg (RuleAdded r))"] u by auto
  have st': "ga_state app' = apply_event (RuleAdded r) (ga_state app)"
    using u by (auto simp: app_refresh_def split_def Let_def simp del: apply_event.simps)
  have "block_rule_for (filter (\<lambda>q. r_id q \<noteq> r_id r) (cs_rules (ga_state app)) @ [r]) a = Some r"
    by (rule block_rule_for_new [OF none(1) d'(4) assms(7)]) (simp add: d'(5) path_eq_def)
  from gui_shows_block [OF st assms(5) this] obtain b where
    b: "map_of (cs_apps (ga_state app')) k = Some b" "\<not> is_allowed b" "ap_block_rule_id b = Some (r_id r)" "ap_exe b = Some exe"
    unfolding st' by (auto simp: assms(7))
  have "page_shows (ga_apps_page app') k b" using ok'(2) b(1) by (simp add: window_shows_def Let_def)
  with b have row: "\<exists>row'. map_of (pa_rows (ga_apps_page app')) k = Some row' \<and> \<not> ar_active row' \<and> ar_rule_id row' = Some (r_id r)"
    by (auto simp: page_shows_def app_displays_def row_shows_def)
  then have "snd (flip_switch k (ga_apps_page app')) = [UnblockCmd (r_id r)]"
    using settled_row [OF ok'(1,2) b(1,4) assms(8)] b(3) by auto
  with flip rq send d'(1,2) blocked u ok'(3) row show ?thesis by blast
qed

text \<open>What a window shows after a session, in terms of the snapshot and the events.\<close>

lemma window_state:
  assumes "toolkit_ok tk" "app_ok app" "agree co dec enc" "session_fits ex co enc se (\<lambda>req. sy_daemon (at req)) es"
    and "conns_wf (ds_connections (d_state (sy_daemon (at GetConnections))))"
    and "stream_events enc (map Got es) \<lparr>wr_out = [], wr_limit = None\<rparr> = (w, None)" "concat chunks = wr_out w"
    and "session co socket (session_with ex dec enc se (\<lambda>req. sy_daemon (at req)) chunks) = (msgs, r)"
  defines "window \<equiv> window_after tk msgs app"
  shows "r = None" "window_shows window" "app_ok window"
    "cs_paused (ga_state window) = fold observe_paused es (ds_paused (d_state (sy_daemon (at GetStatus))))"
    "cs_rules (ga_state window) = fold observe_rules es (in_rules (ds_rules (d_state (sy_daemon (at ListRules)))))"
    "within_cap es (conn_view (d_state (sy_daemon (at GetConnections)))) \<Longrightarrow>
       map_of (cs_conns (ga_state window)) = fold observe_conns es (conn_view (d_state (sy_daemon (at GetConnections))))"
    "rules_listed (ga_state window)"
proof -
  let ?at = "\<lambda>req. d_state (sy_daemon (at req))"
  obtain snapshot where msgs: "msgs = Connected snapshot # map EventMsg es" "r = None"
    and snap: "sn_conns snapshot = map snd (ds_connections (?at GetConnections))" "s_paused (sn_status snapshot) = ds_paused (?at GetStatus)"
      "sn_rules snapshot = in_rules (ds_rules (?at ListRules))"
    using session_messages [OF assms(3,4,6,7), of socket] assms(8) by auto
  have c: "distinct (map c_key (sn_conns snapshot))"
    "map_of (map (\<lambda>c. (c_key c, c)) (sn_conns snapshot)) = conn_view (?at GetConnections)"
    using snapshot_conn_view [of "?at GetConnections" "sn_conns snapshot"] assms(5) by (simp_all add: snap)
  note w = window_after_session [OF assms(1,2) c(1) refl, of es, folded msgs(1) window_def]
  note ok = apply_snapshot_ok [OF c(1), of "sn_status snapshot" "sn_network snapshot" "sn_top snapshot" "sn_rules snapshot" "ga_state app"]
  show "r = None" "window_shows window" "app_ok window" by (fact msgs(2) w(1,2))+
  show "cs_paused (ga_state window) = fold observe_paused es (ds_paused (?at GetStatus))"
    by (simp add: w(3) fold_gui_paused apply_snapshot_paused snap(2))
  show "cs_rules (ga_state window) = fold observe_rules es (in_rules (ds_rules (?at ListRules)))"
    unfolding w(3) fold_gui_rules ok(4) unfolding snap(3) ..
  show "rules_listed (ga_state window)" unfolding w(3) by (rule fold_event_listed [OF ok(2) snapshot_listed])
  assume "within_cap es (conn_view (?at GetConnections))"
  then show "map_of (cs_conns (ga_state window)) = fold observe_conns es (conn_view (?at GetConnections))"
    using fold_gui_conns [OF ok(1), of es] by (simp add: w(3) ok(3) c(2))
qed

text \<open>A row of the applications page and the rules that it is drawn from.\<close>

lemma row_of_rules:
  assumes "app_ok window" "window_shows window" "map_of (cs_apps (ga_state window)) k = Some a" "ap_exe a = Some exe"
  shows "\<exists>row. map_of (pa_rows (ga_apps_page window)) k = Some row \<and>
    (if ar_active row then (\<forall>r \<in> set (cs_rules (ga_state window)). \<not> (r_action r = Block \<and> path_eq (r_exe_path r) exe))
     else (\<exists>r \<in> set (cs_rules (ga_state window)). r_action r = Block \<and> path_eq (r_exe_path r) exe \<and> ar_rule_id row = Some (r_id r)))"
proof -
  let ?rules = "cs_rules (ga_state window)"
  have "apps_ok (ga_state window)" using assms(1) by (simp add: app_ok_def)
  then have flags: "ap_blocked a \<longleftrightarrow> block_rule_for ?rules a \<noteq> None" "ap_block_rule_id a = map_option r_id (block_rule_for ?rules a)"
    using assms(3) by (auto simp: apps_ok_alt apply_rule_flags_iff)
  have "page_shows (ga_apps_page window) k a" using assms(2,3) by (simp add: window_shows_def Let_def)
  then obtain row where row: "map_of (pa_rows (ga_apps_page window)) k = Some row" "ar_active row = is_allowed a"
    "ar_rule_id row = ap_block_rule_id a" by (auto simp: page_shows_def app_displays_def row_shows_def)
  show ?thesis
  proof (cases "block_rule_for ?rules a")
    case None
    with row flags show ?thesis using block_rule_for_None [of ?rules a] assms(4) by (auto simp: is_allowed_def)
  next
    case (Some r)
    with row flags show ?thesis using block_rule_for_Some [of ?rules a r] assms(4) by (auto simp: is_allowed_def)
  qed
qed

text \<open>C2: The window is the daemon.  A GUI connects: it subscribes, fetches its snapshot over five
  connections while the daemon goes on, and then receives, in whatever pieces, the frames of every
  event since the subscription.  Then its connections page has exactly a row for each flow the daemon
  tracks, with the flow's bytes, and its switch shows whether the daemon's filter is paused, as long as
  the daemon took the subscription before it answered and there are never more flows than the GUI keeps.\<close>

theorem window_mirrors_daemon:
  assumes "toolkit_ok tk" "app_ok app" "agree co dec enc" "session_fits ex co enc se (\<lambda>req. sy_daemon (at req)) es"
    and "reaches ex exec fifo (at Subscribe) (at GetStatus)" "reaches ex exec fifo (at GetStatus) (at GetConnections)"
    and "reaches ex exec fifo (at GetConnections) s" "state_wf (d_state (sy_daemon (at Subscribe)))"
    and "ds_events (d_state (sy_daemon s)) = ds_events (d_state (sy_daemon (at Subscribe))) @ es"
    and "within_cap es (conn_view (d_state (sy_daemon (at GetConnections))))"
    and "stream_events enc (map Got es) \<lparr>wr_out = [], wr_limit = None\<rparr> = (w, None)" "concat chunks = wr_out w"
    and "session co socket (session_with ex dec enc se (\<lambda>req. sy_daemon (at req)) chunks) = (msgs, r)"
  shows "let window = window_after tk msgs app; daemon = d_state (sy_daemon s) in
    dom (map_of (pc_rows (ga_conns_page window))) = dom (map_of (ds_connections daemon)) \<and>
    (\<forall>k conn. map_of (ds_connections daemon) k = Some conn \<longrightarrow> conn_shows (ga_conns_page window) k conn) \<and>
    st_pause_active (ga_settings window) = ds_paused daemon \<and> r = None"
proof -
  let ?at = "\<lambda>req. d_state (sy_daemon (at req))" and ?d = "d_state (sy_daemon s)"
  have via: "reaches ex exec fifo (at Subscribe) (at GetConnections)" "reaches ex exec fifo (at GetStatus) s"
    using assms(5-7) unfolding reaches_def by (meson rtranclp_trans)+
  note conns = replay_since [OF via(1) assms(7-9)] and paused = replay_since [OF assms(5) via(2) assms(8,9)]
  have "conns_wf (ds_connections (?at GetConnections))" using conns(1) by (simp add: state_wf_def)
  note w = window_state [OF assms(1-4) this assms(11-13)]
  have "map_of (cs_conns (ga_state (window_after tk msgs app))) = map_of (ds_connections ?d)"
    unfolding w(6) [OF assms(10)] conns(2) by (simp add: conn_view_def)
  with w(1,2,4) paused(3) show ?thesis by (simp add: window_shows_def Let_def)
qed

text \<open>C3: What the window says about a program is true of the daemon.  After a session, and as long as no rule
  replaced another one since the subscription: a program whose switch is on is not blocked by the daemon
  at any instant; for one whose switch is off the daemon has a block rule, the one whose id the switch
  sends to lift it; and every block rule of the daemon has its row, with the switch off (a rule whose
  path starts with \<open>name:\<close> is left out, which is no absolute path: such a path could not be told from the key
  of a program without one).\<close>

theorem window_shows_blocked:
  assumes "toolkit_ok tk" "app_ok app" "agree co dec enc" "session_fits ex co enc se (\<lambda>req. sy_daemon (at req)) es"
    and "reaches ex exec fifo (at Subscribe) (at GetConnections)" "reaches ex exec fifo (at Subscribe) (at ListRules)"
    and "reaches ex exec fifo (at ListRules) s" "state_wf (d_state (sy_daemon (at Subscribe)))"
    and "ds_events (d_state (sy_daemon s)) = ds_events (d_state (sy_daemon (at Subscribe))) @ es"
    and "no_replacement es (in_rules (ds_rules (d_state (sy_daemon (at Subscribe)))))"
    and "stream_events enc (map Got es) \<lparr>wr_out = [], wr_limit = None\<rparr> = (w, None)" "concat chunks = wr_out w"
    and "session co socket (session_with ex dec enc se (\<lambda>req. sy_daemon (at req)) chunks) = (msgs, r)"
  shows "let rules = ds_rules (d_state (sy_daemon s)); window = window_after tk msgs app; rows = map_of (pa_rows (ga_apps_page window)) in
    (\<forall>k a exe. map_of (cs_apps (ga_state window)) k = Some a \<and> ap_exe a = Some exe \<longrightarrow> (\<exists>row. rows k = Some row \<and>
      (if ar_active row then (\<forall>now. \<not> is_blocked now exe rules)
       else (\<exists>rule \<in> set (in_rules rules). r_action rule = Block \<and> path_eq (r_exe_path rule) exe \<and>
         ar_rule_id row = Some (r_id rule))))) \<and>
    (\<forall>rule \<in> set (in_rules rules). listable rule \<longrightarrow>
      (\<exists>row. rows (r_exe_path rule) = Some row \<and> \<not> ar_active row))"
proof -
  let ?window = "window_after tk msgs app" and ?rules = "ds_rules (d_state (sy_daemon s))"
  let ?rows = "map_of (pa_rows (ga_apps_page ?window))"
  have "state_wf (d_state (sy_daemon (at GetConnections)))" using assms(5,8) sys_step_wf by (rule reaches_induct)
  then have "conns_wf (ds_connections (d_state (sy_daemon (at GetConnections))))" by (simp add: state_wf_def)
  note w = window_state [OF assms(1-4) this assms(11-13)]
  have same: "set (cs_rules (ga_state ?window)) = set (in_rules ?rules)"
    unfolding w(5) by (rule replay_since(4) [OF assms(6,7,8,9,10)])
  have row: "\<exists>row. ?rows k = Some row \<and>
      (if ar_active row then (\<forall>r \<in> set (in_rules ?rules). \<not> (r_action r = Block \<and> path_eq (r_exe_path r) exe))
       else (\<exists>r \<in> set (in_rules ?rules). r_action r = Block \<and> path_eq (r_exe_path r) exe \<and> ar_rule_id row = Some (r_id r)))"
    if "map_of (cs_apps (ga_state ?window)) k = Some a" "ap_exe a = Some exe" for k a exe
    using row_of_rules [OF w(3,2) that] unfolding same .
  have first: "\<exists>row. ?rows k = Some row \<and> (if ar_active row then (\<forall>now. \<not> is_blocked now exe ?rules)
      else (\<exists>r \<in> set (in_rules ?rules). r_action r = Block \<and> path_eq (r_exe_path r) exe \<and> ar_rule_id row = Some (r_id r)))"
    if "map_of (cs_apps (ga_state ?window)) k = Some a" "ap_exe a = Some exe" for k a exe
    using row [OF that] by (auto simp: is_blocked_def list_ex_iff split: if_splits)
  have second: "\<exists>row. ?rows (r_exe_path rule) = Some row \<and> \<not> ar_active row"
    if "rule \<in> set (in_rules ?rules)" "listable rule" for rule
  proof -
    have "map_of (cs_apps (ga_state ?window)) (r_exe_path rule) \<noteq> None"
      using w(7) that unfolding rules_listed_def same by blast
    then obtain a where a: "map_of (cs_apps (ga_state ?window)) (r_exe_path rule) = Some a" by blast
    have "keyed (cs_apps (ga_state ?window))" using w(3) by (simp add: app_ok_def apps_ok_alt)
    from listed_blocked(1) [OF this a that(2)] that(1) have "ap_exe a = Some (r_exe_path rule)" by blast
    from row [OF a this] that show ?thesis by (auto simp: listable_def intro: path_eq_refl split: if_splits)
  qed
  show ?thesis unfolding Let_def using first second by blast
qed

text \<open>A codec for a given list of messages: the body is the position.\<close>

definition table_enc :: "'a list \<Rightarrow> 'a \<Rightarrow> bytes option" where
  "table_enc ms = map_of (zip ms (map (\<lambda>i. [of_nat i]) [0..<length ms]))"

definition table_dec :: "'a list \<Rightarrow> bytes \<Rightarrow> 'a option" where
  "table_dec ms = map_of (zip (map (\<lambda>i. [of_nat i]) [0..<length ms]) ms)"

lemma table_codec:
  assumes "length ms \<le> 256"
  shows "decodes_encoded (table_enc ms) (table_dec ms)" "v \<in> set ms \<Longrightarrow> fits (table_enc ms) v"
proof -
  let ?bs = "map (\<lambda>i. [of_nat i :: u8]) [0..<length ms]"
  have "inj_on (\<lambda>i. [of_nat i :: u8]) {0..<length ms}"
  proof (rule inj_onI)
    fix i j assume "i \<in> {0..<length ms}" "j \<in> {0..<length ms}" "[of_nat i :: u8] = [of_nat j]"
    then have "unat (of_nat i :: u8) = unat (of_nat j :: u8)" "i < 256" "j < 256" using assms by simp_all
    then show "i = j" by (simp add: unat_of_nat take_bit_eq_mod)
  qed
  then have d: "distinct ?bs" by (simp add: distinct_map)
  have "map_of (zip ?bs ms) body = Some v" if "map_of (zip ms ?bs) v = Some body" for v body
  proof -
    from map_of_SomeD [OF that] have "(body, v) \<in> set (zip ?bs ms)" by (auto simp: set_zip)
    with d show ?thesis by simp
  qed
  then show "decodes_encoded (table_enc ms) (table_dec ms)"
    by (simp add: decodes_encoded_def table_enc_def table_dec_def)
  show "fits (table_enc ms) v" if "v \<in> set ms"
  proof -
    have "v \<in> dom (map_of (zip ms ?bs))" using that by simp
    then obtain body where b: "map_of (zip ms ?bs) v = Some body" by blast
    then have "body \<in> set ?bs" by (auto dest!: map_of_SomeD simp: set_zip)
    then have "length body \<le> unat MAX_FRAME" by (auto simp: MAX_FRAME_def)
    with b show ?thesis by (simp add: fits_def table_enc_def)
  qed
qed

text \<open>Filtering is paused after the GUI has connected to the daemon of the other examples.\<close>

definition window_replies :: "Response list" where
  "window_replies = REvent (PausedChanged True) #
     map (\<lambda>req. fst (the (dispatch demo_ex demo_se req (sy_daemon demo_system)))) fetched"

definition window_codec :: codec where
  "window_codec = \<lparr>co_enc = table_enc (Subscribe # fetched), co_dec = table_dec window_replies,
     co_error = (\<lambda>_. ''error''), co_debug = (\<lambda>_. ''response'')\<rparr>"

lemma window_codec_ok:
  "agree window_codec (table_dec (Subscribe # fetched)) (table_enc window_replies)"
  "session_fits demo_ex window_codec (table_enc window_replies) demo_se (\<lambda>_. sy_daemon demo_system) [PausedChanged True]"
proof -
  have l: "length (Subscribe # fetched) \<le> 256" "length window_replies \<le> 256"
    by (simp_all add: fetched_def window_replies_def)
  show "agree window_codec (table_dec (Subscribe # fetched)) (table_enc window_replies)"
    using table_codec(1) [OF l(1)] table_codec(1) [OF l(2)] by (simp add: agree_def window_codec_def)
  have "resp \<in> set window_replies" if "req \<in> set fetched" "dispatch demo_ex demo_se req (sy_daemon demo_system) = Some (resp, d')"
    for req resp d' using that by (force simp: window_replies_def simp del: dispatch.simps)
  moreover have "REvent (PausedChanged True) \<in> set window_replies" by (simp add: window_replies_def)
  ultimately show "session_fits demo_ex window_codec (table_enc window_replies) demo_se (\<lambda>_. sy_daemon demo_system) [PausedChanged True]"
    using table_codec(2) [OF l(1)] table_codec(2) [OF l(2)]
    by (auto simp: session_fits_def window_codec_def simp del: dispatch.simps)
qed

lemma demo_system_wf: "state_wf (d_state (sy_daemon demo_system))"
  by (simp add: demo_system_def demo_d_def demo_daemon_def state_wf_def daemon_new_def attributor_new_def
      attrib_wf_def conns_wf_def demo_conn_def processes_wf_def)

lemma window_demo_run:
  obtains s w msgs r where "reaches demo_ex demo_nft True demo_system s" "reaches demo_ex demo_nft True demo_system demo_system"
    "ds_events (d_state (sy_daemon s)) = ds_events (d_state (sy_daemon demo_system)) @ [PausedChanged True]"
    "stream_events (table_enc window_replies) (map Got [PausedChanged True]) \<lparr>wr_out = [], wr_limit = None\<rparr> = (w, None)"
    "session window_codec ''/s'' (session_with demo_ex (table_dec (Subscribe # fetched)) (table_enc window_replies)
       demo_se (\<lambda>_. sy_daemon demo_system) [wr_out w]) = (msgs, r)"
    "ds_connections (d_state (sy_daemon s)) = ds_connections (d_state (sy_daemon demo_system))"
    "ds_rules (d_state (sy_daemon s)) = demo_store" "ds_paused (d_state (sy_daemon s))"
proof -
  let ?enc = "table_enc window_replies" and ?d = "sy_daemon demo_system"
  obtain d where d: "dispatch demo_ex demo_se (SetPaused True) ?d = Some (ROk, d)" by simp
  let ?s = "demo_system\<lparr>sy_daemon := d\<rparr>"
  have r: "reaches demo_ex demo_nft True demo_system ?s" "reaches demo_ex demo_nft True demo_system demo_system"
    unfolding reaches_def by (rule r_into_rtranclp, rule sys_step.request [OF d]) simp_all
  obtain body where "?enc (REvent (PausedChanged True)) = Some body" "length body \<le> unat MAX_FRAME"
    using window_codec_ok(2) by (auto simp: session_fits_def fits_def split: option.splits)
  then obtain w where w: "stream_events ?enc (map Got [PausedChanged True]) \<lparr>wr_out = [], wr_limit = None\<rparr> = (w, None)"
    by (simp add: write_frame_ok)
  obtain msgs res where m: "session window_codec ''/s'' (session_with demo_ex (table_dec (Subscribe # fetched)) ?enc
      demo_se (\<lambda>_. ?d) [wr_out w]) = (msgs, res)" by fastforce
  show thesis
  proof (rule that [OF r _ w m])
    show "ds_events (d_state (sy_daemon ?s)) = ds_events (d_state ?d) @ [PausedChanged True]" using d by (auto simp: publish_def)
    show "ds_connections (d_state (sy_daemon ?s)) = ds_connections (d_state ?d)" "ds_paused (d_state (sy_daemon ?s))"
      using d by (auto simp: publish_def)
    show "ds_rules (d_state (sy_daemon ?s)) = demo_store" using d by (auto simp: publish_def demo_system_def demo_d_def)
  qed
qed

lemma window_mirrors_daemon_witness:
  "\<exists>msgs chunks. session window_codec ''/s'' (session_with demo_ex (table_dec (Subscribe # fetched)) (table_enc window_replies)
       demo_se (\<lambda>_. sy_daemon demo_system) chunks) = (msgs, None) \<and>
     st_pause_active (ga_settings (window_after demo_toolkit msgs (app_init demo_toolkit ''/run/s'' True))) \<and>
     dom (map_of (pc_rows (ga_conns_page (window_after demo_toolkit msgs (app_init demo_toolkit ''/run/s'' True))))) =
       {''a'', ''b'', ''c'', ''d''}"
proof -
  obtain s w msgs r where f: "reaches demo_ex demo_nft True demo_system s" "reaches demo_ex demo_nft True demo_system demo_system"
    "ds_events (d_state (sy_daemon s)) = ds_events (d_state (sy_daemon demo_system)) @ [PausedChanged True]"
    "stream_events (table_enc window_replies) (map Got [PausedChanged True]) \<lparr>wr_out = [], wr_limit = None\<rparr> = (w, None)"
    and m: "session window_codec ''/s'' (session_with demo_ex (table_dec (Subscribe # fetched)) (table_enc window_replies)
      demo_se (\<lambda>_. sy_daemon demo_system) [wr_out w]) = (msgs, r)"
    and d: "ds_connections (d_state (sy_daemon s)) = ds_connections (d_state (sy_daemon demo_system))" "ds_paused (d_state (sy_daemon s))"
    by (rule window_demo_run)
  have cap: "within_cap [PausedChanged True] (conn_view (d_state (sy_daemon demo_system)))"
    by (simp add: demo_system_def demo_d_def demo_daemon_def conn_view_def demo_conn_def MAX_CONNECTIONS_def card_insert_if)
  note p = window_mirrors_daemon [OF demo_toolkit_ok app_init_ok [of demo_toolkit "''/run/s''" True] window_codec_ok
      f(2,2,1) demo_system_wf f(3) cap f(4) _ m, unfolded Let_def]
  have "dom (map_of (ds_connections (d_state (sy_daemon demo_system)))) = {''a'', ''b'', ''c'', ''d''}"
    by (auto simp: demo_system_def demo_d_def demo_daemon_def)
  with p m d show ?thesis by (intro exI [of _ msgs] exI [of _ "[wr_out w]"]) simp
qed

text \<open>The daemon of the other examples blocks \<open>/bin/b\<close>.\<close>

lemma window_shows_blocked_witness:
  "\<exists>msgs r chunks row. session window_codec ''/s'' (session_with demo_ex (table_dec (Subscribe # fetched)) (table_enc window_replies)
       demo_se (\<lambda>_. sy_daemon demo_system) chunks) = (msgs, r) \<and>
     map_of (pa_rows (ga_apps_page (window_after demo_toolkit msgs (app_init demo_toolkit ''/run/s'' True)))) ''/bin/b'' = Some row \<and>
     \<not> ar_active row"
proof -
  obtain s w msgs r where f: "reaches demo_ex demo_nft True demo_system s" "reaches demo_ex demo_nft True demo_system demo_system"
    "ds_events (d_state (sy_daemon s)) = ds_events (d_state (sy_daemon demo_system)) @ [PausedChanged True]"
    "stream_events (table_enc window_replies) (map Got [PausedChanged True]) \<lparr>wr_out = [], wr_limit = None\<rparr> = (w, None)"
    and m: "session window_codec ''/s'' (session_with demo_ex (table_dec (Subscribe # fetched)) (table_enc window_replies)
      demo_se (\<lambda>_. sy_daemon demo_system) [wr_out w]) = (msgs, r)"
    and d: "ds_rules (d_state (sy_daemon s)) = demo_store"
    by (rule window_demo_run)
  have n: "no_replacement [PausedChanged True] (in_rules (ds_rules (d_state (sy_daemon demo_system))))" by simp
  note p = window_shows_blocked [OF demo_toolkit_ok app_init_ok [of demo_toolkit "''/run/s''" True] window_codec_ok
      f(2,2,1) demo_system_wf f(3) n f(4) _ m, unfolded Let_def d, THEN conjunct2]
  have "demo_rule 2 ''/bin/b'' Block (Some 50) \<in> set (in_rules demo_store)" "listable (demo_rule 2 ''/bin/b'' Block (Some 50))"
    by (simp_all add: demo_store_def demo_rule_def listable_def)
  with p have "\<exists>row. map_of (pa_rows (ga_apps_page (window_after demo_toolkit msgs (app_init demo_toolkit ''/run/s'' True))))
      (r_exe_path (demo_rule 2 ''/bin/b'' Block (Some 50))) = Some row \<and> \<not> ar_active row" by simp
  with m show ?thesis by (auto simp: demo_rule_def)
qed

text \<open>A GUI connected to the daemon of the other examples, which tracks a flow of \<open>/usr/bin/curl\<close>.\<close>

definition curl_snapshot :: Snapshot where
  "curl_snapshot = \<lparr>sn_status = sample_status, sn_network = sample_network,
     sn_top = [\<lparr>au_name = ''curl'', au_exe = Some ''/usr/bin/curl'', au_bytes_sent = 5, au_bytes_recv = 7,
       au_connections = 1, au_blocked = False\<rparr>],
     sn_conns = [sample_flow ''a'' 5 7], sn_rules = in_rules demo_store\<rparr>"

lemma curl_app: "map_option (\<lambda>a. (is_allowed a, ap_exe a)) (map_of (cs_apps (apply_snapshot sample_status sample_network
    (sn_top curl_snapshot) (sn_conns curl_snapshot) (sn_rules curl_snapshot) client_default)) ''/usr/bin/curl'') =
  Some (True, Some ''/usr/bin/curl'')"
  by code_simp

lemma switch_blocks_witness:
  "\<exists>app input d' r. app_update demo_toolkit (Client (Connected curl_snapshot)) (app_init demo_toolkit ''/run/s'' True) = (app, []) \<and>
     snd (flip_switch ''/usr/bin/curl'' (ga_apps_page app)) = [BlockCmd (i_name input) ''/usr/bin/curl''] \<and>
     dispatch demo_ex demo_se (AddRule input) demo_d = Some (ROk, d') \<and>
     is_blocked 5 ''/usr/bin/curl'' (ds_rules (d_state d')) \<and>
     snd (flip_switch ''/usr/bin/curl'' (ga_apps_page (fst (app_update demo_toolkit (Client (EventMsg (RuleAdded r))) app)))) =
       [UnblockCmd (r_id r)]"
proof -
  obtain app sent where u: "app_update demo_toolkit (Client (Connected curl_snapshot)) (app_init demo_toolkit ''/run/s'' True) = (app, sent)"
    by fastforce
  have ok: "app_ok app" "window_shows app" "sent = []"
    using app_update_ok [OF demo_toolkit_ok _ app_init_ok [of demo_toolkit "''/run/s''" True],
      of "Client (Connected curl_snapshot)"] u
    by (simp_all add: curl_snapshot_def)
  have st: "ga_state app = apply_snapshot sample_status sample_network (sn_top curl_snapshot) (sn_conns curl_snapshot)
      (sn_rules curl_snapshot) client_default"
    using u by (auto simp: app_refresh_def app_init_def curl_snapshot_def split_def Let_def)
  have rules: "cs_rules (ga_state app) = in_rules (ds_rules (d_state demo_d))"
    unfolding st using apply_snapshot_ok(4) [of "sn_conns curl_snapshot"] by (simp add: curl_snapshot_def demo_d_def)
  obtain a where a: "map_of (cs_apps (ga_state app)) ''/usr/bin/curl'' = Some a" "is_allowed a" "ap_exe a = Some ''/usr/bin/curl''"
    using curl_app unfolding st by auto
  have "page_shows (ga_apps_page app) ''/usr/bin/curl'' a" using ok(2) a(1) by (simp add: window_shows_def Let_def)
  then obtain row where row: "map_of (pa_rows (ga_apps_page app)) ''/usr/bin/curl'' = Some row" by (auto simp: page_shows_def)
  let ?input = "\<lparr>i_name = ar_name row, i_exe_path = ''/usr/bin/curl'', i_action = Block, i_persistent = True, i_ttl_secs = None\<rparr> :: RuleInput"
  have "is_absolute ''/usr/bin/curl''" by (simp add: is_absolute_def SLASH_def)
  from switch_blocks [OF demo_toolkit_ok ok(1,2) rules a this row _ cli_codec_agree [of ?input] fits_ok, of "''/s''" demo_ex demo_se]
  obtain d' r app' where "snd (flip_switch ''/usr/bin/curl'' (ga_apps_page app)) = [BlockCmd (ar_name row) ''/usr/bin/curl'']"
      "dispatch demo_ex demo_se (AddRule ?input) demo_d = Some (ROk, d')" "\<forall>now. is_blocked now ''/usr/bin/curl'' (ds_rules (d_state d'))"
      "app_update demo_toolkit (Client (EventMsg (RuleAdded r))) app = (app', [])"
      "snd (flip_switch ''/usr/bin/curl'' (ga_apps_page app')) = [UnblockCmd (r_id r)]"
    by (auto simp del: dispatch.simps app_update.simps)
  then show ?thesis using u ok(3)
    by (intro exI [of _ app] exI [of _ ?input] exI [of _ d'] exI [of _ r]) (simp del: dispatch.simps app_update.simps)
qed

end
